(* ===== verification/GoPrelude.thy ===== *)
theory GoPrelude
  imports Main "HOL-Library.AList" "HOL-Library.Multiset" "HOL-Library.Word"
begin

text \<open>
  Shared ground of the development: how the Go language and the parts of its standard library
  that the broker and the benchmark use are represented.

  \<^item> A Go map is an association list with distinct keys (\<open>gomap\<close>). The locale \<open>go_map\<close> states
    what the code relies on (lookup after insert and delete, every key visited once by
    \<^verbatim>\<open>range\<close>) and is interpreted on the list operations.
  \<^item> The order in which \<^verbatim>\<open>range\<close> visits a map is unspecified in Go. It is an explicit
    argument of every operation that iterates: a list of keys that is a permutation of the
    keys of the map (\<open>range_of\<close>).
  \<^item> \<open>formatUint\<close> is \<^verbatim>\<open>strconv.FormatUint\<close> (and the \<^verbatim>\<open>%d\<close> verb for base 10);
    \<open>parseUint\<close> is its inverse on the texts it produces.
  \<^item> Transition systems (\<open>transition_system\<close>) give reachable states and the invariant rule once
    for the step relations of the components.
\<close>

named_theorems go_simps \<open>equations of the Go runtime model\<close>
named_theorems wf_intros \<open>well-formedness is kept\<close>

type_synonym u16 = "16 word"
type_synonym byte = "8 word"

section \<open>Go maps\<close>

type_synonym ('k, 'v) gomap = "('k \<times> 'v) list"

abbreviation gm_get :: "('k, 'v) gomap \<Rightarrow> 'k \<Rightarrow> 'v option" where
  "gm_get \<equiv> map_of"

abbreviation gm_put :: "'k \<Rightarrow> 'v \<Rightarrow> ('k, 'v) gomap \<Rightarrow> ('k, 'v) gomap" where
  "gm_put \<equiv> AList.update"

abbreviation gm_del :: "'k \<Rightarrow> ('k, 'v) gomap \<Rightarrow> ('k, 'v) gomap" where
  "gm_del \<equiv> AList.delete"

definition gm_keys :: "('k, 'v) gomap \<Rightarrow> 'k list" where
  "gm_keys m = map fst m"

definition gm_has :: "'k \<Rightarrow> ('k, 'v) gomap \<Rightarrow> bool" where
  "gm_has k m \<longleftrightarrow> k \<in> set (gm_keys m)"

definition gm_wf :: "('k, 'v) gomap \<Rightarrow> bool" where
  "gm_wf m \<longleftrightarrow> distinct (gm_keys m)"

locale go_map =
  fixes get :: "'m \<Rightarrow> 'k \<Rightarrow> 'v option"
    and put :: "'k \<Rightarrow> 'v \<Rightarrow> 'm \<Rightarrow> 'm"
    and del :: "'k \<Rightarrow> 'm \<Rightarrow> 'm"
    and keys :: "'m \<Rightarrow> 'k list"
    and wf :: "'m \<Rightarrow> bool"
  assumes get_put: "get (put k v m) k' = (if k' = k then Some v else get m k')"
    and get_del: "get (del k m) k' = (if k' = k then None else get m k')"
    and get_keys: "k \<in> set (keys m) \<longleftrightarrow> get m k \<noteq> None"
    and wf_distinct: "wf m \<Longrightarrow> distinct (keys m)"
    and wf_put: "wf m \<Longrightarrow> wf (put k v m)"
    and wf_del: "wf m \<Longrightarrow> wf (del k m)"
begin

lemma keys_put: "set (keys (put k v m)) = insert k (set (keys m))"
  by (auto simp: get_keys get_put split: if_splits)

lemma keys_del: "set (keys (del k m)) = set (keys m) - {k}"
  by (auto simp: get_keys get_del split: if_splits)

lemma len_put:
  assumes "wf m"
  shows "length (keys (put k v m)) = (if get m k = None then Suc (length (keys m)) else length (keys m))"
proof -
  have "length (keys (put k v m)) = card (insert k (set (keys m)))"
    using wf_distinct [OF wf_put [OF assms]] keys_put by (metis distinct_card)
  also have "\<dots> = (if k \<in> set (keys m) then length (keys m) else Suc (length (keys m)))"
    using wf_distinct [OF assms] by (simp add: distinct_card insert_absorb)
  finally show ?thesis by (simp add: get_keys)
qed

lemma len_del:
  assumes "wf m"
  shows "length (keys (del k m)) = (if get m k = None then length (keys m) else length (keys m) - 1)"
proof -
  have "length (keys (del k m)) = card (set (keys m) - {k})"
    using wf_distinct [OF wf_del [OF assms]] keys_del by (metis distinct_card)
  also have "\<dots> = (if k \<in> set (keys m) then length (keys m) - 1 else length (keys m))"
    using wf_distinct [OF assms] by (simp add: distinct_card)
  finally show ?thesis by (simp add: get_keys)
qed

end

interpretation gm: go_map map_of AList.update AList.delete gm_keys gm_wf
proof unfold_locales
  fix k k' :: 'k and v :: 'v and m :: "('k, 'v) gomap"
  show "map_of (AList.update k v m) k' = (if k' = k then Some v else map_of m k')"
    by (simp add: update_conv')
  show "map_of (AList.delete k m) k' = (if k' = k then None else map_of m k')"
    by (simp add: delete_conv')
  show "k \<in> set (gm_keys m) \<longleftrightarrow> map_of m k \<noteq> None"
    by (simp add: gm_keys_def map_of_eq_None_iff)
  show "gm_wf m \<Longrightarrow> distinct (gm_keys m)" by (simp add: gm_wf_def)
  show "gm_wf m \<Longrightarrow> gm_wf (AList.update k v m)"
    by (simp add: gm_wf_def gm_keys_def distinct_update)
  show "gm_wf m \<Longrightarrow> gm_wf (AList.delete k m)"
    by (simp add: gm_wf_def gm_keys_def distinct_delete)
qed

lemmas gm_lookup [go_simps] = gm.get_put gm.get_del

lemma gm_keys_simps [simp]: "gm_keys [] = []" "gm_keys (p # m) = fst p # gm_keys m"
  by (simp_all add: gm_keys_def)

lemma gm_wf_Nil [simp]: "gm_wf []"
  by (simp add: gm_wf_def)

lemma gm_has_get: "gm_has k m \<longleftrightarrow> map_of m k \<noteq> None"
  by (simp add: gm_has_def gm.get_keys)

lemma gm_has_Nil [simp]: "\<not> gm_has k []"
  by (simp add: gm_has_def)

lemma length_gm_keys [simp]: "length (gm_keys m) = length m"
  by (simp add: gm_keys_def)

lemmas gm_len_put = gm.len_put [simplified]
lemmas gm_len_del = gm.len_del [simplified]

lemma gm_len_del_has:
  assumes "gm_wf m" "gm_has k m"
  shows "Suc (length (AList.delete k m)) = length m"
proof -
  have "length (AList.delete k m) = length m - 1" "length m \<noteq> 0"
    using assms gm_len_del [OF assms(1), of k] by (auto simp: gm_has_get)
  then show ?thesis by simp
qed

lemma gm_get_wf: "gm_wf m \<Longrightarrow> map_of m k = Some v \<longleftrightarrow> (k, v) \<in> set m"
  by (auto simp: gm_wf_def gm_keys_def)

lemma gm_get_in: "map_of m k = Some v \<Longrightarrow> (k, v) \<in> set m"
  by (rule map_of_SomeD)

lemma gm_keys_in: "(k, v) \<in> set m \<Longrightarrow> k \<in> set (gm_keys m)"
  by (force simp: gm_keys_def)

lemma set_gm_put: "set (AList.update k v m) \<subseteq> insert (k, v) (set m)"
  by (induction m) auto

lemma set_gm_put_wf: "gm_wf m \<Longrightarrow> set (AList.update k v m) = insert (k, v) {p \<in> set m. fst p \<noteq> k}"
  by (induction m) (force simp: gm_wf_def gm_keys_def)+

lemma set_gm_del: "set (AList.delete k m) = {p \<in> set m. fst p \<noteq> k}"
  by (induction m) auto

lemma gm_put_new: "\<not> gm_has k m \<Longrightarrow> AList.update k v m = m @ [(k, v)]"
  by (induction m) (auto simp: gm_has_def)

lemma gm_del_put_new: "\<not> gm_has k m \<Longrightarrow> gm_del k (gm_put k v m) = m"
  by (induction m) (auto simp: gm_has_def)

lemma gm_del_absent [simp]: "\<not> gm_has k m \<Longrightarrow> AList.delete k m = m"
  by (induction m) (auto simp: gm_has_def)

lemma gm_keys_del: "gm_keys (AList.delete k m) = removeAll k (gm_keys m)"
  by (induction m) auto

section \<open>Iteration order of range\<close>

text \<open>
  \<open>range_of ks m\<close>: \<open>ks\<close> is one of the orders in which \<^verbatim>\<open>for k := range m\<close> may visit the
  keys of \<open>m\<close>: each key exactly once, in no particular order.
\<close>

definition range_of :: "'k list \<Rightarrow> ('k, 'v) gomap \<Rightarrow> bool" where
  "range_of ks m \<longleftrightarrow> mset ks = mset (gm_keys m)"

lemma range_of_refl [simp]: "range_of (gm_keys m) m"
  by (simp add: range_of_def)

lemma range_of_set: "range_of ks m \<Longrightarrow> set ks = set (gm_keys m)"
  unfolding range_of_def by (rule mset_eq_setD)

lemma range_of_distinct: "range_of ks m \<Longrightarrow> gm_wf m \<Longrightarrow> distinct ks"
  using mset_eq_imp_distinct_iff [of ks "gm_keys m"] by (simp add: range_of_def gm_wf_def)

lemma range_of_length: "range_of ks m \<Longrightarrow> length ks = length m"
  using mset_eq_length [of ks "gm_keys m"] by (simp add: range_of_def)

text \<open>The entries of a map in a given order of its keys.\<close>

definition entries_in :: "'k list \<Rightarrow> ('k, 'v) gomap \<Rightarrow> 'v list" where
  "entries_in ks m = List.map_filter (map_of m) ks"

lemma mset_entries_in:
  assumes "range_of ks m" "gm_wf m"
  shows "mset (entries_in ks m) = mset (map snd m)"
proof -
  have some: "\<And>k. k \<in> set ks \<Longrightarrow> map_of m k \<noteq> None"
    unfolding range_of_set [OF assms(1)] by (simp add: gm.get_keys)
  have "entries_in ks m = map (the \<circ> map_of m) ks"
    unfolding entries_in_def using some
    by (induction ks) (force simp: List.map_filter_simps split: option.split)+
  then have "mset (entries_in ks m) = image_mset (the \<circ> map_of m) (mset ks)" by simp
  also have "\<dots> = image_mset (the \<circ> map_of m) (mset (gm_keys m))"
    using assms(1) by (simp only: range_of_def)
  also have "\<dots> = mset (map (the \<circ> map_of m \<circ> fst) m)"
    by (simp add: gm_keys_def multiset.map_comp comp_assoc)
  also have "map (the \<circ> map_of m \<circ> fst) m = map snd m"
    using assms(2) by (auto simp: gm_wf_def gm_keys_def)
  finally show ?thesis .
qed

section \<open>Joining and splitting\<close>

text \<open>\<^verbatim>\<open>strings.Join\<close>, and the reading it is undone by.\<close>

fun join :: "string \<Rightarrow> string list \<Rightarrow> string" where
  "join sep [] = []"
| "join sep [x] = x"
| "join sep (x # y # xs) = x @ sep @ join sep (y # xs)"

fun splitOn :: "char \<Rightarrow> string \<Rightarrow> string list" where
  "splitOn c [] = [[]]"
| "splitOn c (x # xs) =
     (if x = c then [] # splitOn c xs
      else case splitOn c xs of [] \<Rightarrow> [[x]] | f # fs \<Rightarrow> (x # f) # fs)"

lemma splitOn_none: "c \<notin> set s \<Longrightarrow> splitOn c s = [s]"
  by (induction s) auto

lemma splitOn_append: "c \<notin> set s \<Longrightarrow> splitOn c (s @ c # t) = s # splitOn c t"
  by (induction s) (auto split: list.splits)

lemma splitOn_join: "fs \<noteq> [] \<Longrightarrow> \<forall>f \<in> set fs. c \<notin> set f \<Longrightarrow> splitOn c (join [c] fs) = fs"
  by (induction "[c]" fs rule: join.induct) (auto simp: splitOn_none splitOn_append)

section \<open>Number formatting\<close>

definition digit_char :: "nat \<Rightarrow> char" where
  "digit_char d = (if d < 10 then char_of (48 + d) else char_of (87 + d))"

definition digit_val :: "char \<Rightarrow> nat" where
  "digit_val c = (let n = of_char c in if n < 58 then n - 48 else n - 87)"

text \<open>\<^verbatim>\<open>strconv.FormatUint(n, base)\<close> for bases 2 to 36.\<close>

fun formatUint :: "nat \<Rightarrow> nat \<Rightarrow> string" where
  "formatUint base n =
     (if base < 2 \<or> n < base then [digit_char n]
      else formatUint base (n div base) @ [digit_char (n mod base)])"

declare formatUint.simps [simp del]

definition parseUint :: "nat \<Rightarrow> string \<Rightarrow> nat" where
  "parseUint base s = foldl (\<lambda>a c. base * a + digit_val c) 0 s"

lemma digit_val_char [simp]:
  assumes "d < 36"
  shows "digit_val (digit_char d) = d"
proof (cases "d < 10")
  case True
  then have "of_char (digit_char d) = 48 + d" by (simp add: digit_char_def)
  with True show ?thesis by (simp add: digit_val_def)
next
  case False
  with assms have "of_char (digit_char d) = 87 + d" by (simp add: digit_char_def)
  with False show ?thesis by (simp add: digit_val_def)
qed

lemma parseUint_snoc [simp]: "parseUint base (s @ [c]) = base * parseUint base s + digit_val c"
  by (simp add: parseUint_def)

lemma parse_formatUint:
  assumes "2 \<le> base" "base \<le> 36"
  shows "parseUint base (formatUint base n) = n"
  using assms
proof (induction base n rule: formatUint.induct)
  case (1 base n)
  show ?case
  proof (cases "n < base")
    case True
    with "1.prems" show ?thesis
      by (subst formatUint.simps) (simp add: parseUint_def)
  next
    case False
    have "n mod base < 36" using "1.prems" by (intro less_le_trans [OF mod_less_divisor]) auto
    then have "digit_val (digit_char (n mod base)) = n mod base" by simp
    with False "1.prems" "1.IH" show ?thesis
      by (subst formatUint.simps) simp
  qed
qed

lemma formatUint_inject:
  "2 \<le> base \<Longrightarrow> base \<le> 36 \<Longrightarrow> formatUint base m = formatUint base n \<longleftrightarrow> m = n"
  by (metis parse_formatUint)

lemma formatUint_nonempty [simp]: "formatUint base n \<noteq> []"
  by (subst formatUint.simps) simp

text \<open>Every character is a digit of the base, in particular never a dot, a dash or a newline.\<close>

lemma formatUint_chars:
  assumes "c \<in> set (formatUint base n)" "2 \<le> base"
  shows "\<exists>d < base. c = digit_char d"
  using assms
proof (induction base n rule: formatUint.induct)
  case (1 base n)
  show ?case
  proof (cases "n < base")
    case True
    with "1.prems" show ?thesis by (subst (asm) formatUint.simps) auto
  next
    case False
    with "1.prems" have "c \<in> set (formatUint base (n div base)) \<or> c = digit_char (n mod base)"
      by (subst (asm) formatUint.simps) auto
    moreover have "n mod base < base" using "1.prems" by simp
    ultimately show ?thesis using False "1.prems"(2) "1.IH" by (metis not_less)
  qed
qed

section \<open>Transition systems\<close>

inductive reachable :: "('s \<Rightarrow> bool) \<Rightarrow> ('s \<Rightarrow> 's \<Rightarrow> bool) \<Rightarrow> 's \<Rightarrow> bool"
  for start :: "'s \<Rightarrow> bool" and step :: "'s \<Rightarrow> 's \<Rightarrow> bool"
where
  reach_start: "start s \<Longrightarrow> reachable start step s"
| reach_step: "reachable start step s \<Longrightarrow> step s t \<Longrightarrow> reachable start step t"

locale transition_system =
  fixes start :: "'s \<Rightarrow> bool" and step :: "'s \<Rightarrow> 's \<Rightarrow> bool" and inv :: "'s \<Rightarrow> bool"
  assumes inv_start: "start s \<Longrightarrow> inv s"
    and inv_step: "inv s \<Longrightarrow> step s t \<Longrightarrow> inv t"
begin

lemma inv_reachable: "reachable start step s \<Longrightarrow> inv s"
  by (induction rule: reachable.induct) (auto intro: inv_start inv_step)

end

end
