(* ===== verification/JSON.thy ===== *)
theory JSON
  imports GoPrelude
begin

text \<open>
  What the broker uses of \<^verbatim>\<open>encoding/json\<close>, at the level of JSON values: the text of a line
  is represented by the value it denotes (a number by its literal, since Go re-parses it for the
  target type), and a line that is not valid JSON by \<open>None\<close>.

  \<open>unmarshal\<close> is \<^verbatim>\<open>json.Unmarshal\<close> into a struct: it always returns the struct as far as it
  was filled in, and the first error. Object keys are matched exactly first and case-insensitively
  otherwise; unknown keys are skipped; a \<^verbatim>\<open>null\<close> leaves a field alone; a value of the wrong
  kind is an error but decoding goes on with the next key. Byte slices travel as base64 strings
  (\<open>b64enc\<close>, \<open>b64dec\<close>). The last part gives the round-trip laws.
\<close>

datatype json = JNull | JBool bool | JNum string | JStr string | JArr "json list"
  | JObj "(string \<times> json) list"

fun json_kind :: "json \<Rightarrow> string" where
  "json_kind JNull = ''null''"
| "json_kind (JBool _) = ''bool''"
| "json_kind (JNum _) = ''number''"
| "json_kind (JStr _) = ''string''"
| "json_kind (JArr _) = ''array''"
| "json_kind (JObj _) = ''object''"

section \<open>Errors\<close>

text \<open>
  A field error carries the offending value and the Go type it was meant for. \<open>CorruptInput\<close>
  (bad base64) is only ever logged by the code, never sent, so its offset is not kept.
\<close>

datatype field_error = TypeMismatch string string | BadBase64

datatype unmarshal_error =
    UnexpectedEnd
  | ValueTypeError string string
  | StructTypeError string string string string
  | CorruptInput

fun unmarshalErrorText :: "unmarshal_error \<Rightarrow> string" where
  "unmarshalErrorText UnexpectedEnd = ''unexpected end of JSON input''"
| "unmarshalErrorText (ValueTypeError v t) =
     ''json: cannot unmarshal '' @ v @ '' into Go value of type '' @ t"
| "unmarshalErrorText (StructTypeError v s f t) =
     ''json: cannot unmarshal '' @ v @ '' into Go struct field '' @ s @ ''.'' @ f @ '' of type '' @ t"
| "unmarshalErrorText CorruptInput = ''illegal base64 data''"

section \<open>Struct decoding\<close>

definition ascii_lower :: "char \<Rightarrow> char" where
  "ascii_lower c = (let n = of_char c :: nat in if 65 \<le> n \<and> n \<le> 90 then char_of (n + 32) else c)"

definition fold_eq :: "string \<Rightarrow> string \<Rightarrow> bool" where
  "fold_eq a b \<longleftrightarrow> map ascii_lower a = map ascii_lower b"

type_synonym 's setter = "json \<Rightarrow> 's \<Rightarrow> 's \<times> field_error option"
type_synonym 's fields = "(string \<times> 's setter) list"

definition findField :: "'s fields \<Rightarrow> string \<Rightarrow> (string \<times> 's setter) option" where
  "findField fs k =
     (case map_of fs k of
        Some f \<Rightarrow> Some (k, f)
      | None \<Rightarrow> List.find (\<lambda>(n, _). fold_eq n k) fs)"

fun structError :: "string \<Rightarrow> string \<Rightarrow> field_error \<Rightarrow> unmarshal_error" where
  "structError s f (TypeMismatch v t) = StructTypeError v s f t"
| "structError s f BadBase64 = CorruptInput"

fun decodeObj :: "string \<Rightarrow> 's fields \<Rightarrow> (string \<times> json) list \<Rightarrow> 's \<Rightarrow>
    unmarshal_error option \<Rightarrow> 's \<times> unmarshal_error option" where
  "decodeObj tn fs [] s e = (s, e)"
| "decodeObj tn fs ((k, v) # kvs) s e =
     (case findField fs k of
        None \<Rightarrow> decodeObj tn fs kvs s e
      | Some (n, setf) \<Rightarrow>
          (case setf v s of (s', e') \<Rightarrow>
             decodeObj tn fs kvs s'
               (case e of Some _ \<Rightarrow> e | None \<Rightarrow> map_option (structError tn n) e')))"

definition unmarshal :: "string \<Rightarrow> 's fields \<Rightarrow> json option \<Rightarrow> 's \<Rightarrow> 's \<times> unmarshal_error option" where
  "unmarshal tn fs j s =
     (case j of
        None \<Rightarrow> (s, Some UnexpectedEnd)
      | Some JNull \<Rightarrow> (s, None)
      | Some (JObj kvs) \<Rightarrow> decodeObj tn fs kvs s None
      | Some v \<Rightarrow> (s, Some (ValueTypeError (json_kind v) (''protocol.'' @ tn))))"

section \<open>Field types\<close>

definition is_digit :: "char \<Rightarrow> bool" where
  "is_digit c \<longleftrightarrow> 48 \<le> (of_char c :: nat) \<and> (of_char c :: nat) \<le> 57"

text \<open>\<^verbatim>\<open>strconv.ParseUint(lit, 10, 64)\<close> followed by the overflow check for the field's width.\<close>

definition parseUintMax :: "nat \<Rightarrow> string \<Rightarrow> nat option" where
  "parseUintMax mx lit =
     (if lit \<noteq> [] \<and> list_all is_digit lit \<and> parseUint 10 lit \<le> mx then Some (parseUint 10 lit) else None)"

text \<open>\<^verbatim>\<open>strconv.ParseInt(lit, 10, 64)\<close> on a JSON number literal.\<close>

definition parseInt64 :: "string \<Rightarrow> int option" where
  "parseInt64 lit =
     (case lit of
        [] \<Rightarrow> None
      | c # ds \<Rightarrow>
          if c = CHR ''-'' then map_option (\<lambda>n. - int n) (parseUintMax (2 ^ 63) ds)
          else map_option int (parseUintMax (2 ^ 63 - 1) lit))"

type_synonym ('a, 's) upd = "('a \<Rightarrow> 'a) \<Rightarrow> 's \<Rightarrow> 's"

fun setNamedString :: "string \<Rightarrow> (string, 's) upd \<Rightarrow> 's setter" where
  "setNamedString t upd (JStr v) s = (upd (\<lambda>_. v) s, None)"
| "setNamedString t upd JNull s = (s, None)"
| "setNamedString t upd v s = (s, Some (TypeMismatch (json_kind v) t))"

definition setString :: "(string, 's) upd \<Rightarrow> 's setter" where
  "setString = setNamedString ''string''"

fun setUint16 :: "(u16, 's) upd \<Rightarrow> 's setter" where
  "setUint16 upd (JNum lit) s =
     (case parseUintMax 65535 lit of
        Some n \<Rightarrow> (upd (\<lambda>_. of_nat n) s, None)
      | None \<Rightarrow> (s, Some (TypeMismatch (''number '' @ lit) ''uint16'')))"
| "setUint16 upd JNull s = (s, None)"
| "setUint16 upd v s = (s, Some (TypeMismatch (json_kind v) ''uint16''))"

fun setInt :: "(int, 's) upd \<Rightarrow> 's setter" where
  "setInt upd (JNum lit) s =
     (case parseInt64 lit of
        Some n \<Rightarrow> (upd (\<lambda>_. n) s, None)
      | None \<Rightarrow> (s, Some (TypeMismatch (''number '' @ lit) ''int'')))"
| "setInt upd JNull s = (s, None)"
| "setInt upd v s = (s, Some (TypeMismatch (json_kind v) ''int''))"

text \<open>A \<^verbatim>\<open>*bool\<close> field: \<^verbatim>\<open>null\<close> sets it to nil.\<close>

fun setBoolPtr :: "(bool option, 's) upd \<Rightarrow> 's setter" where
  "setBoolPtr upd (JBool b) s = (upd (\<lambda>_. Some b) s, None)"
| "setBoolPtr upd JNull s = (upd (\<lambda>_. None) s, None)"
| "setBoolPtr upd v s = (s, Some (TypeMismatch (json_kind v) ''bool''))"

text \<open>A \<^verbatim>\<open>json.RawMessage\<close> field keeps whatever value is there, \<^verbatim>\<open>null\<close> included.\<close>

definition setRaw :: "(json option, 's) upd \<Rightarrow> 's setter" where
  "setRaw upd v s = (upd (\<lambda>_. Some v) s, None)"

section \<open>Base64 byte slices\<close>

definition b64_alphabet :: string where
  "b64_alphabet = ''ABCDEFGHIJKLMNOPQRSTUVWXYZabcdefghijklmnopqrstuvwxyz0123456789+/''"

definition b64_char :: "nat \<Rightarrow> char" where
  "b64_char n = b64_alphabet ! n"

definition b64_val :: "char \<Rightarrow> nat option" where
  "b64_val c = (let i = length (takeWhile (\<lambda>x. x \<noteq> c) b64_alphabet) in if i < 64 then Some i else None)"

fun b64enc :: "byte list \<Rightarrow> string" where
  "b64enc [] = []"
| "b64enc [a] = [b64_char (unat a div 4), b64_char (unat a mod 4 * 16), CHR ''='', CHR ''='']"
| "b64enc [a, b] =
     [b64_char (unat a div 4), b64_char (unat a mod 4 * 16 + unat b div 16),
      b64_char (unat b mod 16 * 4), CHR ''='']"
| "b64enc (a # b # c # r) =
     [b64_char (unat a div 4), b64_char (unat a mod 4 * 16 + unat b div 16),
      b64_char (unat b mod 16 * 4 + unat c div 64), b64_char (unat c mod 64)] @ b64enc r"

definition b64_byte1 :: "nat \<Rightarrow> nat \<Rightarrow> byte" where
  "b64_byte1 w x = of_nat (w * 4 + x div 16)"

definition b64_byte2 :: "nat \<Rightarrow> nat \<Rightarrow> byte" where
  "b64_byte2 x y = of_nat (x mod 16 * 16 + y div 4)"

definition b64_byte3 :: "nat \<Rightarrow> nat \<Rightarrow> byte" where
  "b64_byte3 y z = of_nat (y mod 4 * 64 + z)"

fun b64quads :: "string \<Rightarrow> byte list option" where
  "b64quads [] = Some []"
| "b64quads (cw # cx # cy # cz # r) =
     (case (b64_val cw, b64_val cx) of
        (Some w, Some x) \<Rightarrow>
          (if cz = CHR ''='' \<and> cy = CHR ''='' then (if r = [] then Some [b64_byte1 w x] else None)
           else if cz = CHR ''='' then
             (case b64_val cy of
                Some y \<Rightarrow> if r = [] then Some [b64_byte1 w x, b64_byte2 x y] else None
              | None \<Rightarrow> None)
           else
             (case (b64_val cy, b64_val cz) of
                (Some y, Some z) \<Rightarrow>
                  map_option (\<lambda>bs. b64_byte1 w x # b64_byte2 x y # b64_byte3 y z # bs) (b64quads r)
              | _ \<Rightarrow> None))
      | _ \<Rightarrow> None)"
| "b64quads _ = None"

text \<open>The decoder skips carriage returns and newlines wherever they are.\<close>

definition b64dec :: "string \<Rightarrow> byte list option" where
  "b64dec s = b64quads (filter (\<lambda>c. c \<noteq> CHR 0x0D \<and> c \<noteq> CHR 0x0A) s)"

text \<open>
  A \<^verbatim>\<open>[]byte\<close> field: a base64 string, or an array of numbers below 256 (an element of another
  kind is an error and stays 0, a \<^verbatim>\<open>null\<close> element stays 0 without error).
\<close>

fun byteElem :: "json \<Rightarrow> byte \<times> field_error option" where
  "byteElem (JNum lit) =
     (case parseUintMax 255 lit of
        Some n \<Rightarrow> (of_nat n, None)
      | None \<Rightarrow> (0, Some (TypeMismatch (''number '' @ lit) ''uint8'')))"
| "byteElem JNull = (0, None)"
| "byteElem v = (0, Some (TypeMismatch (json_kind v) ''uint8''))"

definition firstError :: "field_error option list \<Rightarrow> field_error option" where
  "firstError es = (case filter (\<lambda>e. e \<noteq> None) es of [] \<Rightarrow> None | e # _ \<Rightarrow> e)"

fun setBytes :: "(byte list, 's) upd \<Rightarrow> 's setter" where
  "setBytes upd (JStr v) s =
     (case b64dec v of Some bs \<Rightarrow> (upd (\<lambda>_. bs) s, None) | None \<Rightarrow> (s, Some BadBase64))"
| "setBytes upd (JArr vs) s =
     (upd (\<lambda>_. map (fst \<circ> byteElem) vs) s, firstError (map (snd \<circ> byteElem) vs))"
| "setBytes upd JNull s = (upd (\<lambda>_. []) s, None)"
| "setBytes upd v s = (s, Some (TypeMismatch (json_kind v) ''[]uint8''))"

section \<open>Encoding helpers\<close>

definition jUint16 :: "u16 \<Rightarrow> json" where
  "jUint16 w = JNum (formatUint 10 (unat w))"

definition jBytes :: "byte list \<Rightarrow> json" where
  "jBytes bs = JStr (b64enc bs)"

text \<open>\<^verbatim>\<open>strconv.Itoa\<close> and the \<^verbatim>\<open>%d\<close> verb.\<close>

definition itoa :: "int \<Rightarrow> string" where
  "itoa n = (if n < 0 then CHR ''-'' # formatUint 10 (nat (- n)) else formatUint 10 (nat n))"

definition jInt :: "int \<Rightarrow> json" where
  "jInt n = JNum (itoa n)"

text \<open>A field with \<^verbatim>\<open>omitempty\<close>.\<close>

definition omitEmpty :: "string \<Rightarrow> string \<Rightarrow> (string \<times> json) list" where
  "omitEmpty k v = (if v = [] then [] else [(k, JStr v)])"

section \<open>Round trips of the field types\<close>

lemma is_digit_digit_char: "d < 10 \<Longrightarrow> is_digit (digit_char d)"
  by (simp add: is_digit_def digit_char_def)

lemma formatUint_digits: "list_all is_digit (formatUint 10 n)"
  unfolding list_all_iff
  using formatUint_chars [of _ 10 n] is_digit_digit_char by fastforce

lemma formatUint_head: "0 < n \<Longrightarrow> hd (formatUint 10 n) \<noteq> CHR ''0''"
proof (induction n rule: less_induct)
  case (less n)
  show ?case
  proof (cases "n < 10")
    case True
    then have "digit_val (digit_char n) = n" by simp
    then have "digit_char n \<noteq> CHR ''0''" using less.prems by (auto simp: digit_val_def)
    with True show ?thesis by (subst formatUint.simps) simp
  next
    case False
    then have "hd (formatUint 10 (n div 10)) \<noteq> CHR ''0''" by (intro less.IH) auto
    with False show ?thesis by (subst formatUint.simps) simp
  qed
qed

lemma formatUint_0: "formatUint 10 0 = ''0''"
  by (subst formatUint.simps) (simp add: digit_char_def char_of_def, code_simp)

lemma parseUintMax_format: "n \<le> mx \<Longrightarrow> parseUintMax mx (formatUint 10 n) = Some n"
  by (simp add: parseUintMax_def formatUint_digits parse_formatUint)

lemma setUint16_jUint16 [simp]: "setUint16 upd (jUint16 w) s = (upd (\<lambda>_. w) s, None)"
proof -
  have "unat w \<le> 65535" using unsigned_less [where 'a = nat and w = w] by simp
  then show ?thesis by (simp add: jUint16_def parseUintMax_format)
qed

lemma formatUint_no_dash: "formatUint 10 n \<noteq> CHR ''-'' # ds"
proof
  assume "formatUint 10 n = CHR ''-'' # ds"
  then have "is_digit CHR ''-''" using formatUint_digits [of n] by simp
  then show False by (simp add: is_digit_def)
qed

lemma parseInt64_itoa:
  assumes "- (2 ^ 63) \<le> n" "n < 2 ^ 63"
  shows "parseInt64 (itoa n) = Some n"
proof (cases "n < 0")
  case True
  with assms have "nat (- n) \<le> 2 ^ 63" by simp
  with True show ?thesis by (simp add: parseInt64_def itoa_def parseUintMax_format)
next
  case False
  then obtain c ds where cds: "itoa n = c # ds"
    by (cases "itoa n") (auto simp: itoa_def)
  with False have "c \<noteq> CHR ''-''" using formatUint_no_dash [of "nat n"] by (auto simp: itoa_def)
  moreover have "nat n \<le> 2 ^ 63 - 1" using assms False by simp
  then have "parseUintMax (2 ^ 63 - 1) (itoa n) = Some (nat n)"
    using False by (simp add: itoa_def parseUintMax_format)
  ultimately show ?thesis using False by (simp add: parseInt64_def cds)
qed

lemma setInt_jInt: "- (2 ^ 63) \<le> n \<Longrightarrow> n < 2 ^ 63 \<Longrightarrow> setInt upd (jInt n) s = (upd (\<lambda>_. n) s, None)"
  by (simp add: jInt_def parseInt64_itoa)

lemma length_takeWhile_nth:
  "distinct xs \<Longrightarrow> n < length xs \<Longrightarrow> length (takeWhile (\<lambda>x. x \<noteq> xs ! n) xs) = n"
proof (induction xs arbitrary: n)
  case (Cons x xs)
  then show ?case by (cases n) (auto simp: nth_Cons')
qed simp

lemma b64_alphabet_facts:
  "distinct b64_alphabet" "length b64_alphabet = 64"
  "list_all (\<lambda>c. c \<noteq> CHR ''='' \<and> c \<noteq> CHR 0x0D \<and> c \<noteq> CHR 0x0A) b64_alphabet"
  by (simp_all add: b64_alphabet_def)

lemma b64_val_char [simp]: "n < 64 \<Longrightarrow> b64_val (b64_char n) = Some n"
  by (simp add: b64_val_def b64_char_def length_takeWhile_nth b64_alphabet_facts)

lemma b64_char_plain:
  assumes "n < 64"
  shows "b64_char n \<noteq> CHR ''=''" "b64_char n \<noteq> CHR 0x0D" "b64_char n \<noteq> CHR 0x0A"
  using b64_alphabet_facts assms by (auto simp: b64_char_def list_all_length)

lemma unat_byte: "unat (a :: byte) < 256"
  using unsigned_less [where 'a = nat and w = a] by simp

lemma b64_quotients:
  fixes a :: byte
  shows "unat a div 4 < 64" "unat a div 16 < 16" "unat a div 64 < 4"
  using unat_byte [of a] by auto

lemma b64_sextets:
  fixes a b c :: byte
  shows "unat a div 4 < 64" "unat a mod 4 * 16 < 64" "unat a mod 4 * 16 + unat b div 16 < 64"
    "unat b mod 16 * 4 < 64" "unat b mod 16 * 4 + unat c div 64 < 64" "unat c mod 64 < 64"
proof -
  have "unat a mod 4 \<le> 3" "unat b mod 16 \<le> 15" by (simp_all add: less_Suc_eq_le [symmetric])
  then show "unat a div 4 < 64" "unat a mod 4 * 16 < 64" "unat a mod 4 * 16 + unat b div 16 < 64"
    "unat b mod 16 * 4 < 64" "unat b mod 16 * 4 + unat c div 64 < 64" "unat c mod 64 < 64"
    using b64_quotients [of a] b64_quotients [of b] b64_quotients [of c] by simp_all
qed

lemma b64_bytes:
  fixes a b c :: byte
  shows "b64_byte1 (unat a div 4) (unat a mod 4 * 16) = a"
    "b64_byte1 (unat a div 4) (unat a mod 4 * 16 + unat b div 16) = a"
    "b64_byte2 (unat a mod 4 * 16 + unat b div 16) (unat b mod 16 * 4) = b"
    "b64_byte2 (unat a mod 4 * 16 + unat b div 16) (unat b mod 16 * 4 + unat c div 64) = b"
    "b64_byte3 (unat b mod 16 * 4 + unat c div 64) (unat c mod 64) = c"
proof -
  have a: "(unat a mod 4 * 16 + unat b div 16) div 16 = unat a mod 4"
    and b: "(unat a mod 4 * 16 + unat b div 16) mod 16 = unat b div 16"
    using b64_quotients [of b] by simp_all
  have c: "(unat b mod 16 * 4 + unat c div 64) div 4 = unat b mod 16"
    and d: "(unat b mod 16 * 4 + unat c div 64) mod 4 = unat c div 64"
    using b64_quotients [of c] by simp_all
  show "b64_byte1 (unat a div 4) (unat a mod 4 * 16) = a"
    "b64_byte1 (unat a div 4) (unat a mod 4 * 16 + unat b div 16) = a"
    "b64_byte2 (unat a mod 4 * 16 + unat b div 16) (unat b mod 16 * 4) = b"
    "b64_byte2 (unat a mod 4 * 16 + unat b div 16) (unat b mod 16 * 4 + unat c div 64) = b"
    "b64_byte3 (unat b mod 16 * 4 + unat c div 64) (unat c mod 64) = c"
    unfolding b64_byte1_def b64_byte2_def b64_byte3_def a b c d by (simp_all del: of_nat_add of_nat_mult)
qed

lemma b64quads_enc: "b64quads (b64enc bs) = Some bs"
  by (induction bs rule: b64enc.induct) (simp_all add: b64_sextets b64_bytes b64_char_plain)

lemma b64enc_no_newlines: "filter (\<lambda>c. c \<noteq> CHR 0x0D \<and> c \<noteq> CHR 0x0A) (b64enc bs) = b64enc bs"
  by (induction bs rule: b64enc.induct) (simp_all add: b64_sextets b64_char_plain)

lemma b64dec_enc [simp]: "b64dec (b64enc bs) = Some bs"
  by (simp add: b64dec_def b64enc_no_newlines b64quads_enc)

lemma setBytes_jBytes [simp]: "setBytes upd (jBytes bs) s = (upd (\<lambda>_. bs) s, None)"
  by (simp add: jBytes_def)

lemma setString_JStr [simp]: "setString upd (JStr v) s = (upd (\<lambda>_. v) s, None)"
  by (simp add: setString_def)

lemma setRaw_simp [simp]: "setRaw upd v s = (upd (\<lambda>_. Some v) s, None)"
  by (simp add: setRaw_def)

lemma findField_exact [simp]: "map_of fs k = Some f \<Longrightarrow> findField fs k = Some (k, f)"
  by (simp add: findField_def)

section \<open>Codecs\<close>

text \<open>
  The contract of a message type on the wire: what \<^verbatim>\<open>json.Marshal\<close> writes for a value that is
  valid for its field types is read back by \<^verbatim>\<open>json.Unmarshal\<close> into a zero value unchanged and
  without an error.
\<close>

locale codec =
  fixes marshal :: "'a \<Rightarrow> json"
    and decode :: "json option \<Rightarrow> 'a \<times> unmarshal_error option"
    and valid :: "'a \<Rightarrow> bool"
  assumes decode_marshal: "valid x \<Longrightarrow> decode (Some (marshal x)) = (x, None)"
begin

lemma marshal_inject: "valid x \<Longrightarrow> valid y \<Longrightarrow> marshal x = marshal y \<longleftrightarrow> x = y"
  using decode_marshal by (metis prod.inject)

lemma decode_stream:
  "list_all valid xs \<Longrightarrow> map (decode \<circ> Some) (map marshal xs) = map (\<lambda>x. (x, None)) xs"
  by (induction xs) (simp_all add: decode_marshal)

end

end
