(* ===== verification/Protocol.thy ===== *)
theory Protocol
  imports JSON
begin

text \<open>
  The package \<^verbatim>\<open>protocol\<close>: the constants and handshake messages of \<^verbatim>\<open>headers.go\<close>, the
  constructors, the envelope and the events of \<^verbatim>\<open>events.go\<close>, and the reading half of
  \<^verbatim>\<open>coder-decoder.go\<close>. Every struct is a record; \<open>fields_X\<close> is its table of JSON keys and
  field types (the struct tags), \<open>marshal_X\<close> and \<open>decode_X\<close> are what \<^verbatim>\<open>json.Marshal\<close> and
  \<^verbatim>\<open>json.Unmarshal\<close> do with it. The last part interprets the contract \<open>codec\<close> for each of
  them. Record fields carry a prefix, since Go's field names repeat across structs.
\<close>

section \<open>Constants (headers.go)\<close>

definition ProtocolName :: string where "ProtocolName = ''GOMQ''"
definition ProtocolVersion :: string where "ProtocolVersion = ''1''"
definition ProtocolHeader :: string where "ProtocolHeader = ProtocolName @ ''/'' @ ProtocolVersion"
definition ServerName :: string where "ServerName = ProtocolName @ ''-Broker''"
definition AuthMechanismPlain :: string where "AuthMechanismPlain = ''plain''"
definition TypeConnectionStart :: string where "TypeConnectionStart = ''connection.start''"
definition TypeConnectionStartOK :: string where "TypeConnectionStartOK = ''connection.start_ok''"
definition TypeConnectionTune :: string where "TypeConnectionTune = ''connection.tune''"
definition TypeConnectionTuneOK :: string where "TypeConnectionTuneOK = ''connection.tune_ok''"
definition TypeConnectionOpen :: string where "TypeConnectionOpen = ''connection.open''"
definition TypeConnectionOpenOK :: string where "TypeConnectionOpenOK = ''connection.open_ok''"

section \<open>Handshake messages (headers.go)\<close>

record Capabilities =
  cap_Heartbeats :: bool

record ConnectionStart =
  cs_Type :: string
  cs_ServerName :: string
  cs_ProtocolVersion :: string
  cs_AuthMechanism :: string
  cs_Capabilities :: Capabilities

text \<open>\<^verbatim>\<open>omitempty\<close> drops a false \<^verbatim>\<open>heartbeats\<close> but never the struct around it.\<close>

definition marshal_ConnectionStart :: "ConnectionStart \<Rightarrow> json" where
  "marshal_ConnectionStart x =
     JObj [(''type'', JStr (cs_Type x)), (''server_name'', JStr (cs_ServerName x)),
           (''protocol_version'', JStr (cs_ProtocolVersion x)),
           (''auth_mechanism'', JStr (cs_AuthMechanism x)),
           (''capabilities'',
              JObj (if cap_Heartbeats (cs_Capabilities x) then [(''heartbeats'', JBool True)] else []))]"

record ConnectionStartOK =
  cso_Type :: string
  cso_ClientName :: string
  cso_AuthMechanism :: string
  cso_Username :: string
  cso_Password :: string

definition zero_ConnectionStartOK :: ConnectionStartOK where
  "zero_ConnectionStartOK = \<lparr>cso_Type = [], cso_ClientName = [], cso_AuthMechanism = [], cso_Username = [], cso_Password = []\<rparr>"

definition fields_ConnectionStartOK :: "ConnectionStartOK fields" where
  "fields_ConnectionStartOK =
     [(''type'', setString cso_Type_update),
      (''client_name'', setString cso_ClientName_update),
      (''auth_mechanism'', setString cso_AuthMechanism_update),
      (''username'', setString cso_Username_update),
      (''password'', setString cso_Password_update)]"

definition marshal_ConnectionStartOK :: "ConnectionStartOK \<Rightarrow> json" where
  "marshal_ConnectionStartOK x =
     JObj ([(''type'', JStr (cso_Type x))] @
       [(''client_name'', JStr (cso_ClientName x))] @
       [(''auth_mechanism'', JStr (cso_AuthMechanism x))] @
       [(''username'', JStr (cso_Username x))] @
       [(''password'', JStr (cso_Password x))])"

definition decode_ConnectionStartOK :: "json option \<Rightarrow> ConnectionStartOK \<times> unmarshal_error option" where
  "decode_ConnectionStartOK j = unmarshal ''ConnectionStartOK'' fields_ConnectionStartOK j zero_ConnectionStartOK"

record ConnectionTune =
  ct_Type :: string
  ct_ChannelMax :: int
  ct_FrameMax :: int
  ct_HeartbeatSec :: int

definition zero_ConnectionTune :: ConnectionTune where
  "zero_ConnectionTune = \<lparr>ct_Type = [], ct_ChannelMax = 0, ct_FrameMax = 0, ct_HeartbeatSec = 0\<rparr>"

definition fields_ConnectionTune :: "ConnectionTune fields" where
  "fields_ConnectionTune =
     [(''type'', setString ct_Type_update),
      (''channel_max'', setInt ct_ChannelMax_update),
      (''frame_max'', setInt ct_FrameMax_update),
      (''heartbeat_sec'', setInt ct_HeartbeatSec_update)]"

definition marshal_ConnectionTune :: "ConnectionTune \<Rightarrow> json" where
  "marshal_ConnectionTune x =
     JObj ([(''type'', JStr (ct_Type x))] @
       [(''channel_max'', jInt (ct_ChannelMax x))] @
       [(''frame_max'', jInt (ct_FrameMax x))] @
       [(''heartbeat_sec'', jInt (ct_HeartbeatSec x))])"

definition decode_ConnectionTune :: "json option \<Rightarrow> ConnectionTune \<times> unmarshal_error option" where
  "decode_ConnectionTune j = unmarshal ''ConnectionTune'' fields_ConnectionTune j zero_ConnectionTune"

record ConnectionTuneOK =
  cto_Type :: string
  cto_ChannelMax :: int
  cto_FrameMax :: int
  cto_HeartbeatSec :: int

definition zero_ConnectionTuneOK :: ConnectionTuneOK where
  "zero_ConnectionTuneOK = \<lparr>cto_Type = [], cto_ChannelMax = 0, cto_FrameMax = 0, cto_HeartbeatSec = 0\<rparr>"

definition fields_ConnectionTuneOK :: "ConnectionTuneOK fields" where
  "fields_ConnectionTuneOK =
     [(''type'', setString cto_Type_update),
      (''channel_max'', setInt cto_ChannelMax_update),
      (''frame_max'', setInt cto_FrameMax_update),
      (''heartbeat_sec'', setInt cto_HeartbeatSec_update)]"

definition marshal_ConnectionTuneOK :: "ConnectionTuneOK \<Rightarrow> json" where
  "marshal_ConnectionTuneOK x =
     JObj ([(''type'', JStr (cto_Type x))] @
       [(''channel_max'', jInt (cto_ChannelMax x))] @
       [(''frame_max'', jInt (cto_FrameMax x))] @
       [(''heartbeat_sec'', jInt (cto_HeartbeatSec x))])"

definition decode_ConnectionTuneOK :: "json option \<Rightarrow> ConnectionTuneOK \<times> unmarshal_error option" where
  "decode_ConnectionTuneOK j = unmarshal ''ConnectionTuneOK'' fields_ConnectionTuneOK j zero_ConnectionTuneOK"

record ConnectionOpen =
  cop_Type :: string

definition zero_ConnectionOpen :: ConnectionOpen where
  "zero_ConnectionOpen = \<lparr>cop_Type = []\<rparr>"

definition fields_ConnectionOpen :: "ConnectionOpen fields" where
  "fields_ConnectionOpen =
     [(''type'', setString cop_Type_update)]"

definition marshal_ConnectionOpen :: "ConnectionOpen \<Rightarrow> json" where
  "marshal_ConnectionOpen x =
     JObj ([(''type'', JStr (cop_Type x))])"

definition decode_ConnectionOpen :: "json option \<Rightarrow> ConnectionOpen \<times> unmarshal_error option" where
  "decode_ConnectionOpen j = unmarshal ''ConnectionOpen'' fields_ConnectionOpen j zero_ConnectionOpen"

record ConnectionOpenOK =
  coo_Type :: string

definition zero_ConnectionOpenOK :: ConnectionOpenOK where
  "zero_ConnectionOpenOK = \<lparr>coo_Type = []\<rparr>"

definition fields_ConnectionOpenOK :: "ConnectionOpenOK fields" where
  "fields_ConnectionOpenOK =
     [(''type'', setString coo_Type_update)]"

definition marshal_ConnectionOpenOK :: "ConnectionOpenOK \<Rightarrow> json" where
  "marshal_ConnectionOpenOK x =
     JObj ([(''type'', JStr (coo_Type x))])"

definition decode_ConnectionOpenOK :: "json option \<Rightarrow> ConnectionOpenOK \<times> unmarshal_error option" where
  "decode_ConnectionOpenOK j = unmarshal ''ConnectionOpenOK'' fields_ConnectionOpenOK j zero_ConnectionOpenOK"

section \<open>Constructors (constructors.go)\<close>

definition NewConnectionStart :: ConnectionStart where
  "NewConnectionStart =
     \<lparr>cs_Type = TypeConnectionStart, cs_ServerName = ServerName,
      cs_ProtocolVersion = ProtocolVersion, cs_AuthMechanism = AuthMechanismPlain,
      cs_Capabilities = \<lparr>cap_Heartbeats = True\<rparr>\<rparr>"

definition NewConnectionStartOK :: "string \<Rightarrow> string \<Rightarrow> string \<Rightarrow> ConnectionStartOK" where
  "NewConnectionStartOK clientname username password =
     \<lparr>cso_Type = TypeConnectionStartOK, cso_ClientName = clientname,
      cso_AuthMechanism = AuthMechanismPlain, cso_Username = username, cso_Password = password\<rparr>"

definition NewConnectionTune :: "int \<Rightarrow> int \<Rightarrow> int \<Rightarrow> ConnectionTune" where
  "NewConnectionTune channelMax frameMax heartbeatSec =
     \<lparr>ct_Type = TypeConnectionTune, ct_ChannelMax = channelMax, ct_FrameMax = frameMax,
      ct_HeartbeatSec = heartbeatSec\<rparr>"

definition NewConnectionTuneOK :: "int \<Rightarrow> int \<Rightarrow> int \<Rightarrow> ConnectionTuneOK" where
  "NewConnectionTuneOK channelMax frameMax heartbeatSec =
     \<lparr>cto_Type = TypeConnectionTuneOK, cto_ChannelMax = channelMax, cto_FrameMax = frameMax,
      cto_HeartbeatSec = heartbeatSec\<rparr>"

definition NewConnectionOpen :: ConnectionOpen where
  "NewConnectionOpen = \<lparr>cop_Type = TypeConnectionOpen\<rparr>"

definition NewConnectionOpenOK :: ConnectionOpenOK where
  "NewConnectionOpenOK = \<lparr>coo_Type = TypeConnectionOpenOK\<rparr>"

section \<open>Methods (events.go)\<close>

definition BasicPublishType :: string where "BasicPublishType = ''basic.publish''"
definition BasicConsumeType :: string where "BasicConsumeType = ''basic.consume''"
definition BasicAckType :: string where "BasicAckType = ''basic.ack''"
definition BasicNackType :: string where "BasicNackType = ''basic.nack''"
definition BasicDeliverType :: string where "BasicDeliverType = ''basic.deliver''"
definition BasicConsumeOKType :: string where "BasicConsumeOKType = ''basic.consume-ok''"
definition ChannelOpenType :: string where "ChannelOpenType = ''channel.open''"
definition ChannelCloseType :: string where "ChannelCloseType = ''channel.close''"
definition ChannelOpenOKType :: string where "ChannelOpenOKType = ''channel.open-ok''"
definition ChannelCloseOKType :: string where "ChannelCloseOKType = ''channel.close-ok''"
definition QueueDeclareType :: string where "QueueDeclareType = ''queue.declare''"
definition ExchangeDeclareType :: string where "ExchangeDeclareType = ''exchange.declare''"
definition QueueBindType :: string where "QueueBindType = ''queue.bind''"
definition QueueDeclareOKType :: string where "QueueDeclareOKType = ''queue.declare-ok''"
definition ExchangeDeclareOKType :: string where "ExchangeDeclareOKType = ''exchange.declare-ok''"
definition QueueBindOKType :: string where "QueueBindOKType = ''queue.bind-ok''"
definition ErrorType :: string where "ErrorType = ''error''"

lemmas method_defs =
  BasicPublishType_def BasicConsumeType_def BasicAckType_def BasicNackType_def BasicDeliverType_def BasicConsumeOKType_def ChannelOpenType_def ChannelCloseType_def ChannelOpenOKType_def ChannelCloseOKType_def QueueDeclareType_def ExchangeDeclareType_def QueueBindType_def QueueDeclareOKType_def ExchangeDeclareOKType_def QueueBindOKType_def ErrorType_def

section \<open>Envelope and events (events.go)\<close>

text \<open>
  \<open>env_Payload\<close> is a \<^verbatim>\<open>json.RawMessage\<close>: \<open>None\<close> is the nil slice (no payload key on the
  wire), which marshals as \<^verbatim>\<open>null\<close>. The struct has no tags, so its keys are the field names.
\<close>

record Envelope =
  env_ChannelID :: u16
  env_RequestID :: u16
  env_Type :: string
  env_Payload :: "json option"

definition zero_Envelope :: Envelope where
  "zero_Envelope = \<lparr>env_ChannelID = 0, env_RequestID = 0, env_Type = [], env_Payload = None\<rparr>"

definition fields_Envelope :: "Envelope fields" where
  "fields_Envelope =
     [(''ChannelID'', setUint16 env_ChannelID_update),
      (''RequestID'', setUint16 env_RequestID_update),
      (''Type'', setNamedString ''protocol.Method'' env_Type_update),
      (''Payload'', setRaw env_Payload_update)]"

definition marshal_Envelope :: "Envelope \<Rightarrow> json" where
  "marshal_Envelope x =
     JObj [(''ChannelID'', jUint16 (env_ChannelID x)), (''RequestID'', jUint16 (env_RequestID x)),
           (''Type'', JStr (env_Type x)),
           (''Payload'', case env_Payload x of None \<Rightarrow> JNull | Some v \<Rightarrow> v)]"

definition decode_Envelope :: "json option \<Rightarrow> Envelope \<times> unmarshal_error option" where
  "decode_Envelope j = unmarshal ''Envelope'' fields_Envelope j zero_Envelope"

record ChannelOpen =
  co_ID :: u16

definition zero_ChannelOpen :: ChannelOpen where
  "zero_ChannelOpen = \<lparr>co_ID = 0\<rparr>"

definition fields_ChannelOpen :: "ChannelOpen fields" where
  "fields_ChannelOpen =
     [(''id'', setUint16 co_ID_update)]"

definition marshal_ChannelOpen :: "ChannelOpen \<Rightarrow> json" where
  "marshal_ChannelOpen x =
     JObj ([(''id'', jUint16 (co_ID x))])"

definition decode_ChannelOpen :: "json option \<Rightarrow> ChannelOpen \<times> unmarshal_error option" where
  "decode_ChannelOpen j = unmarshal ''ChannelOpen'' fields_ChannelOpen j zero_ChannelOpen"

record ChannelClose =
  cc_ID :: u16

definition zero_ChannelClose :: ChannelClose where
  "zero_ChannelClose = \<lparr>cc_ID = 0\<rparr>"

definition fields_ChannelClose :: "ChannelClose fields" where
  "fields_ChannelClose =
     [(''id'', setUint16 cc_ID_update)]"

definition marshal_ChannelClose :: "ChannelClose \<Rightarrow> json" where
  "marshal_ChannelClose x =
     JObj ([(''id'', jUint16 (cc_ID x))])"

definition decode_ChannelClose :: "json option \<Rightarrow> ChannelClose \<times> unmarshal_error option" where
  "decode_ChannelClose j = unmarshal ''ChannelClose'' fields_ChannelClose j zero_ChannelClose"

record ChannelOpenOK =
  cook_ID :: u16

definition zero_ChannelOpenOK :: ChannelOpenOK where
  "zero_ChannelOpenOK = \<lparr>cook_ID = 0\<rparr>"

definition fields_ChannelOpenOK :: "ChannelOpenOK fields" where
  "fields_ChannelOpenOK =
     [(''id'', setUint16 cook_ID_update)]"

definition marshal_ChannelOpenOK :: "ChannelOpenOK \<Rightarrow> json" where
  "marshal_ChannelOpenOK x =
     JObj ([(''id'', jUint16 (cook_ID x))])"

definition decode_ChannelOpenOK :: "json option \<Rightarrow> ChannelOpenOK \<times> unmarshal_error option" where
  "decode_ChannelOpenOK j = unmarshal ''ChannelOpenOK'' fields_ChannelOpenOK j zero_ChannelOpenOK"

record ChannelCloseOK =
  ccok_ID :: u16

definition zero_ChannelCloseOK :: ChannelCloseOK where
  "zero_ChannelCloseOK = \<lparr>ccok_ID = 0\<rparr>"

definition fields_ChannelCloseOK :: "ChannelCloseOK fields" where
  "fields_ChannelCloseOK =
     [(''id'', setUint16 ccok_ID_update)]"

definition marshal_ChannelCloseOK :: "ChannelCloseOK \<Rightarrow> json" where
  "marshal_ChannelCloseOK x =
     JObj ([(''id'', jUint16 (ccok_ID x))])"

definition decode_ChannelCloseOK :: "json option \<Rightarrow> ChannelCloseOK \<times> unmarshal_error option" where
  "decode_ChannelCloseOK j = unmarshal ''ChannelCloseOK'' fields_ChannelCloseOK j zero_ChannelCloseOK"

record Publish =
  pub_Exchange :: string
  pub_RoutingKey :: string
  pub_Body :: "byte list"

definition zero_Publish :: Publish where
  "zero_Publish = \<lparr>pub_Exchange = [], pub_RoutingKey = [], pub_Body = []\<rparr>"

definition fields_Publish :: "Publish fields" where
  "fields_Publish =
     [(''exchange'', setString pub_Exchange_update),
      (''routing_key'', setString pub_RoutingKey_update),
      (''body'', setBytes pub_Body_update)]"

definition marshal_Publish :: "Publish \<Rightarrow> json" where
  "marshal_Publish x =
     JObj ([(''exchange'', JStr (pub_Exchange x))] @
       [(''routing_key'', JStr (pub_RoutingKey x))] @
       [(''body'', jBytes (pub_Body x))])"

definition decode_Publish :: "json option \<Rightarrow> Publish \<times> unmarshal_error option" where
  "decode_Publish j = unmarshal ''Publish'' fields_Publish j zero_Publish"

record Consume =
  con_Queue :: string
  con_ConsumerTag :: string

definition zero_Consume :: Consume where
  "zero_Consume = \<lparr>con_Queue = [], con_ConsumerTag = []\<rparr>"

definition fields_Consume :: "Consume fields" where
  "fields_Consume =
     [(''queue'', setString con_Queue_update),
      (''consumer_tag'', setString con_ConsumerTag_update)]"

definition marshal_Consume :: "Consume \<Rightarrow> json" where
  "marshal_Consume x =
     JObj ([(''queue'', JStr (con_Queue x))] @
       [(''consumer_tag'', JStr (con_ConsumerTag x))])"

definition decode_Consume :: "json option \<Rightarrow> Consume \<times> unmarshal_error option" where
  "decode_Consume j = unmarshal ''Consume'' fields_Consume j zero_Consume"

record ConsumeOK =
  conok_ConsumerTag :: string

definition zero_ConsumeOK :: ConsumeOK where
  "zero_ConsumeOK = \<lparr>conok_ConsumerTag = []\<rparr>"

definition fields_ConsumeOK :: "ConsumeOK fields" where
  "fields_ConsumeOK =
     [(''consumer_tag'', setString conok_ConsumerTag_update)]"

definition marshal_ConsumeOK :: "ConsumeOK \<Rightarrow> json" where
  "marshal_ConsumeOK x =
     JObj ([(''consumer_tag'', JStr (conok_ConsumerTag x))])"

definition decode_ConsumeOK :: "json option \<Rightarrow> ConsumeOK \<times> unmarshal_error option" where
  "decode_ConsumeOK j = unmarshal ''ConsumeOK'' fields_ConsumeOK j zero_ConsumeOK"

record Ack =
  ack_DeliveryTag :: u16

definition zero_Ack :: Ack where
  "zero_Ack = \<lparr>ack_DeliveryTag = 0\<rparr>"

definition fields_Ack :: "Ack fields" where
  "fields_Ack =
     [(''delivery_tag'', setUint16 ack_DeliveryTag_update)]"

definition marshal_Ack :: "Ack \<Rightarrow> json" where
  "marshal_Ack x =
     JObj ([(''delivery_tag'', jUint16 (ack_DeliveryTag x))])"

definition decode_Ack :: "json option \<Rightarrow> Ack \<times> unmarshal_error option" where
  "decode_Ack j = unmarshal ''Ack'' fields_Ack j zero_Ack"

record Nack =
  nack_DeliveryTag :: u16
  nack_Requeue :: "bool option"

definition zero_Nack :: Nack where
  "zero_Nack = \<lparr>nack_DeliveryTag = 0, nack_Requeue = None\<rparr>"

definition fields_Nack :: "Nack fields" where
  "fields_Nack =
     [(''delivery_tag'', setUint16 nack_DeliveryTag_update),
      (''requeue'', setBoolPtr nack_Requeue_update)]"

definition marshal_Nack :: "Nack \<Rightarrow> json" where
  "marshal_Nack x =
     JObj ([(''delivery_tag'', jUint16 (nack_DeliveryTag x))] @
       (case nack_Requeue x of None \<Rightarrow> [] | Some b \<Rightarrow> [(''requeue'', JBool b)]))"

definition decode_Nack :: "json option \<Rightarrow> Nack \<times> unmarshal_error option" where
  "decode_Nack j = unmarshal ''Nack'' fields_Nack j zero_Nack"

record Deliver =
  del_DeliveryTag :: u16
  del_Body :: "byte list"
  del_Exchange :: string
  del_RoutingKey :: string
  del_ConsumerTag :: string

definition zero_Deliver :: Deliver where
  "zero_Deliver = \<lparr>del_DeliveryTag = 0, del_Body = [], del_Exchange = [], del_RoutingKey = [], del_ConsumerTag = []\<rparr>"

definition fields_Deliver :: "Deliver fields" where
  "fields_Deliver =
     [(''delivery_tag'', setUint16 del_DeliveryTag_update),
      (''body'', setBytes del_Body_update),
      (''exchange'', setString del_Exchange_update),
      (''routing_key'', setString del_RoutingKey_update),
      (''consumer_tag'', setString del_ConsumerTag_update)]"

definition marshal_Deliver :: "Deliver \<Rightarrow> json" where
  "marshal_Deliver x =
     JObj ([(''delivery_tag'', jUint16 (del_DeliveryTag x))] @
       [(''body'', jBytes (del_Body x))] @
       [(''exchange'', JStr (del_Exchange x))] @
       [(''routing_key'', JStr (del_RoutingKey x))] @
       omitEmpty ''consumer_tag'' (del_ConsumerTag x))"

definition decode_Deliver :: "json option \<Rightarrow> Deliver \<times> unmarshal_error option" where
  "decode_Deliver j = unmarshal ''Deliver'' fields_Deliver j zero_Deliver"

record QueueDeclare =
  qd_Name :: string
  qd_DeadLetterExchange :: string
  qd_DeadLetterRoutingKey :: string

definition zero_QueueDeclare :: QueueDeclare where
  "zero_QueueDeclare = \<lparr>qd_Name = [], qd_DeadLetterExchange = [], qd_DeadLetterRoutingKey = []\<rparr>"

definition fields_QueueDeclare :: "QueueDeclare fields" where
  "fields_QueueDeclare =
     [(''name'', setString qd_Name_update),
      (''dead_letter_exchange'', setString qd_DeadLetterExchange_update),
      (''dead_letter_routing_key'', setString qd_DeadLetterRoutingKey_update)]"

definition marshal_QueueDeclare :: "QueueDeclare \<Rightarrow> json" where
  "marshal_QueueDeclare x =
     JObj ([(''name'', JStr (qd_Name x))] @
       omitEmpty ''dead_letter_exchange'' (qd_DeadLetterExchange x) @
       omitEmpty ''dead_letter_routing_key'' (qd_DeadLetterRoutingKey x))"

definition decode_QueueDeclare :: "json option \<Rightarrow> QueueDeclare \<times> unmarshal_error option" where
  "decode_QueueDeclare j = unmarshal ''QueueDeclare'' fields_QueueDeclare j zero_QueueDeclare"

record QueueDeclareOK =
  qdok_Name :: string

definition zero_QueueDeclareOK :: QueueDeclareOK where
  "zero_QueueDeclareOK = \<lparr>qdok_Name = []\<rparr>"

definition fields_QueueDeclareOK :: "QueueDeclareOK fields" where
  "fields_QueueDeclareOK =
     [(''name'', setString qdok_Name_update)]"

definition marshal_QueueDeclareOK :: "QueueDeclareOK \<Rightarrow> json" where
  "marshal_QueueDeclareOK x =
     JObj ([(''name'', JStr (qdok_Name x))])"

definition decode_QueueDeclareOK :: "json option \<Rightarrow> QueueDeclareOK \<times> unmarshal_error option" where
  "decode_QueueDeclareOK j = unmarshal ''QueueDeclareOK'' fields_QueueDeclareOK j zero_QueueDeclareOK"

record ExchangeDeclare =
  ed_Name :: string

definition zero_ExchangeDeclare :: ExchangeDeclare where
  "zero_ExchangeDeclare = \<lparr>ed_Name = []\<rparr>"

definition fields_ExchangeDeclare :: "ExchangeDeclare fields" where
  "fields_ExchangeDeclare =
     [(''name'', setString ed_Name_update)]"

definition marshal_ExchangeDeclare :: "ExchangeDeclare \<Rightarrow> json" where
  "marshal_ExchangeDeclare x =
     JObj ([(''name'', JStr (ed_Name x))])"

definition decode_ExchangeDeclare :: "json option \<Rightarrow> ExchangeDeclare \<times> unmarshal_error option" where
  "decode_ExchangeDeclare j = unmarshal ''ExchangeDeclare'' fields_ExchangeDeclare j zero_ExchangeDeclare"

record ExchangeDeclareOK =
  edok_Name :: string

definition zero_ExchangeDeclareOK :: ExchangeDeclareOK where
  "zero_ExchangeDeclareOK = \<lparr>edok_Name = []\<rparr>"

definition fields_ExchangeDeclareOK :: "ExchangeDeclareOK fields" where
  "fields_ExchangeDeclareOK =
     [(''name'', setString edok_Name_update)]"

definition marshal_ExchangeDeclareOK :: "ExchangeDeclareOK \<Rightarrow> json" where
  "marshal_ExchangeDeclareOK x =
     JObj ([(''name'', JStr (edok_Name x))])"

definition decode_ExchangeDeclareOK :: "json option \<Rightarrow> ExchangeDeclareOK \<times> unmarshal_error option" where
  "decode_ExchangeDeclareOK j = unmarshal ''ExchangeDeclareOK'' fields_ExchangeDeclareOK j zero_ExchangeDeclareOK"

record QueueBind =
  qb_Queue :: string
  qb_Exchange :: string
  qb_RoutingKey :: string

definition zero_QueueBind :: QueueBind where
  "zero_QueueBind = \<lparr>qb_Queue = [], qb_Exchange = [], qb_RoutingKey = []\<rparr>"

definition fields_QueueBind :: "QueueBind fields" where
  "fields_QueueBind =
     [(''queue'', setString qb_Queue_update),
      (''exchange'', setString qb_Exchange_update),
      (''routing_key'', setString qb_RoutingKey_update)]"

definition marshal_QueueBind :: "QueueBind \<Rightarrow> json" where
  "marshal_QueueBind x =
     JObj ([(''queue'', JStr (qb_Queue x))] @
       [(''exchange'', JStr (qb_Exchange x))] @
       [(''routing_key'', JStr (qb_RoutingKey x))])"

definition decode_QueueBind :: "json option \<Rightarrow> QueueBind \<times> unmarshal_error option" where
  "decode_QueueBind j = unmarshal ''QueueBind'' fields_QueueBind j zero_QueueBind"

record ErrorMsg =
  err_Code :: string
  err_Message :: string

definition zero_ErrorMsg :: ErrorMsg where
  "zero_ErrorMsg = \<lparr>err_Code = [], err_Message = []\<rparr>"

definition fields_ErrorMsg :: "ErrorMsg fields" where
  "fields_ErrorMsg =
     [(''code'', setString err_Code_update),
      (''message'', setString err_Message_update)]"

definition marshal_ErrorMsg :: "ErrorMsg \<Rightarrow> json" where
  "marshal_ErrorMsg x =
     JObj ([(''code'', JStr (err_Code x))] @
       [(''message'', JStr (err_Message x))])"

definition decode_ErrorMsg :: "json option \<Rightarrow> ErrorMsg \<times> unmarshal_error option" where
  "decode_ErrorMsg j = unmarshal ''Error'' fields_ErrorMsg j zero_ErrorMsg"

text \<open>\<^verbatim>\<open>QueueBindOK\<close> has no fields.\<close>

definition marshal_QueueBindOK :: json where
  "marshal_QueueBindOK = JObj []"

section \<open>Reading lines (coder-decoder.go)\<close>

text \<open>
  The input of a connection is the list of lines still to be read; a line is the text of a JSON
  value or some other text. The end of the list is the end of the stream, where
  \<^verbatim>\<open>ReadBytes('\n')\<close> and \<^verbatim>\<open>ReadString('\n')\<close> return an error.
\<close>

datatype line = JsonLine json | TextLine string

datatype read_error = ReadEOF | ReadSyntax string | ReadDecode unmarshal_error | NotProtocolHeader line

fun unmarshalLine :: "(json option \<Rightarrow> 'a \<times> unmarshal_error option) \<Rightarrow> line \<Rightarrow> 'a \<times> read_error option" where
  "unmarshalLine decode (JsonLine j) = (case decode (Some j) of (x, e) \<Rightarrow> (x, map_option ReadDecode e))"
| "unmarshalLine decode (TextLine t) = (fst (decode None), Some (ReadSyntax t))"

text \<open>\<^verbatim>\<open>ReadMessage\<close>: the value read (as far as it was filled in), the error, the rest of the input.\<close>

fun ReadMessage :: "(json option \<Rightarrow> 'a \<times> unmarshal_error option) \<Rightarrow> line list \<Rightarrow>
    ('a \<times> read_error option) \<times> line list" where
  "ReadMessage decode [] = ((fst (decode None), Some ReadEOF), [])"
| "ReadMessage decode (l # r) = (unmarshalLine decode l, r)"

definition ReadEnvelope :: "line list \<Rightarrow> (Envelope \<times> read_error option) \<times> line list" where
  "ReadEnvelope r = ReadMessage decode_Envelope r"

text \<open>
  \<^verbatim>\<open>ReadProtocolHeader\<close> returns nil, not the error, when the read itself fails.
\<close>

fun ReadProtocolHeader :: "line list \<Rightarrow> read_error option \<times> line list" where
  "ReadProtocolHeader [] = (None, [])"
| "ReadProtocolHeader (l # r) =
     (if l \<noteq> TextLine ProtocolHeader then (Some (NotProtocolHeader l), r) else (None, r))"

section \<open>The codec contract of every message\<close>

definition int64 :: "int \<Rightarrow> bool" where
  "int64 n \<longleftrightarrow> - (2 ^ 63) \<le> n \<and> n < 2 ^ 63"

lemmas codec_simps = unmarshal_def omitEmpty_def setInt_jInt int64_def

interpretation envelope: codec marshal_Envelope decode_Envelope "\<lambda>x. env_Payload x \<noteq> None"
  by unfold_locales (auto simp: codec_simps marshal_Envelope_def decode_Envelope_def fields_Envelope_def zero_Envelope_def)

interpretation channelOpen: codec marshal_ChannelOpen decode_ChannelOpen "\<lambda>_. True"
  by unfold_locales (auto simp: codec_simps marshal_ChannelOpen_def decode_ChannelOpen_def fields_ChannelOpen_def zero_ChannelOpen_def split: option.split)

interpretation channelClose: codec marshal_ChannelClose decode_ChannelClose "\<lambda>_. True"
  by unfold_locales (auto simp: codec_simps marshal_ChannelClose_def decode_ChannelClose_def fields_ChannelClose_def zero_ChannelClose_def split: option.split)

interpretation channelOpenOK: codec marshal_ChannelOpenOK decode_ChannelOpenOK "\<lambda>_. True"
  by unfold_locales (auto simp: codec_simps marshal_ChannelOpenOK_def decode_ChannelOpenOK_def fields_ChannelOpenOK_def zero_ChannelOpenOK_def split: option.split)

interpretation channelCloseOK: codec marshal_ChannelCloseOK decode_ChannelCloseOK "\<lambda>_. True"
  by unfold_locales (auto simp: codec_simps marshal_ChannelCloseOK_def decode_ChannelCloseOK_def fields_ChannelCloseOK_def zero_ChannelCloseOK_def split: option.split)

interpretation publish: codec marshal_Publish decode_Publish "\<lambda>_. True"
  by unfold_locales (auto simp: codec_simps marshal_Publish_def decode_Publish_def fields_Publish_def zero_Publish_def split: option.split)

interpretation consume: codec marshal_Consume decode_Consume "\<lambda>_. True"
  by unfold_locales (auto simp: codec_simps marshal_Consume_def decode_Consume_def fields_Consume_def zero_Consume_def split: option.split)

interpretation consumeOK: codec marshal_ConsumeOK decode_ConsumeOK "\<lambda>_. True"
  by unfold_locales (auto simp: codec_simps marshal_ConsumeOK_def decode_ConsumeOK_def fields_ConsumeOK_def zero_ConsumeOK_def split: option.split)

interpretation ack: codec marshal_Ack decode_Ack "\<lambda>_. True"
  by unfold_locales (auto simp: codec_simps marshal_Ack_def decode_Ack_def fields_Ack_def zero_Ack_def split: option.split)

interpretation nack: codec marshal_Nack decode_Nack "\<lambda>_. True"
  by unfold_locales (auto simp: codec_simps marshal_Nack_def decode_Nack_def fields_Nack_def zero_Nack_def split: option.split)

interpretation deliver: codec marshal_Deliver decode_Deliver "\<lambda>_. True"
  by unfold_locales (auto simp: codec_simps marshal_Deliver_def decode_Deliver_def fields_Deliver_def zero_Deliver_def split: option.split)

interpretation queueDeclare: codec marshal_QueueDeclare decode_QueueDeclare "\<lambda>_. True"
  by unfold_locales (auto simp: codec_simps marshal_QueueDeclare_def decode_QueueDeclare_def fields_QueueDeclare_def zero_QueueDeclare_def split: option.split)

interpretation queueDeclareOK: codec marshal_QueueDeclareOK decode_QueueDeclareOK "\<lambda>_. True"
  by unfold_locales (auto simp: codec_simps marshal_QueueDeclareOK_def decode_QueueDeclareOK_def fields_QueueDeclareOK_def zero_QueueDeclareOK_def split: option.split)

interpretation exchangeDeclare: codec marshal_ExchangeDeclare decode_ExchangeDeclare "\<lambda>_. True"
  by unfold_locales (auto simp: codec_simps marshal_ExchangeDeclare_def decode_ExchangeDeclare_def fields_ExchangeDeclare_def zero_ExchangeDeclare_def split: option.split)

interpretation exchangeDeclareOK: codec marshal_ExchangeDeclareOK decode_ExchangeDeclareOK "\<lambda>_. True"
  by unfold_locales (auto simp: codec_simps marshal_ExchangeDeclareOK_def decode_ExchangeDeclareOK_def fields_ExchangeDeclareOK_def zero_ExchangeDeclareOK_def split: option.split)

interpretation queueBind: codec marshal_QueueBind decode_QueueBind "\<lambda>_. True"
  by unfold_locales (auto simp: codec_simps marshal_QueueBind_def decode_QueueBind_def fields_QueueBind_def zero_QueueBind_def split: option.split)

interpretation errorMsg: codec marshal_ErrorMsg decode_ErrorMsg "\<lambda>_. True"
  by unfold_locales (auto simp: codec_simps marshal_ErrorMsg_def decode_ErrorMsg_def fields_ErrorMsg_def zero_ErrorMsg_def split: option.split)

interpretation connectionStartOK: codec marshal_ConnectionStartOK decode_ConnectionStartOK "\<lambda>_. True"
  by unfold_locales (auto simp: codec_simps marshal_ConnectionStartOK_def decode_ConnectionStartOK_def fields_ConnectionStartOK_def zero_ConnectionStartOK_def split: option.split)

interpretation connectionTune: codec marshal_ConnectionTune decode_ConnectionTune "\<lambda>x. int64 (ct_ChannelMax x) \<and> int64 (ct_FrameMax x) \<and> int64 (ct_HeartbeatSec x)"
  by unfold_locales (auto simp: codec_simps marshal_ConnectionTune_def decode_ConnectionTune_def fields_ConnectionTune_def zero_ConnectionTune_def split: option.split)

interpretation connectionTuneOK: codec marshal_ConnectionTuneOK decode_ConnectionTuneOK "\<lambda>x. int64 (cto_ChannelMax x) \<and> int64 (cto_FrameMax x) \<and> int64 (cto_HeartbeatSec x)"
  by unfold_locales (auto simp: codec_simps marshal_ConnectionTuneOK_def decode_ConnectionTuneOK_def fields_ConnectionTuneOK_def zero_ConnectionTuneOK_def split: option.split)

interpretation connectionOpen: codec marshal_ConnectionOpen decode_ConnectionOpen "\<lambda>_. True"
  by unfold_locales (auto simp: codec_simps marshal_ConnectionOpen_def decode_ConnectionOpen_def fields_ConnectionOpen_def zero_ConnectionOpen_def split: option.split)

interpretation connectionOpenOK: codec marshal_ConnectionOpenOK decode_ConnectionOpenOK "\<lambda>_. True"
  by unfold_locales (auto simp: codec_simps marshal_ConnectionOpenOK_def decode_ConnectionOpenOK_def fields_ConnectionOpenOK_def zero_ConnectionOpenOK_def split: option.split)

lemmas decode_marshal_all = envelope.decode_marshal connectionTune.decode_marshal connectionTuneOK.decode_marshal
  channelOpen.decode_marshal channelClose.decode_marshal channelOpenOK.decode_marshal channelCloseOK.decode_marshal
  publish.decode_marshal consume.decode_marshal consumeOK.decode_marshal ack.decode_marshal
  nack.decode_marshal deliver.decode_marshal queueDeclare.decode_marshal queueDeclareOK.decode_marshal
  exchangeDeclare.decode_marshal exchangeDeclareOK.decode_marshal queueBind.decode_marshal errorMsg.decode_marshal
  connectionStartOK.decode_marshal connectionOpen.decode_marshal connectionOpenOK.decode_marshal

text \<open>
  Messages read back as they were sent: for the envelope around any payload, the requests and replies of an
  open connection and the client's half of the handshake, decoding what encoding wrote gives the same value and no error.
  (The two tuning messages carry signed integers and read back within 64 bits: \<open>connectionTune\<close>, \<open>connectionTuneOK\<close>.)
\<close>

lemma wire_roundtrip:
  "decode_Envelope (Some (marshal_Envelope \<lparr>env_ChannelID = ch, env_RequestID = rq, env_Type = ty, env_Payload = Some x\<rparr>)) =
       (\<lparr>env_ChannelID = ch, env_RequestID = rq, env_Type = ty, env_Payload = Some x\<rparr>, None) \<and>
     decode_ChannelOpen (Some (marshal_ChannelOpen chOpen)) = (chOpen, None) \<and>
     decode_ChannelClose (Some (marshal_ChannelClose chClose)) = (chClose, None) \<and>
     decode_ChannelOpenOK (Some (marshal_ChannelOpenOK chOpenOK)) = (chOpenOK, None) \<and>
     decode_ChannelCloseOK (Some (marshal_ChannelCloseOK chCloseOK)) = (chCloseOK, None) \<and>
     decode_Publish (Some (marshal_Publish pub)) = (pub, None) \<and>
     decode_Consume (Some (marshal_Consume con)) = (con, None) \<and>
     decode_ConsumeOK (Some (marshal_ConsumeOK conOK)) = (conOK, None) \<and>
     decode_Ack (Some (marshal_Ack ak)) = (ak, None) \<and>
     decode_Nack (Some (marshal_Nack nk)) = (nk, None) \<and>
     decode_Deliver (Some (marshal_Deliver dl)) = (dl, None) \<and>
     decode_QueueDeclare (Some (marshal_QueueDeclare qDecl)) = (qDecl, None) \<and>
     decode_QueueDeclareOK (Some (marshal_QueueDeclareOK qDeclOK)) = (qDeclOK, None) \<and>
     decode_ExchangeDeclare (Some (marshal_ExchangeDeclare eDecl)) = (eDecl, None) \<and>
     decode_ExchangeDeclareOK (Some (marshal_ExchangeDeclareOK eDeclOK)) = (eDeclOK, None) \<and>
     decode_QueueBind (Some (marshal_QueueBind qBind)) = (qBind, None) \<and>
     decode_ErrorMsg (Some (marshal_ErrorMsg errm)) = (errm, None) \<and>
     decode_ConnectionStartOK (Some (marshal_ConnectionStartOK startOK)) = (startOK, None) \<and>
     decode_ConnectionOpen (Some (marshal_ConnectionOpen opn)) = (opn, None) \<and>
     decode_ConnectionOpenOK (Some (marshal_ConnectionOpenOK opnOK)) = (opnOK, None)"
  by (intro conjI decode_marshal_all) simp_all

end
