(* ===== verification/BrokerState.thy ===== *)
theory BrokerState
  imports Protocol
begin

text \<open>
  The data of the package \<^verbatim>\<open>broker\<close>: its structs as records and the memory they live in.

  The code links its objects by pointers (an exchange binding points to a queue, a queue to its
  consumers, a consumer to its queue and its channel, a channel to its connection), and the same
  object is reached along several paths, so memory is explicit: one store per struct type, indexed
  by address, and a counter of the addresses handed out. \<open>world\<close> is everything one server process
  holds. Mutexes and condition variables carry no data and have no field; the theory
  \<open>QueueConcurrency\<close> treats the locking. Fields that no code reads or writes
  (\<^verbatim>\<open>Consumer.ch\<close>, the negotiated values of \<^verbatim>\<open>Connection\<close>) are left out.

  Orders of map iteration come from an explicit argument, \<open>orders\<close>.
\<close>

section \<open>Structs\<close>

type_synonym qref = nat
type_synonym eref = nat
type_synonym cref = nat
type_synonym chref = nat
type_synonym connref = nat

record Message =
  m_DeliveryTag :: u16
  m_Body :: "byte list"
  m_Exchange :: string
  m_RoutingKey :: string

record Consumer =
  c_tag :: string
  c_queue :: qref
  c_channel :: chref
  c_prefetch :: int
  c_inflight :: int
  c_inflightTags :: "(u16, unit) gomap"
  c_pendingMessages :: "(u16, Message) gomap"

record Queue =
  q_name :: string
  q_messages :: "Message list"
  q_consumers :: "(cref, unit) gomap"
  q_nextTag :: u16
  q_dlx :: string
  q_dlxRoutingKey :: string

record Exchange =
  e_name :: string
  e_bindings :: "(string, (string, qref) gomap) gomap"

record Channel =
  ch_id :: u16
  ch_conn :: connref
  ch_consumers :: "(string, cref) gomap"

datatype ConnectionState =
  StateAwaitProtocolHeader | StateAwaitStartOK | StateAwaitTuneOK | StateAwaitOpen
  | StateOpen | StateClosed

text \<open>
  \<open>cn_in\<close> is what the client has sent and the server not yet read, \<open>cn_out\<close> what the server has
  written, \<open>cn_netok\<close> whether the socket still takes writes.
\<close>

record Connection =
  cn_in :: "line list"
  cn_out :: "json list"
  cn_netok :: bool
  cn_channels :: "(u16, chref) gomap"
  cn_state :: ConnectionState
  cn_closed :: bool

record ServerConfig =
  sc_ChannelMax :: int
  sc_FramesMax :: int
  sc_HeartbeatSec :: int

section \<open>Metrics (metrics.go)\<close>

text \<open>
  A counter is a number, a counter vector a function of its label values.
\<close>

record Metrics =
  mt_Published :: "string \<Rightarrow> nat"
  mt_PublishUnroutable :: "string \<Rightarrow> nat"
  mt_PublishErrors :: nat
  mt_Enqueued :: "string \<Rightarrow> nat"
  mt_Delivered :: "string \<Rightarrow> nat"
  mt_DeliverErrors :: "string \<Rightarrow> nat"
  mt_Acked :: "string \<Rightarrow> nat"
  mt_Nacked :: "string \<Rightarrow> bool \<Rightarrow> nat"
  mt_DeadLettered :: "string \<Rightarrow> nat"
  mt_Dropped :: "string \<Rightarrow> nat"
  mt_ConnectionsOpened :: nat
  mt_ConnectionsClosed :: nat
  mt_HandshakeFailures :: nat
  mt_ConsumersRegistered :: "string \<Rightarrow> nat"
  mt_ConsumersUnregistered :: "string \<Rightarrow> nat"

definition NewMetrics :: Metrics where
  "NewMetrics =
     \<lparr>mt_Published = (\<lambda>_. 0), mt_PublishUnroutable = (\<lambda>_. 0), mt_PublishErrors = 0,
      mt_Enqueued = (\<lambda>_. 0), mt_Delivered = (\<lambda>_. 0), mt_DeliverErrors = (\<lambda>_. 0),
      mt_Acked = (\<lambda>_. 0), mt_Nacked = (\<lambda>_ _. 0), mt_DeadLettered = (\<lambda>_. 0), mt_Dropped = (\<lambda>_. 0),
      mt_ConnectionsOpened = 0, mt_ConnectionsClosed = 0, mt_HandshakeFailures = 0,
      mt_ConsumersRegistered = (\<lambda>_. 0), mt_ConsumersUnregistered = (\<lambda>_. 0)\<rparr>"

text \<open>\<^verbatim>\<open>Inc()\<close> on one label value of a counter vector.\<close>

definition inc :: "'l \<Rightarrow> ('l \<Rightarrow> nat) \<Rightarrow> 'l \<Rightarrow> nat" where
  "inc l v = v(l := Suc (v l))"

lemma inc_apply [simp]: "inc l v l' = (if l' = l then Suc (v l) else v l')"
  by (simp add: inc_def)

section \<open>The store\<close>

record world =
  w_q :: "qref \<Rightarrow> Queue"
  w_nq :: nat
  w_e :: "eref \<Rightarrow> Exchange"
  w_ne :: nat
  w_c :: "cref \<Rightarrow> Consumer"
  w_nc :: nat
  w_ch :: "chref \<Rightarrow> Channel"
  w_nch :: nat
  w_cn :: "connref \<Rightarrow> Connection"
  w_ncn :: nat
  w_queues :: "(string, qref) gomap"
  w_exchanges :: "(string, eref) gomap"
  w_metrics :: Metrics
  w_connections :: "(connref, unit) gomap"
  w_config :: ServerConfig

definition upd_q :: "qref \<Rightarrow> (Queue \<Rightarrow> Queue) \<Rightarrow> world \<Rightarrow> world" where
  "upd_q r f w = w\<lparr>w_q := (w_q w)(r := f (w_q w r))\<rparr>"

definition upd_e :: "eref \<Rightarrow> (Exchange \<Rightarrow> Exchange) \<Rightarrow> world \<Rightarrow> world" where
  "upd_e r f w = w\<lparr>w_e := (w_e w)(r := f (w_e w r))\<rparr>"

definition upd_c :: "cref \<Rightarrow> (Consumer \<Rightarrow> Consumer) \<Rightarrow> world \<Rightarrow> world" where
  "upd_c r f w = w\<lparr>w_c := (w_c w)(r := f (w_c w r))\<rparr>"

definition upd_ch :: "chref \<Rightarrow> (Channel \<Rightarrow> Channel) \<Rightarrow> world \<Rightarrow> world" where
  "upd_ch r f w = w\<lparr>w_ch := (w_ch w)(r := f (w_ch w r))\<rparr>"

definition upd_cn :: "connref \<Rightarrow> (Connection \<Rightarrow> Connection) \<Rightarrow> world \<Rightarrow> world" where
  "upd_cn r f w = w\<lparr>w_cn := (w_cn w)(r := f (w_cn w r))\<rparr>"

definition upd_m :: "(Metrics \<Rightarrow> Metrics) \<Rightarrow> world \<Rightarrow> world" where
  "upd_m f w = w\<lparr>w_metrics := f (w_metrics w)\<rparr>"

lemmas world_upds = upd_q_def upd_e_def upd_c_def upd_ch_def upd_cn_def upd_m_def

declare world_upds [simp]

text \<open>A normal form for updates of several stores.\<close>

lemma world_norm:
  "w\<lparr>w_c := cs, w_q := qs\<rparr> = w\<lparr>w_q := qs, w_c := cs\<rparr>"
  "w\<lparr>w_metrics := m, w_q := qs\<rparr> = w\<lparr>w_q := qs, w_metrics := m\<rparr>"
  "w\<lparr>w_metrics := m, w_c := cs\<rparr> = w\<lparr>w_c := cs, w_metrics := m\<rparr>"
  "w\<lparr>w_metrics := m, w_ch := chs\<rparr> = w\<lparr>w_ch := chs, w_metrics := m\<rparr>"
  by simp_all

section \<open>Iteration orders\<close>

text \<open>
  One field per map that the code ranges over, indexed by the address of the object that holds the
  map: given the keys, the order in which this run visits them.
\<close>

record orders =
  o_bindings :: "eref \<Rightarrow> string list \<Rightarrow> string list"
  o_consumers :: "qref \<Rightarrow> cref list \<Rightarrow> cref list"
  o_pending :: "cref \<Rightarrow> u16 list \<Rightarrow> u16 list"
  o_tags :: "chref \<Rightarrow> string list \<Rightarrow> string list"
  o_channels :: "connref \<Rightarrow> u16 list \<Rightarrow> u16 list"

definition orders_ok :: "orders \<Rightarrow> bool" where
  "orders_ok \<pi> \<longleftrightarrow>
     (\<forall>r ks. mset (o_bindings \<pi> r ks) = mset ks) \<and>
     (\<forall>r ks. mset (o_consumers \<pi> r ks) = mset ks) \<and>
     (\<forall>r ks. mset (o_pending \<pi> r ks) = mset ks) \<and>
     (\<forall>r ks. mset (o_tags \<pi> r ks) = mset ks) \<and>
     (\<forall>r ks. mset (o_channels \<pi> r ks) = mset ks)"

definition id_orders :: orders where
  "id_orders = \<lparr>o_bindings = (\<lambda>_ ks. ks), o_consumers = (\<lambda>_ ks. ks), o_pending = (\<lambda>_ ks. ks),
     o_tags = (\<lambda>_ ks. ks), o_channels = (\<lambda>_ ks. ks)\<rparr>"

definition rev_orders :: orders where
  "rev_orders = \<lparr>o_bindings = (\<lambda>_. rev), o_consumers = (\<lambda>_. rev), o_pending = (\<lambda>_. rev),
     o_tags = (\<lambda>_. rev), o_channels = (\<lambda>_. rev)\<rparr>"

lemma orders_ok_id [simp]: "orders_ok id_orders"
  by (simp add: orders_ok_def id_orders_def)

lemma orders_ok_rev [simp]: "orders_ok rev_orders"
  by (simp add: orders_ok_def rev_orders_def)

lemma orders_range:
  assumes "orders_ok \<pi>"
  shows "range_of (o_bindings \<pi> r (gm_keys m1)) m1"
    "range_of (o_consumers \<pi> r (gm_keys m2)) m2"
    "range_of (o_pending \<pi> r (gm_keys m3)) m3"
    "range_of (o_tags \<pi> r (gm_keys m4)) m4"
    "range_of (o_channels \<pi> r (gm_keys m5)) m5"
  using assms by (simp_all add: orders_ok_def range_of_def)

lemma orders_set:
  assumes "orders_ok \<pi>"
  shows "set (o_bindings \<pi> r ks1) = set ks1"
    "set (o_consumers \<pi> r ks2) = set ks2"
    "set (o_pending \<pi> r ks3) = set ks3"
    "set (o_tags \<pi> r ks4) = set ks4"
    "set (o_channels \<pi> r ks5) = set ks5"
  using assms by (auto simp: orders_ok_def intro!: mset_eq_setD)

section \<open>Text of errors\<close>

text \<open>
  \<^verbatim>\<open>strconv.Quote\<close>, the \<^verbatim>\<open>%q\<close> verb. Bytes from 128 on are kept as they are, which is what
  Go does with printable UTF-8.
\<close>

definition quoteChar :: "char \<Rightarrow> string" where
  "quoteChar c =
     (let n = of_char c :: nat; bs = CHR 0x5C in
      if n = 34 \<or> n = 92 then [bs, c]
      else if n = 7 then [bs, CHR ''a''] else if n = 8 then [bs, CHR ''b'']
      else if n = 9 then [bs, CHR ''t''] else if n = 10 then [bs, CHR ''n'']
      else if n = 11 then [bs, CHR ''v''] else if n = 12 then [bs, CHR ''f'']
      else if n = 13 then [bs, CHR ''r'']
      else if n < 32 \<or> n = 127 then [bs, CHR ''x'', digit_char (n div 16), digit_char (n mod 16)]
      else [c])"

definition quote :: "string \<Rightarrow> string" where
  "quote s = [CHR 0x22] @ concat (map quoteChar s) @ [CHR 0x22]"

section \<open>Writing to a connection (connection.go)\<close>

text \<open>
  \<^verbatim>\<open>send\<close> hands a line to the write pump and waits for its answer. Seen from the caller, with
  the pump run to completion: a closed connection refuses; otherwise the line is written, or the
  socket fails and the pump shuts the connection down on its way out. (The pump as a goroutine of
  its own is the subject of the theory \<open>WritePump\<close>.)
\<close>

definition shutdown :: "connref \<Rightarrow> world \<Rightarrow> world" where
  "shutdown cn w = upd_cn cn (\<lambda>C. C\<lparr>cn_closed := True\<rparr>) w"

definition send :: "connref \<Rightarrow> json \<Rightarrow> world \<Rightarrow> string option \<times> world" where
  "send cn data w =
     (if cn_closed (w_cn w cn) then (Some ''connection closed'', w)
      else if cn_netok (w_cn w cn) then
        (None, upd_cn cn (\<lambda>C. C\<lparr>cn_out := cn_out C @ [data]\<rparr>) w)
      else (Some ''write error'', shutdown cn w))"

definition WriteMessage :: "connref \<Rightarrow> json \<Rightarrow> world \<Rightarrow> string option \<times> world" where
  "WriteMessage cn data w = send cn data w"

definition WriteEnvelope :: "connref \<Rightarrow> u16 \<Rightarrow> string \<Rightarrow> u16 \<Rightarrow> json \<Rightarrow> world \<Rightarrow> string option \<times> world" where
  "WriteEnvelope cn channelID envType reqID msg w =
     (let env = \<lparr>env_ChannelID = channelID, env_RequestID = reqID, env_Type = envType,
                 env_Payload = Some msg\<rparr>
      in send cn (marshal_Envelope env) w)"

text \<open>
  What the rest of the broker relies on: writing changes connections only, and of a connection
  only what has been written and whether it is closed.
\<close>

definition same_broker :: "world \<Rightarrow> world \<Rightarrow> bool" where
  "same_broker w w' \<longleftrightarrow>
     w_q w' = w_q w \<and> w_nq w' = w_nq w \<and> w_e w' = w_e w \<and> w_ne w' = w_ne w \<and>
     w_c w' = w_c w \<and> w_nc w' = w_nc w \<and> w_ch w' = w_ch w \<and> w_nch w' = w_nch w \<and>
     w_ncn w' = w_ncn w \<and> w_queues w' = w_queues w \<and> w_exchanges w' = w_exchanges w \<and>
     w_metrics w' = w_metrics w \<and> w_connections w' = w_connections w \<and> w_config w' = w_config w \<and>
     (\<forall>r. cn_channels (w_cn w' r) = cn_channels (w_cn w r) \<and> cn_state (w_cn w' r) = cn_state (w_cn w r) \<and>
          cn_in (w_cn w' r) = cn_in (w_cn w r))"

lemma same_broker_refl [simp]: "same_broker w w"
  by (simp add: same_broker_def)

lemma same_broker_send: "same_broker w (snd (send cn data w))"
  by (simp add: same_broker_def send_def shutdown_def)

lemma same_broker_WriteEnvelope: "same_broker w (snd (WriteEnvelope cn ch ty rq m w))"
  by (simp add: WriteEnvelope_def same_broker_send Let_def)

lemma same_broker_simps:
  assumes "same_broker w w'"
  shows "w_q w' = w_q w" "w_nq w' = w_nq w" "w_e w' = w_e w" "w_ne w' = w_ne w"
    "w_c w' = w_c w" "w_nc w' = w_nc w" "w_ch w' = w_ch w" "w_nch w' = w_nch w"
    "w_ncn w' = w_ncn w" "w_queues w' = w_queues w" "w_exchanges w' = w_exchanges w"
    "w_metrics w' = w_metrics w" "w_connections w' = w_connections w" "w_config w' = w_config w"
    "cn_channels (w_cn w' r) = cn_channels (w_cn w r)" "cn_state (w_cn w' r) = cn_state (w_cn w r)"
    "cn_in (w_cn w' r) = cn_in (w_cn w r)"
  using assms by (simp_all add: same_broker_def)

lemmas send_simps [simp] = same_broker_simps [OF same_broker_send]
lemmas WriteEnvelope_simps [simp] = same_broker_simps [OF same_broker_WriteEnvelope]

end
