(* ===== verification/BrokerInv.thy ===== *)
theory BrokerInv
  imports BrokerState
begin

text \<open>
  The invariants of the broker's memory and the abstract view of a queue.

  \<open>wf_world\<close> says that every pointer leads to an object of the right kind and that the two ends
  of every link agree: the broker's map and the name of a queue, a binding and the queue it names,
  a queue's consumer set and the consumer's queue, a channel's consumer map and the consumer's tag
  and channel, a connection's channel map and the channel's id and connection. \<open>consumer_ok\<close> is the
  bookkeeping of one consumer. All of it holds whatever the clients do.

  \<open>contents w q\<close> is the abstract state of a queue: the multiset of messages it is responsible for,
  whether they wait in the buffer or are held by one of its consumers.
\<close>

section \<open>Bookkeeping of a consumer\<close>

definition consumer_ok :: "Consumer \<Rightarrow> bool" where
  "consumer_ok C \<longleftrightarrow>
     gm_wf (c_pendingMessages C) \<and> gm_wf (c_inflightTags C) \<and>
     set (gm_keys (c_inflightTags C)) = set (gm_keys (c_pendingMessages C)) \<and>
     (\<forall>t m. gm_get (c_pendingMessages C) t = Some m \<longrightarrow> m_DeliveryTag m = t) \<and>
     int (length (c_pendingMessages C)) \<le> c_inflight C \<and> c_inflight C \<le> c_prefetch C"

text \<open>The counter is exact when it equals the number of messages held.\<close>

definition consumer_exact :: "Consumer \<Rightarrow> bool" where
  "consumer_exact C \<longleftrightarrow> c_inflight C = int (length (c_pendingMessages C))"

definition pend :: "Consumer \<Rightarrow> Message multiset" where
  "pend C = mset (map snd (c_pendingMessages C))"

section \<open>Links\<close>

definition queues_ok :: "world \<Rightarrow> bool" where
  "queues_ok w \<longleftrightarrow>
     gm_wf (w_queues w) \<and>
     (\<forall>n q. gm_get (w_queues w) n = Some q \<longrightarrow> q < w_nq w \<and> q_name (w_q w q) = n) \<and>
     (\<forall>q < w_nq w. gm_get (w_queues w) (q_name (w_q w q)) = Some q)"

definition exchanges_ok :: "world \<Rightarrow> bool" where
  "exchanges_ok w \<longleftrightarrow>
     gm_wf (w_exchanges w) \<and>
     (\<forall>n e. gm_get (w_exchanges w) n = Some e \<longrightarrow> e < w_ne w \<and> e_name (w_e w e) = n) \<and>
     (\<forall>e < w_ne w. gm_wf (e_bindings (w_e w e)) \<and>
        (\<forall>rk m. gm_get (e_bindings (w_e w e)) rk = Some m \<longrightarrow>
           gm_wf m \<and> (\<forall>n q. gm_get m n = Some q \<longrightarrow> q < w_nq w \<and> q_name (w_q w q) = n)))"

definition regs_ok :: "world \<Rightarrow> bool" where
  "regs_ok w \<longleftrightarrow>
     (\<forall>q < w_nq w. gm_wf (q_consumers (w_q w q)) \<and>
        (\<forall>c. gm_has c (q_consumers (w_q w q)) \<longrightarrow> c < w_nc w \<and> c_queue (w_c w c) = q))"

definition cons_ok :: "world \<Rightarrow> bool" where
  "cons_ok w \<longleftrightarrow>
     (\<forall>c < w_nc w. consumer_ok (w_c w c) \<and> c_prefetch (w_c w c) = 10 \<and>
        c_queue (w_c w c) < w_nq w \<and> c_channel (w_c w c) < w_nch w \<and>
        (\<not> gm_has c (q_consumers (w_q w (c_queue (w_c w c)))) \<longrightarrow> c_pendingMessages (w_c w c) = []))"

definition chans_ok :: "world \<Rightarrow> bool" where
  "chans_ok w \<longleftrightarrow>
     (\<forall>ch < w_nch w. ch_conn (w_ch w ch) < w_ncn w \<and> gm_wf (ch_consumers (w_ch w ch)) \<and>
        (\<forall>t c. gm_get (ch_consumers (w_ch w ch)) t = Some c \<longrightarrow>
           c < w_nc w \<and> c_tag (w_c w c) = t \<and> c_channel (w_c w c) = ch))"

definition conns_ok :: "world \<Rightarrow> bool" where
  "conns_ok w \<longleftrightarrow>
     gm_wf (w_connections w) \<and> (\<forall>cn. gm_has cn (w_connections w) \<longrightarrow> cn < w_ncn w) \<and>
     (\<forall>cn < w_ncn w. gm_wf (cn_channels (w_cn w cn)) \<and>
        (\<forall>i ch. gm_get (cn_channels (w_cn w cn)) i = Some ch \<longrightarrow>
           ch < w_nch w \<and> ch_id (w_ch w ch) = i \<and> ch_conn (w_ch w ch) = cn))"

definition wf_world :: "world \<Rightarrow> bool" where
  "wf_world w \<longleftrightarrow> queues_ok w \<and> exchanges_ok w \<and> regs_ok w \<and> cons_ok w \<and> chans_ok w \<and> conns_ok w"

lemmas wf_parts = queues_ok_def exchanges_ok_def regs_ok_def cons_ok_def chans_ok_def conns_ok_def

lemma wf_worldD:
  assumes "wf_world w"
  shows "queues_ok w" "exchanges_ok w" "regs_ok w" "cons_ok w" "chans_ok w" "conns_ok w"
  using assms by (simp_all add: wf_world_def)

text \<open>What the components read off \<open>wf_world\<close>.\<close>

lemma wf_queue_lookup:
  assumes "wf_world w" "gm_get (w_queues w) n = Some q"
  shows "q < w_nq w" "q_name (w_q w q) = n"
  using wf_worldD(1) [OF assms(1)] assms(2) unfolding queues_ok_def by blast+

lemma wf_queue_by_name:
  "wf_world w \<Longrightarrow> q < w_nq w \<Longrightarrow> gm_get (w_queues w) (q_name (w_q w q)) = Some q"
  using wf_worldD(1) unfolding queues_ok_def by blast+

lemma wf_queue_name_inj:
  assumes "wf_world w" "q < w_nq w" "q' < w_nq w"
  shows "q_name (w_q w q) = q_name (w_q w q') \<longleftrightarrow> q = q'"
  using wf_queue_by_name [OF assms(1) assms(2)] wf_queue_by_name [OF assms(1) assms(3)]
  by (metis option.inject)

lemma wf_exchange_lookup:
  assumes "wf_world w" "gm_get (w_exchanges w) n = Some e"
  shows "e < w_ne w" "e_name (w_e w e) = n"
  using wf_worldD(2) [OF assms(1)] assms(2) unfolding exchanges_ok_def by blast+

lemma wf_exchange_bindings:
  assumes "wf_world w" "e < w_ne w"
  shows "gm_wf (e_bindings (w_e w e))"
    "gm_get (e_bindings (w_e w e)) rk = Some m \<Longrightarrow> gm_wf m"
    "gm_get (e_bindings (w_e w e)) rk = Some m \<Longrightarrow> gm_get m n = Some q \<Longrightarrow> q < w_nq w"
    "gm_get (e_bindings (w_e w e)) rk = Some m \<Longrightarrow> gm_get m n = Some q \<Longrightarrow> q_name (w_q w q) = n"
  using wf_worldD(2) [OF assms(1)] assms(2) unfolding exchanges_ok_def by blast+

lemma wf_registered:
  assumes "wf_world w" "q < w_nq w"
  shows "gm_wf (q_consumers (w_q w q))"
    "gm_has c (q_consumers (w_q w q)) \<Longrightarrow> c < w_nc w"
    "gm_has c (q_consumers (w_q w q)) \<Longrightarrow> c_queue (w_c w c) = q"
  using wf_worldD(3) [OF assms(1)] assms(2) unfolding regs_ok_def by blast+

lemma wf_consumer:
  assumes "wf_world w" "c < w_nc w"
  shows "consumer_ok (w_c w c)" "c_prefetch (w_c w c) = 10"
    "c_queue (w_c w c) < w_nq w" "c_channel (w_c w c) < w_nch w"
    "\<not> gm_has c (q_consumers (w_q w (c_queue (w_c w c)))) \<Longrightarrow> c_pendingMessages (w_c w c) = []"
  using wf_worldD(4) [OF assms(1)] assms(2) unfolding cons_ok_def by blast+

lemma wf_channel:
  assumes "wf_world w" "ch < w_nch w"
  shows "ch_conn (w_ch w ch) < w_ncn w" "gm_wf (ch_consumers (w_ch w ch))"
    "gm_get (ch_consumers (w_ch w ch)) t = Some c \<Longrightarrow> c < w_nc w"
    "gm_get (ch_consumers (w_ch w ch)) t = Some c \<Longrightarrow> c_tag (w_c w c) = t"
    "gm_get (ch_consumers (w_ch w ch)) t = Some c \<Longrightarrow> c_channel (w_c w c) = ch"
  using wf_worldD(5) [OF assms(1)] assms(2) unfolding chans_ok_def by blast+

lemma wf_connection:
  assumes "wf_world w" "cn < w_ncn w"
  shows "gm_wf (cn_channels (w_cn w cn))"
    "gm_get (cn_channels (w_cn w cn)) i = Some ch \<Longrightarrow> ch < w_nch w"
    "gm_get (cn_channels (w_cn w cn)) i = Some ch \<Longrightarrow> ch_id (w_ch w ch) = i"
    "gm_get (cn_channels (w_cn w cn)) i = Some ch \<Longrightarrow> ch_conn (w_ch w ch) = cn"
  using wf_worldD(6) [OF assms(1)] assms(2) unfolding conns_ok_def by blast+

text \<open>Writing and counting do not touch the links.\<close>

lemma wf_world_same_broker: "same_broker w w' \<Longrightarrow> wf_world w \<Longrightarrow> wf_world w'"
  by (simp add: wf_world_def wf_parts same_broker_def)

lemma wf_world_send [wf_intros]: "wf_world w \<Longrightarrow> wf_world (snd (send cn d w))"
  by (rule wf_world_same_broker [OF same_broker_send])

lemma wf_world_WriteEnvelope [wf_intros]: "wf_world w \<Longrightarrow> wf_world (snd (WriteEnvelope cn ch ty rq m w))"
  by (rule wf_world_same_broker [OF same_broker_WriteEnvelope])

lemma wf_world_metrics [simp]: "wf_world (w\<lparr>w_metrics := m\<rparr>) = wf_world w"
  by (simp add: wf_world_def wf_parts)

section \<open>Abstract contents of a queue\<close>

definition held :: "world \<Rightarrow> qref \<Rightarrow> Message multiset" where
  "held w q = (\<Sum>c \<in> set (gm_keys (q_consumers (w_q w q))). pend (w_c w c))"

definition contents :: "world \<Rightarrow> qref \<Rightarrow> Message multiset" where
  "contents w q = mset (q_messages (w_q w q)) + held w q"

lemma held_split:
  assumes "gm_has c (q_consumers (w_q w q))"
  shows "held w q = pend (w_c w c) +
           (\<Sum>c' \<in> set (gm_keys (q_consumers (w_q w q))) - {c}. pend (w_c w c'))"
  using assms by (simp add: held_def gm_has_def sum.remove)

text \<open>Changing a consumer changes what its queue holds by that consumer's share.\<close>

lemma held_upd_in:
  assumes "gm_has c (q_consumers (w_q w q))"
  shows "held (w\<lparr>w_c := (w_c w)(c := C)\<rparr>) q + pend (w_c w c) = held w q + pend C"
proof -
  let ?K = "set (gm_keys (q_consumers (w_q w q)))"
  have "held (w\<lparr>w_c := (w_c w)(c := C)\<rparr>) q = pend C + (\<Sum>c' \<in> ?K - {c}. pend (w_c w c'))"
    using held_split [of c "w\<lparr>w_c := (w_c w)(c := C)\<rparr>" q] assms by simp
  with held_split [OF assms] show ?thesis by (simp add: ac_simps)
qed

lemma held_upd_out:
  assumes "\<not> gm_has c (q_consumers (w_q w q))"
  shows "held (w\<lparr>w_c := (w_c w)(c := C)\<rparr>) q = held w q"
  unfolding held_def by (rule sum.cong) (use assms in \<open>auto simp: gm_has_def\<close>)

lemma held_cong:
  assumes "q_consumers (w_q w' q) = q_consumers (w_q w q)"
    and "\<And>c. gm_has c (q_consumers (w_q w q)) \<Longrightarrow> pend (w_c w' c) = pend (w_c w c)"
  shows "held w' q = held w q"
  unfolding held_def assms(1) by (rule sum.cong) (use assms(2) in \<open>auto simp: gm_has_def\<close>)

lemma contents_same_broker: "same_broker w w' \<Longrightarrow> contents w' q = contents w q"
  by (simp add: contents_def held_def same_broker_def)

lemma contents_metrics [simp]: "contents (w\<lparr>w_metrics := m\<rparr>) q = contents w q"
  by (simp add: contents_def held_def)

lemma contents_WriteEnvelope [simp]: "contents (snd (WriteEnvelope cn ch ty rq m w)) q = contents w q"
  by (rule contents_same_broker [OF same_broker_WriteEnvelope])

section \<open>Accounts\<close>

text \<open>
  Delivery tags are 16-bit and wrap. As long as a queue has enqueued at most \<open>2 ^ 16\<close> messages its
  live tags are distinct, the counters add up (every message enqueued is still there or was
  acknowledged, dead-lettered or dropped), and the in-flight counters of its consumers are exact.
  The number of messages enqueued is read off the code's own counter.
\<close>

definition distinct_tags :: "Message multiset \<Rightarrow> bool" where
  "distinct_tags M \<longleftrightarrow> (\<forall>t. count (image_mset m_DeliveryTag M) t \<le> 1)"

definition tags_below :: "nat \<Rightarrow> Message multiset \<Rightarrow> bool" where
  "tags_below N M \<longleftrightarrow> (\<forall>m. m \<in># M \<longrightarrow> (\<exists>i. 1 \<le> i \<and> i \<le> N \<and> m_DeliveryTag m = of_nat i))"

definition settled :: "Metrics \<Rightarrow> string \<Rightarrow> nat" where
  "settled M n = mt_Acked M n + mt_DeadLettered M n + mt_Dropped M n"

definition tag_space :: nat where
  "tag_space = 65536"

definition account_ok :: "world \<Rightarrow> qref \<Rightarrow> bool" where
  "account_ok w q \<longleftrightarrow>
     (let n = q_name (w_q w q); N = mt_Enqueued (w_metrics w) n in
      q_nextTag (w_q w q) = of_nat (Suc N) \<and>
      (N \<le> tag_space \<longrightarrow>
         distinct_tags (contents w q) \<and> tags_below N (contents w q) \<and>
         N = size (contents w q) + settled (w_metrics w) n \<and>
         (\<forall>c. gm_has c (q_consumers (w_q w q)) \<longrightarrow> consumer_exact (w_c w c))))"

text \<open>Counters of queues that do not exist yet are zero.\<close>

definition accounts_ok :: "world \<Rightarrow> bool" where
  "accounts_ok w \<longleftrightarrow>
     (\<forall>q < w_nq w. account_ok w q) \<and>
     (\<forall>n. gm_get (w_queues w) n = None \<longrightarrow>
        mt_Enqueued (w_metrics w) n = 0 \<and> settled (w_metrics w) n = 0)"

lemma distinct_tags_add_iff:
  "distinct_tags (add_mset m M) \<longleftrightarrow> distinct_tags M \<and> m_DeliveryTag m \<notin> m_DeliveryTag ` set_mset M"
  (is "?L \<longleftrightarrow> ?R")
proof
  assume L: ?L
  have "count (image_mset m_DeliveryTag M) t \<le> 1" for t
    using L [unfolded distinct_tags_def, rule_format, of t] by (simp split: if_splits)
  moreover have "count (image_mset m_DeliveryTag M) (m_DeliveryTag m) = 0"
    using L [unfolded distinct_tags_def, rule_format, of "m_DeliveryTag m"] by simp
  ultimately show ?R by (simp add: distinct_tags_def count_eq_zero_iff)
next
  assume R: ?R
  then have "count (image_mset m_DeliveryTag M) (m_DeliveryTag m) = 0"
    by (simp add: count_eq_zero_iff)
  with R show ?L by (simp add: distinct_tags_def)
qed

lemma distinct_tags_empty [simp]: "distinct_tags {#}"
  by (simp add: distinct_tags_def)

lemma tags_below_add_iff:
  "tags_below N (add_mset m M) \<longleftrightarrow>
     tags_below N M \<and> (\<exists>i. 1 \<le> i \<and> i \<le> N \<and> m_DeliveryTag m = of_nat i)"
  by (auto simp: tags_below_def)

lemma tags_below_empty [simp]: "tags_below N {#}"
  by (simp add: tags_below_def)

lemma tags_below_mono: "tags_below N M \<Longrightarrow> N \<le> N' \<Longrightarrow> tags_below N' M"
  unfolding tags_below_def by (meson order_trans)

lemma fresh_tag:
  assumes "tags_below N M" "N < tag_space"
  shows "(of_nat (Suc N) :: u16) \<notin> m_DeliveryTag ` set_mset M"
proof
  assume "(of_nat (Suc N) :: u16) \<in> m_DeliveryTag ` set_mset M"
  then obtain i where i: "1 \<le> i" "i \<le> N" "(of_nat i :: u16) = of_nat (Suc N)"
    using assms(1) by (auto simp: tags_below_def)
  then have "i mod 65536 = Suc N mod 65536"
    by (auto dest!: arg_cong [where f = unat] simp: unsigned_of_nat take_bit_eq_mod simp del: of_nat_Suc)
  with i assms(2) show False
    by (cases "Suc N = 65536") (auto simp: tag_space_def)
qed

lemma account_frame:
  assumes "account_ok w q"
    and "q_name (w_q w' q) = q_name (w_q w q)" "q_nextTag (w_q w' q) = q_nextTag (w_q w q)"
    and "mt_Enqueued (w_metrics w) (q_name (w_q w q)) \<le> tag_space \<Longrightarrow> contents w' q = contents w q"
    and "mt_Enqueued (w_metrics w') (q_name (w_q w q)) = mt_Enqueued (w_metrics w) (q_name (w_q w q))"
    and "settled (w_metrics w') (q_name (w_q w q)) = settled (w_metrics w) (q_name (w_q w q))"
    and "\<And>c. mt_Enqueued (w_metrics w) (q_name (w_q w q)) \<le> tag_space \<Longrightarrow>
          gm_has c (q_consumers (w_q w' q)) \<Longrightarrow> consumer_exact (w_c w' c)"
  shows "account_ok w' q"
  using assms by (simp add: account_ok_def Let_def)

lemma account_settle:
  assumes "account_ok w q"
    and "q_name (w_q w' q) = q_name (w_q w q)" "q_nextTag (w_q w' q) = q_nextTag (w_q w q)"
    and "mt_Enqueued (w_metrics w) (q_name (w_q w q)) \<le> tag_space \<Longrightarrow> contents w q = add_mset m (contents w' q)"
    and "mt_Enqueued (w_metrics w') (q_name (w_q w q)) = mt_Enqueued (w_metrics w) (q_name (w_q w q))"
    and "settled (w_metrics w') (q_name (w_q w q)) = Suc (settled (w_metrics w) (q_name (w_q w q)))"
    and "\<And>c. mt_Enqueued (w_metrics w) (q_name (w_q w q)) \<le> tag_space \<Longrightarrow>
          gm_has c (q_consumers (w_q w' q)) \<Longrightarrow> consumer_exact (w_c w' c)"
  shows "account_ok w' q"
  using assms by (simp add: account_ok_def Let_def distinct_tags_add_iff tags_below_add_iff)

lemma account_add:
  assumes "account_ok w q"
    and "q_name (w_q w' q) = q_name (w_q w q)" "q_nextTag (w_q w' q) = q_nextTag (w_q w q) + 1"
    and "contents w' q = add_mset m (contents w q)" "m_DeliveryTag m = q_nextTag (w_q w q)"
    and "mt_Enqueued (w_metrics w') (q_name (w_q w q)) = Suc (mt_Enqueued (w_metrics w) (q_name (w_q w q)))"
    and "settled (w_metrics w') (q_name (w_q w q)) = settled (w_metrics w) (q_name (w_q w q))"
    and "q_consumers (w_q w' q) = q_consumers (w_q w q)" "w_c w' = w_c w"
  shows "account_ok w' q"
proof -
  let ?N = "mt_Enqueued (w_metrics w) (q_name (w_q w q))"
  have next_tag: "q_nextTag (w_q w q) = of_nat (Suc ?N)"
    using assms(1) by (simp add: account_ok_def Let_def)
  have "distinct_tags (contents w' q) \<and> tags_below (Suc ?N) (contents w' q)"
    if N: "Suc ?N \<le> tag_space"
  proof -
    have "distinct_tags (contents w q) \<and> tags_below ?N (contents w q)"
      using assms(1) N unfolding account_ok_def Let_def by (meson Suc_leD)
    then have old: "distinct_tags (contents w q)" "tags_below ?N (contents w q)" by simp_all
    have "m_DeliveryTag m \<notin> m_DeliveryTag ` set_mset (contents w q)"
      using fresh_tag [OF old(2)] N next_tag assms(5) by simp
    moreover have "\<exists>i. 1 \<le> i \<and> i \<le> Suc ?N \<and> m_DeliveryTag m = of_nat i"
      using next_tag assms(5) by (intro exI [of _ "Suc ?N"]) simp
    ultimately show ?thesis
      using old tags_below_mono [OF old(2), of "Suc ?N"] assms(4)
      by (simp add: distinct_tags_add_iff tags_below_add_iff)
  qed
  moreover have "Suc ?N = size (contents w' q) + settled (w_metrics w) (q_name (w_q w q))
      \<and> (\<forall>c. gm_has c (q_consumers (w_q w q)) \<longrightarrow> consumer_exact (w_c w c))"
    if "Suc ?N \<le> tag_space"
    using assms(1,4) that unfolding account_ok_def Let_def by (metis Suc_leD add_Suc size_add_mset)
  ultimately show ?thesis
    using next_tag assms(2,3,6-9) unfolding account_ok_def Let_def by (simp add: ac_simps)
qed

lemma account_tags:
  assumes "account_ok w q" "mt_Enqueued (w_metrics w) (q_name (w_q w q)) \<le> tag_space"
  shows "distinct_tags (contents w q)"
    "gm_has c (q_consumers (w_q w q)) \<Longrightarrow> consumer_exact (w_c w c)"
    "mt_Enqueued (w_metrics w) (q_name (w_q w q)) =
       size (contents w q) + settled (w_metrics w) (q_name (w_q w q))"
  using assms by (simp_all add: account_ok_def Let_def)

end
