(* ===== verification/QueueOps.thy ===== *)
theory QueueOps
  imports BrokerInv
begin

text \<open>
  Consumers and queues: \<^verbatim>\<open>broker/consumer.go\<close> and \<^verbatim>\<open>broker/queue.go\<close>.

  Each operation of a queue is a function on the whole memory. \<open>dispatchOnce\<close> is one turn of the
  dispatch goroutine's loop: it either waits or takes the oldest message, marks it in the chosen
  consumer, writes the delivery and, if the write fails, puts everything back.
\<close>

section \<open>Consumers (consumer.go)\<close>

definition NewConsumer :: "string \<Rightarrow> qref \<Rightarrow> chref \<Rightarrow> Channel \<Rightarrow> Consumer" where
  "NewConsumer tag queue ch chan =
     (let tag' = (if tag = [] then
                    ''ch.'' @ formatUint 10 (unat (ch_id chan)) @ ''.consumer.'' @
                      formatUint 10 (length (ch_consumers chan) + 1)
                  else tag)
      in \<lparr>c_tag = tag', c_queue = queue, c_channel = ch, c_prefetch = 10, c_inflight = 0,
          c_inflightTags = [], c_pendingMessages = []\<rparr>)"

text \<open>The three updates of a consumer's bookkeeping, as the queue and the handlers make them.\<close>

definition holdMessage :: "Message \<Rightarrow> Consumer \<Rightarrow> Consumer" where
  "holdMessage msg C =
     C\<lparr>c_inflight := c_inflight C + 1,
       c_inflightTags := gm_put (m_DeliveryTag msg) () (c_inflightTags C),
       c_pendingMessages := gm_put (m_DeliveryTag msg) msg (c_pendingMessages C)\<rparr>"

definition releaseMessage :: "u16 \<Rightarrow> Consumer \<Rightarrow> Consumer" where
  "releaseMessage tag C =
     C\<lparr>c_inflight := c_inflight C - 1,
       c_inflightTags := gm_del tag (c_inflightTags C),
       c_pendingMessages := gm_del tag (c_pendingMessages C)\<rparr>"

section \<open>Queues (queue.go)\<close>

definition NewQueue :: "string \<Rightarrow> string \<Rightarrow> string \<Rightarrow> Queue" where
  "NewQueue name dlx dlxRoutingKey =
     \<lparr>q_name = name, q_messages = [], q_consumers = [], q_nextTag = 1, q_dlx = dlx,
      q_dlxRoutingKey = dlxRoutingKey\<rparr>"

definition registerConsumer :: "qref \<Rightarrow> cref \<Rightarrow> world \<Rightarrow> world" where
  "registerConsumer q c w = upd_q q (\<lambda>Q. Q\<lparr>q_consumers := gm_put c () (q_consumers Q)\<rparr>) w"

text \<open>\<^verbatim>\<open>q.messages = append([]Message{msg}, q.messages...)\<close>\<close>

definition pushFront :: "Message \<Rightarrow> Queue \<Rightarrow> Queue" where
  "pushFront msg Q = Q\<lparr>q_messages := msg # q_messages Q\<rparr>"

text \<open>The body of the loop over the pending messages in \<^verbatim>\<open>unregisterConsumer\<close>.\<close>

definition returnPending :: "Message \<Rightarrow> Queue \<times> Consumer \<Rightarrow> Queue \<times> Consumer" where
  "returnPending msg QC =
     (case QC of (Q, C) \<Rightarrow>
        (pushFront msg Q,
         C\<lparr>c_inflightTags := gm_del (m_DeliveryTag msg) (c_inflightTags C), c_inflight := c_inflight C - 1\<rparr>))"

definition unregisterConsumer :: "orders \<Rightarrow> qref \<Rightarrow> cref \<Rightarrow> world \<Rightarrow> world" where
  "unregisterConsumer \<pi> q c w =
     (if \<not> gm_has c (q_consumers (w_q w q)) then w
      else
        let Q0 = (w_q w q)\<lparr>q_consumers := gm_del c (q_consumers (w_q w q))\<rparr>;
            C0 = w_c w c;
            msgs = entries_in (o_pending \<pi> c (gm_keys (c_pendingMessages C0))) (c_pendingMessages C0)
        in case fold returnPending msgs (Q0, C0) of (Q, C) \<Rightarrow>
             upd_m (\<lambda>M. M\<lparr>mt_ConsumersUnregistered := inc (q_name Q) (mt_ConsumersUnregistered M)\<rparr>)
               (upd_c c (\<lambda>_. C\<lparr>c_pendingMessages := []\<rparr>) (upd_q q (\<lambda>_. Q) w)))"

definition hasRoom :: "Consumer \<Rightarrow> bool" where
  "hasRoom C \<longleftrightarrow> c_inflight C < c_prefetch C"

definition selectConsumer :: "orders \<Rightarrow> qref \<Rightarrow> world \<Rightarrow> cref option" where
  "selectConsumer \<pi> q w =
     List.find (\<lambda>c. hasRoom (w_c w c)) (o_consumers \<pi> q (gm_keys (q_consumers (w_q w q))))"

text \<open>The delivery frame of a message for a consumer.\<close>

definition deliverFrame :: "Consumer \<Rightarrow> Message \<Rightarrow> json" where
  "deliverFrame C msg =
     marshal_Deliver \<lparr>del_DeliveryTag = m_DeliveryTag msg, del_Body = m_Body msg,
       del_Exchange = m_Exchange msg, del_RoutingKey = m_RoutingKey msg, del_ConsumerTag = c_tag C\<rparr>"

text \<open>The first critical section of a turn: pop the oldest message and mark it in the consumer.\<close>

definition takeMessage :: "qref \<Rightarrow> cref \<Rightarrow> Message \<Rightarrow> world \<Rightarrow> world" where
  "takeMessage q c msg w =
     upd_c c (holdMessage msg) (upd_q q (\<lambda>Q. Q\<lparr>q_messages := tl (q_messages Q)\<rparr>) w)"

text \<open>The critical section after a failed write: everything back where it was.\<close>

definition putBack :: "qref \<Rightarrow> cref \<Rightarrow> Message \<Rightarrow> world \<Rightarrow> world" where
  "putBack q c msg w = upd_c c (releaseMessage (m_DeliveryTag msg)) (upd_q q (pushFront msg) w)"

datatype turn = Waits | Delivers cref Message | DeliverFails cref Message

definition dispatchOnce :: "orders \<Rightarrow> qref \<Rightarrow> world \<Rightarrow> turn \<times> world" where
  "dispatchOnce \<pi> q w =
     (case q_messages (w_q w q) of
        [] \<Rightarrow> (Waits, w)
      | msg # _ \<Rightarrow>
          (case selectConsumer \<pi> q w of
             None \<Rightarrow> (Waits, w)
           | Some c \<Rightarrow>
               let w1 = takeMessage q c msg w;
                   chan = w_ch w1 (c_channel (w_c w1 c));
                   name = q_name (w_q w1 q)
               in case WriteEnvelope (ch_conn chan) (ch_id chan) BasicDeliverType 0
                         (deliverFrame (w_c w1 c) msg) w1 of
                    (Some _, w2) \<Rightarrow>
                      (DeliverFails c msg,
                       putBack q c msg
                         (upd_m (\<lambda>M. M\<lparr>mt_DeliverErrors := inc name (mt_DeliverErrors M)\<rparr>) w2))
                  | (None, w2) \<Rightarrow>
                      (Delivers c msg, upd_m (\<lambda>M. M\<lparr>mt_Delivered := inc name (mt_Delivered M)\<rparr>) w2)))"

definition enqueue :: "qref \<Rightarrow> Message \<Rightarrow> world \<Rightarrow> world" where
  "enqueue q msg w =
     upd_q q (\<lambda>Q. Q\<lparr>q_messages := q_messages Q @ [msg]\<rparr>)
       (upd_m (\<lambda>M. M\<lparr>mt_Enqueued := inc (q_name (w_q w q)) (mt_Enqueued M)\<rparr>) w)"

section \<open>Consumer bookkeeping\<close>

lemma consumer_ok_New [simp]: "consumer_ok (NewConsumer tag q ch chan)"
  by (simp add: consumer_ok_def NewConsumer_def Let_def)

lemma NewConsumer_simps [simp]:
  "c_queue (NewConsumer tag q ch chan) = q" "c_channel (NewConsumer tag q ch chan) = ch"
  "c_prefetch (NewConsumer tag q ch chan) = 10" "c_inflight (NewConsumer tag q ch chan) = 0"
  "c_pendingMessages (NewConsumer tag q ch chan) = []" "c_inflightTags (NewConsumer tag q ch chan) = []"
  by (simp_all add: NewConsumer_def Let_def)

lemma holdMessage_simps [simp]:
  "c_tag (holdMessage m C) = c_tag C" "c_queue (holdMessage m C) = c_queue C"
  "c_channel (holdMessage m C) = c_channel C" "c_prefetch (holdMessage m C) = c_prefetch C"
  "c_inflight (holdMessage m C) = c_inflight C + 1"
  by (simp_all add: holdMessage_def)

lemma releaseMessage_simps [simp]:
  "c_tag (releaseMessage t C) = c_tag C" "c_queue (releaseMessage t C) = c_queue C"
  "c_channel (releaseMessage t C) = c_channel C" "c_prefetch (releaseMessage t C) = c_prefetch C"
  "c_inflight (releaseMessage t C) = c_inflight C - 1"
  by (simp_all add: releaseMessage_def)

lemma inflight_iff_pending:
  assumes "consumer_ok C"
  shows "gm_has t (c_inflightTags C) \<longleftrightarrow> gm_has t (c_pendingMessages C)"
  using assms by (simp add: consumer_ok_def gm_has_def)

lemma consumer_ok_hold:
  assumes "consumer_ok C" "hasRoom C"
  shows "consumer_ok (holdMessage m C)"
  using assms
  by (auto simp: consumer_ok_def holdMessage_def hasRoom_def gm.wf_put gm.keys_put gm.get_put gm_len_put
      split: if_splits)

lemma consumer_ok_release:
  assumes "consumer_ok C" "gm_has t (c_pendingMessages C)"
  shows "consumer_ok (releaseMessage t C)"
proof -
  have "Suc (length (gm_del t (c_pendingMessages C))) = length (c_pendingMessages C)"
    using assms by (intro gm_len_del_has) (auto simp: consumer_ok_def)
  then show ?thesis using assms
    by (auto simp: consumer_ok_def releaseMessage_def gm.wf_del gm.keys_del gm.get_del)
qed

text \<open>A fresh tag adds a message; releasing a tag removes the message under it.\<close>

lemma pend_hold:
  "\<not> gm_has (m_DeliveryTag m) (c_pendingMessages C) \<Longrightarrow> pend (holdMessage m C) = add_mset m (pend C)"
  by (simp add: pend_def holdMessage_def gm_put_new)

lemma pend_release:
  assumes "consumer_ok C" "gm_get (c_pendingMessages C) t = Some m"
  shows "pend C = add_mset m (pend (releaseMessage t C))"
proof -
  have "gm_wf ps \<Longrightarrow> gm_get ps t = Some m \<Longrightarrow> mset (map snd ps) = add_mset m (mset (map snd (gm_del t ps)))"
    for ps :: "(u16, Message) gomap"
  proof (induction ps)
    case (Cons p ps)
    then show ?case
      by (cases "fst p = t") (auto simp: gm_wf_def gm_has_def)
  qed simp
  with assms show ?thesis by (simp add: pend_def releaseMessage_def consumer_ok_def)
qed

lemma consumer_exact_hold:
  "\<lbrakk>consumer_ok C; consumer_exact C; \<not> gm_has (m_DeliveryTag m) (c_pendingMessages C)\<rbrakk>
     \<Longrightarrow> consumer_exact (holdMessage m C)"
  by (simp add: consumer_exact_def holdMessage_def gm_put_new)

lemma consumer_exact_release:
  assumes "consumer_ok C" "consumer_exact C" "gm_has t (c_pendingMessages C)"
  shows "consumer_exact (releaseMessage t C)"
proof -
  have "Suc (length (gm_del t (c_pendingMessages C))) = length (c_pendingMessages C)"
    using assms by (intro gm_len_del_has) (auto simp: consumer_ok_def)
  with assms show ?thesis
    by (simp add: consumer_exact_def releaseMessage_def)
qed

text \<open>Taking a message and putting it back is no change of the bookkeeping when its tag was free.\<close>

lemma release_hold:
  assumes "\<not> gm_has (m_DeliveryTag m) (c_pendingMessages C)" "\<not> gm_has (m_DeliveryTag m) (c_inflightTags C)"
  shows "releaseMessage (m_DeliveryTag m) (holdMessage m C) = C"
  using assms by (simp add: releaseMessage_def holdMessage_def delete_update_same)

section \<open>Returning the pending messages of a consumer\<close>

lemma fold_returnPending:
  "fold returnPending msgs (Q, C) =
     (Q\<lparr>q_messages := rev msgs @ q_messages Q\<rparr>,
      C\<lparr>c_inflightTags := fold gm_del (map m_DeliveryTag msgs) (c_inflightTags C),
        c_inflight := c_inflight C - int (length msgs)\<rparr>)"
  by (induction msgs arbitrary: Q C) (simp_all add: returnPending_def pushFront_def)

definition returnedMessages :: "orders \<Rightarrow> cref \<Rightarrow> Consumer \<Rightarrow> Message list" where
  "returnedMessages \<pi> c C = entries_in (o_pending \<pi> c (gm_keys (c_pendingMessages C))) (c_pendingMessages C)"

lemma mset_returnedMessages:
  assumes "orders_ok \<pi>" "gm_wf (c_pendingMessages C)"
  shows "mset (returnedMessages \<pi> c C) = pend C"
  using mset_entries_in [OF orders_range(3) [OF assms(1)] assms(2)]
  by (simp add: returnedMessages_def pend_def)

lemma length_returnedMessages:
  assumes "orders_ok \<pi>" "gm_wf (c_pendingMessages C)"
  shows "length (returnedMessages \<pi> c C) = length (c_pendingMessages C)"
proof -
  have "size (mset (returnedMessages \<pi> c C)) = size (pend C)"
    by (simp add: mset_returnedMessages [OF assms])
  then show ?thesis by (simp add: pend_def)
qed

lemma keys_fold_del: "set (gm_keys (fold gm_del ts m)) = set (gm_keys m) - set ts"
  by (induction ts arbitrary: m) (auto simp: gm.keys_del)

lemma wf_fold_del: "gm_wf m \<Longrightarrow> gm_wf (fold gm_del ts m)"
  by (induction ts arbitrary: m) (auto simp: gm.wf_del)

lemma tags_of_pending:
  assumes "consumer_ok C"
  shows "m_DeliveryTag ` set_mset (pend C) = set (gm_keys (c_pendingMessages C))"
proof -
  have "m_DeliveryTag (snd p) = fst p" if "p \<in> set (c_pendingMessages C)" for p
    using assms that by (cases p) (auto simp: consumer_ok_def gm_get_wf)
  then show ?thesis by (force simp: pend_def gm_keys_def image_image)
qed

text \<open>The closed form of \<open>unregisterConsumer\<close> on a registered consumer.\<close>

definition emptied :: "Consumer \<Rightarrow> Consumer" where
  "emptied C = C\<lparr>c_inflightTags := [],
     c_inflight := c_inflight C - int (length (c_pendingMessages C)), c_pendingMessages := []\<rparr>"

lemma consumer_ok_emptied: "consumer_ok C \<Longrightarrow> consumer_ok (emptied C)"
  by (simp add: consumer_ok_def emptied_def)

lemma fold_returnPending_pend:
  assumes "consumer_ok C" "mset msgs = pend C"
  shows "fold returnPending msgs (Q, C) =
    (Q\<lparr>q_messages := rev msgs @ q_messages Q\<rparr>, (emptied C)\<lparr>c_pendingMessages := c_pendingMessages C\<rparr>)"
proof -
  have "set (map m_DeliveryTag msgs) = m_DeliveryTag ` set_mset (pend C)"
    using assms(2) by (metis set_map set_mset_mset)
  then have "set (gm_keys (fold gm_del (map m_DeliveryTag msgs) (c_inflightTags C))) = {}"
    using assms(1) tags_of_pending [OF assms(1)] by (simp add: keys_fold_del consumer_ok_def)
  then have "fold gm_del (map m_DeliveryTag msgs) (c_inflightTags C) = []"
    by (simp add: gm_keys_def)
  moreover have "length msgs = length (c_pendingMessages C)"
    using arg_cong [OF assms(2), of size] by (simp add: pend_def)
  ultimately show ?thesis by (simp add: fold_returnPending emptied_def)
qed

lemma unregisterConsumer_eq:
  assumes "orders_ok \<pi>" "gm_has c (q_consumers (w_q w q))" "consumer_ok (w_c w c)"
  shows "unregisterConsumer \<pi> q c w =
    w\<lparr>w_q := (w_q w)(q := (w_q w q)\<lparr>q_consumers := gm_del c (q_consumers (w_q w q)),
               q_messages := rev (returnedMessages \<pi> c (w_c w c)) @ q_messages (w_q w q)\<rparr>),
      w_c := (w_c w)(c := emptied (w_c w c)),
      w_metrics := (w_metrics w)\<lparr>mt_ConsumersUnregistered :=
        inc (q_name (w_q w q)) (mt_ConsumersUnregistered (w_metrics w))\<rparr>\<rparr>"
proof -
  have wf: "gm_wf (c_pendingMessages (w_c w c))" using assms(3) by (simp add: consumer_ok_def)
  show ?thesis
    using assms(2) fold_returnPending_pend [OF assms(3) mset_returnedMessages [OF assms(1) wf]]
    by (simp add: unregisterConsumer_def Let_def emptied_def flip: returnedMessages_def)
qed

lemma unregisterConsumer_absent:
  "\<not> gm_has c (q_consumers (w_q w q)) \<Longrightarrow> unregisterConsumer \<pi> q c w = w"
  by (simp add: unregisterConsumer_def)

end
