(* ===== verification/QueueProps.thy ===== *)
theory QueueProps
  imports QueueOps
begin

text \<open>
  What the operations of a queue do to the memory invariant and to the contents of the queues:
  registering, dispatching and unregistering keep every message, a turn of the dispatch loop never
  gives a consumer more than its prefetch, and waits only when it has to.
\<close>

section \<open>Local changes keep the links\<close>

lemma wf_set_consumer:
  assumes wf: "wf_world w" and c: "c < w_nc w" and ok: "consumer_ok C"
    and same: "c_tag C = c_tag (w_c w c)" "c_queue C = c_queue (w_c w c)"
      "c_channel C = c_channel (w_c w c)" "c_prefetch C = c_prefetch (w_c w c)"
    and unreg: "\<not> gm_has c (q_consumers (w_q w (c_queue (w_c w c)))) \<Longrightarrow> c_pendingMessages C = []"
  shows "wf_world (w\<lparr>w_c := (w_c w)(c := C)\<rparr>)"
proof -
  have "regs_ok (w\<lparr>w_c := (w_c w)(c := C)\<rparr>)"
    using wf_worldD(3) [OF wf] same(2) by (simp add: regs_ok_def)
  moreover have "cons_ok (w\<lparr>w_c := (w_c w)(c := C)\<rparr>)"
    using wf_worldD(4) [OF wf] ok same unreg c by (simp add: cons_ok_def)
  moreover have "chans_ok (w\<lparr>w_c := (w_c w)(c := C)\<rparr>)"
    using wf_worldD(5) [OF wf] same by (simp add: chans_ok_def)
  ultimately show ?thesis
    using wf by (simp add: wf_world_def queues_ok_def exchanges_ok_def conns_ok_def)
qed

text \<open>The messages, the next tag and the dead-letter settings of a queue are not links.\<close>

lemma wf_set_queue:
  assumes "wf_world w" "q_name Q = q_name (w_q w q)" "q_consumers Q = q_consumers (w_q w q)"
  shows "wf_world (w\<lparr>w_q := (w_q w)(q := Q)\<rparr>)"
  using assms by (simp add: wf_world_def wf_parts)

lemma wf_add_registration:
  assumes wf: "wf_world w" and q: "q < w_nq w" and c: "c < w_nc w" "c_queue (w_c w c) = q"
  shows "wf_world (registerConsumer q c w)"
proof -
  have "regs_ok (registerConsumer q c w)"
    using wf_worldD(3) [OF wf] c
    by (simp add: regs_ok_def registerConsumer_def gm.wf_put gm_has_def gm.keys_put)
  moreover have "cons_ok (registerConsumer q c w)"
    using wf_worldD(4) [OF wf]
    by (auto simp: cons_ok_def registerConsumer_def gm_has_def gm.keys_put)
  ultimately show ?thesis
    using wf by (simp add: wf_world_def queues_ok_def exchanges_ok_def chans_ok_def conns_ok_def
        registerConsumer_def)
qed

text \<open>Dropping a registration is fine for a consumer that holds nothing.\<close>

lemma wf_remove_registration:
  assumes wf: "wf_world w" and none: "c_pendingMessages (w_c w c) = []"
  shows "wf_world (upd_q q (\<lambda>Q. Q\<lparr>q_consumers := gm_del c (q_consumers Q)\<rparr>) w)"
proof -
  let ?w = "upd_q q (\<lambda>Q. Q\<lparr>q_consumers := gm_del c (q_consumers Q)\<rparr>) w"
  have "regs_ok ?w"
    using wf_worldD(3) [OF wf] by (simp add: regs_ok_def gm.wf_del gm_has_def gm.keys_del)
  moreover have "cons_ok ?w"
    using wf_worldD(4) [OF wf] none by (auto simp: cons_ok_def gm_has_def gm.keys_del)
  ultimately show ?thesis
    using wf by (simp add: wf_world_def queues_ok_def exchanges_ok_def chans_ok_def conns_ok_def)
qed

section \<open>Every operation keeps the invariant\<close>

lemma wf_enqueue [wf_intros]: "wf_world w \<Longrightarrow> wf_world (enqueue q msg w)"
  using wf_set_queue [of "w\<lparr>w_metrics := M\<rparr>" "(w_q w q)\<lparr>q_messages := ms\<rparr>" q for M ms]
  by (simp add: enqueue_def)

lemma wf_unregisterConsumer [wf_intros]:
  assumes "wf_world w" "orders_ok \<pi>" "q < w_nq w"
  shows "wf_world (unregisterConsumer \<pi> q c w)"
proof (cases "gm_has c (q_consumers (w_q w q))")
  case False
  with assms(1) show ?thesis by (simp add: unregisterConsumer_absent)
next
  case True
  from wf_registered(2,3) [OF assms(1,3) True] have c: "c < w_nc w" "c_queue (w_c w c) = q" by auto
  note ok = wf_consumer(1) [OF assms(1) c(1)]
  let ?w1 = "w\<lparr>w_c := (w_c w)(c := emptied (w_c w c))\<rparr>"
  have "wf_world ?w1"
    by (rule wf_set_consumer [OF assms(1) c(1) consumer_ok_emptied [OF ok]]) (simp_all add: emptied_def)
  then have "wf_world (upd_q q (\<lambda>Q. Q\<lparr>q_consumers := gm_del c (q_consumers Q)\<rparr>) ?w1)"
    by (rule wf_remove_registration) (simp add: emptied_def)
  from wf_set_queue [OF this,
      of "(w_q w q)\<lparr>q_consumers := gm_del c (q_consumers (w_q w q)),
            q_messages := rev (returnedMessages \<pi> c (w_c w c)) @ q_messages (w_q w q)\<rparr>" q]
  show ?thesis by (simp add: unregisterConsumer_eq [OF assms(2) True ok] world_norm)
qed

lemma wf_takeMessage:
  assumes "wf_world w" "q < w_nq w" "gm_has c (q_consumers (w_q w q))" "hasRoom (w_c w c)"
  shows "wf_world (takeMessage q c msg w)"
proof -
  from wf_registered(2,3) [OF assms(1,2,3)] have c: "c < w_nc w" "c_queue (w_c w c) = q" by auto
  have "wf_world (w\<lparr>w_c := (w_c w)(c := holdMessage msg (w_c w c))\<rparr>)"
    using assms(3) c
    by (intro wf_set_consumer [OF assms(1) c(1) consumer_ok_hold [OF wf_consumer(1) [OF assms(1) c(1)] assms(4)]])
      simp_all
  from wf_set_queue [OF this, of "(w_q w q)\<lparr>q_messages := tl (q_messages (w_q w q))\<rparr>" q]
  show ?thesis by (simp add: takeMessage_def world_norm)
qed

lemma wf_putBack:
  assumes "wf_world w" "c < w_nc w" "gm_has (m_DeliveryTag msg) (c_pendingMessages (w_c w c))"
  shows "wf_world (putBack q c msg w)"
proof -
  have reg: "gm_has c (q_consumers (w_q w (c_queue (w_c w c))))"
    using wf_consumer(5) [OF assms(1,2)] assms(3) by (metis gm_has_Nil)
  have "wf_world (w\<lparr>w_c := (w_c w)(c := releaseMessage (m_DeliveryTag msg) (w_c w c))\<rparr>)"
    using reg
    by (intro wf_set_consumer [OF assms(1,2) consumer_ok_release [OF wf_consumer(1) [OF assms(1,2)] assms(3)]])
      simp_all
  from wf_set_queue [OF this, of "pushFront msg (w_q w q)" q]
  show ?thesis by (simp add: putBack_def pushFront_def world_norm)
qed

lemma selectConsumer_Some:
  assumes "orders_ok \<pi>" "selectConsumer \<pi> q w = Some c"
  shows "gm_has c (q_consumers (w_q w q))" "hasRoom (w_c w c)"
  using assms orders_set(2) [OF assms(1)]
  by (auto simp: selectConsumer_def gm_has_def find_Some_iff dest: nth_mem)

lemma selectConsumer_None:
  assumes "orders_ok \<pi>"
  shows "selectConsumer \<pi> q w = None \<longleftrightarrow> (\<forall>c. gm_has c (q_consumers (w_q w q)) \<longrightarrow> \<not> hasRoom (w_c w c))"
  using orders_set(2) [OF assms]
  by (auto simp: selectConsumer_def gm_has_def find_None_iff)

text \<open>The three outcomes of a turn.\<close>

lemma dispatchOnce_cases [consumes 1, case_names Wait Deliver Fail]:
  assumes "dispatchOnce \<pi> q w = (r, w')"
  obtains "r = Waits" "w' = w" "q_messages (w_q w q) = [] \<or> selectConsumer \<pi> q w = None"
  | c msg ms w2 where "q_messages (w_q w q) = msg # ms" "selectConsumer \<pi> q w = Some c"
      "r = Delivers c msg" "same_broker (takeMessage q c msg w) w2"
      "w' = upd_m (\<lambda>M. M\<lparr>mt_Delivered := inc (q_name (w_q w q)) (mt_Delivered M)\<rparr>) w2"
  | c msg ms w2 where "q_messages (w_q w q) = msg # ms" "selectConsumer \<pi> q w = Some c"
      "r = DeliverFails c msg" "same_broker (takeMessage q c msg w) w2"
      "w' = putBack q c msg (upd_m (\<lambda>M. M\<lparr>mt_DeliverErrors := inc (q_name (w_q w q)) (mt_DeliverErrors M)\<rparr>) w2)"
proof (cases "q_messages (w_q w q)")
  case Nil
  then show ?thesis using assms that(1) by (simp add: dispatchOnce_def)
next
  case (Cons msg ms)
  show ?thesis
  proof (cases "selectConsumer \<pi> q w")
    case None
    with Cons show ?thesis using assms that(1) by (simp add: dispatchOnce_def)
  next
    case (Some c)
    let ?w1 = "takeMessage q c msg w"
    let ?chan = "w_ch ?w1 (c_channel (w_c ?w1 c))"
    obtain e w2 where W: "WriteEnvelope (ch_conn ?chan) (ch_id ?chan) BasicDeliverType 0
        (deliverFrame (w_c ?w1 c) msg) ?w1 = (e, w2)" by fastforce
    have sb: "same_broker ?w1 w2" using same_broker_WriteEnvelope W by (metis snd_conv)
    have nm: "q_name (w_q ?w1 q) = q_name (w_q w q)" by (simp add: takeMessage_def)
    show ?thesis
    proof (cases e)
      case None
      with W assms Cons Some have "r = Delivers c msg"
        "w' = upd_m (\<lambda>M. M\<lparr>mt_Delivered := inc (q_name (w_q w q)) (mt_Delivered M)\<rparr>) w2"
        by (simp_all add: dispatchOnce_def Let_def nm)
      with that(2) [OF Cons Some _ sb] show ?thesis by blast
    next
      case (Some e')
      with W assms Cons \<open>selectConsumer \<pi> q w = Some c\<close> have "r = DeliverFails c msg"
        "w' = putBack q c msg (upd_m (\<lambda>M. M\<lparr>mt_DeliverErrors := inc (q_name (w_q w q)) (mt_DeliverErrors M)\<rparr>) w2)"
        by (simp_all add: dispatchOnce_def Let_def nm)
      with that(3) [OF Cons \<open>selectConsumer \<pi> q w = Some c\<close> _ sb] show ?thesis by blast
    qed
  qed
qed

lemma holds_after_take: "gm_has (m_DeliveryTag msg) (c_pendingMessages (holdMessage msg C))"
  by (simp add: holdMessage_def gm_has_def gm.keys_put)

lemma takeMessage_simps [simp]:
  "w_c (takeMessage q c msg w) c = holdMessage msg (w_c w c)"
  "w_nc (takeMessage q c msg w) = w_nc w" "w_nq (takeMessage q c msg w) = w_nq w"
  by (simp_all add: takeMessage_def)

lemma wf_dispatchOnce [wf_intros]:
  assumes wf: "wf_world w" and "orders_ok \<pi>" and q: "q < w_nq w"
  shows "wf_world (snd (dispatchOnce \<pi> q w))"
proof -
  obtain r w' where D: "dispatchOnce \<pi> q w = (r, w')" by fastforce
  then show ?thesis
  proof (cases rule: dispatchOnce_cases)
    case Wait
    with wf D show ?thesis by simp
  next
    case (Deliver c msg ms w2)
    note c = selectConsumer_Some [OF assms(2) Deliver(2)]
    have "wf_world w2"
      using wf_world_same_broker [OF Deliver(4) wf_takeMessage [OF wf q c]] .
    with Deliver D show ?thesis by simp
  next
    case (Fail c msg ms w2)
    note c = selectConsumer_Some [OF assms(2) Fail(2)]
    have w2: "wf_world w2"
      using wf_world_same_broker [OF Fail(4) wf_takeMessage [OF wf q c]] .
    let ?w3 = "upd_m (\<lambda>M. M\<lparr>mt_DeliverErrors := inc (q_name (w_q w q)) (mt_DeliverErrors M)\<rparr>) w2"
    have "w_c ?w3 c = holdMessage msg (w_c w c)" "c < w_nc ?w3" "wf_world ?w3"
      using same_broker_simps [OF Fail(4)] wf_registered(2) [OF wf q c(1)] w2 by simp_all
    then have "wf_world (putBack q c msg ?w3)"
      by (intro wf_putBack) (simp_all only: holds_after_take)
    with Fail(5) D show ?thesis by (simp only: snd_conv)
  qed
qed

section \<open>No operation of a queue loses or duplicates a message\<close>

lemma not_registered_elsewhere:
  assumes "wf_world w" "q < w_nq w" "gm_has c (q_consumers (w_q w q))" "q' < w_nq w" "q' \<noteq> q"
  shows "\<not> gm_has c (q_consumers (w_q w q'))"
  using wf_registered(3) [OF assms(1,2,3)] wf_registered(3) [OF assms(1,4)] assms(5) by blast

lemma contents_enqueue:
  "contents (enqueue q msg w) q' = (if q' = q then add_mset msg (contents w q) else contents w q')"
  by (auto simp: contents_def held_def enqueue_def)

lemma contents_register:
  assumes "c_pendingMessages (w_c w c) = []"
  shows "contents (registerConsumer q c w) q' = contents w q'"
proof -
  have "held (registerConsumer q c w) q = held w q"
    using assms
    by (cases "c \<in> set (gm_keys (q_consumers (w_q w q)))")
      (simp_all add: held_def registerConsumer_def gm.keys_put pend_def insert_absorb)
  then show ?thesis
    by (cases "q' = q") (simp_all add: contents_def held_def registerConsumer_def)
qed

lemma contents_unregister:
  assumes wf: "wf_world w" and \<pi>: "orders_ok \<pi>" and q: "q < w_nq w" "q' < w_nq w"
  shows "contents (unregisterConsumer \<pi> q c w) q' = contents w q'"
proof (cases "gm_has c (q_consumers (w_q w q))")
  case False
  then show ?thesis by (simp add: unregisterConsumer_absent)
next
  case True
  note ok = wf_consumer(1) [OF wf wf_registered(2) [OF wf q(1) True]]
  let ?w' = "unregisterConsumer \<pi> q c w"
  note eq = unregisterConsumer_eq [OF \<pi> True ok]
  show ?thesis
  proof (cases "q' = q")
    case False
    have "held ?w' q' = held w q'"
      by (rule held_cong) (use False not_registered_elsewhere [OF wf q(1) True q(2)] in \<open>auto simp: eq\<close>)
    with False show ?thesis by (simp add: contents_def eq)
  next
    case q': True
    have "held ?w' q = (\<Sum>c' \<in> set (gm_keys (q_consumers (w_q w q))) - {c}. pend (w_c w c'))"
      by (simp add: held_def eq gm.keys_del)
    then have "held w q = pend (w_c w c) + held ?w' q" using held_split [OF True] by simp
    moreover have "mset (returnedMessages \<pi> c (w_c w c)) = pend (w_c w c)"
      using ok by (intro mset_returnedMessages [OF \<pi>]) (simp add: consumer_ok_def)
    moreover have "mset (q_messages (w_q ?w' q)) =
        mset (returnedMessages \<pi> c (w_c w c)) + mset (q_messages (w_q w q))"
      by (simp add: eq)
    ultimately show ?thesis by (simp add: contents_def q' ac_simps)
  qed
qed

lemma contents_takeMessage:
  assumes wf: "wf_world w" and q: "q < w_nq w" "q' < w_nq w" and c: "gm_has c (q_consumers (w_q w q))"
    and ms: "q_messages (w_q w q) = msg # ms"
    and fresh: "\<not> gm_has (m_DeliveryTag msg) (c_pendingMessages (w_c w c))"
  shows "contents (takeMessage q c msg w) q' = contents w q'"
proof (cases "q' = q")
  case False
  have "held (takeMessage q c msg w) q' = held w q'"
    by (rule held_cong)
      (use False not_registered_elsewhere [OF wf q(1) c q(2)] in \<open>auto simp: takeMessage_def\<close>)
  with False show ?thesis by (simp add: contents_def takeMessage_def)
next
  case True
  let ?w1 = "upd_q q (\<lambda>Q. Q\<lparr>q_messages := tl (q_messages Q)\<rparr>) w"
  have "held (takeMessage q c msg w) q + pend (w_c w c) = held ?w1 q + pend (holdMessage msg (w_c w c))"
    using held_upd_in [of c ?w1 q "holdMessage msg (w_c w c)"] c by (simp add: takeMessage_def)
  then have "held (takeMessage q c msg w) q = add_mset msg (held w q)"
    by (simp add: pend_hold [OF fresh] held_def)
  then show ?thesis by (simp add: contents_def True ms takeMessage_def)
qed

lemma contents_release:
  assumes wf: "wf_world w" and q: "q < w_nq w" "q' < w_nq w" and c: "gm_has c (q_consumers (w_q w q))"
    and m: "gm_get (c_pendingMessages (w_c w c)) t = Some m"
  shows "contents w q' =
    (if q' = q then add_mset m (contents (upd_c c (releaseMessage t) w) q')
     else contents (upd_c c (releaseMessage t) w) q')"
proof (cases "q' = q")
  case False
  then show ?thesis
    using held_upd_out [OF not_registered_elsewhere [OF wf q(1) c q(2) False]]
    by (simp add: contents_def)
next
  case True
  note pr = pend_release [OF wf_consumer(1) [OF wf wf_registered(2) [OF wf q(1) c]] m]
  have "held (upd_c c (releaseMessage t) w) q + pend (w_c w c) =
      held w q + pend (releaseMessage t (w_c w c))"
    using held_upd_in [OF c] by simp
  then have "held w q = add_mset m (held (upd_c c (releaseMessage t) w) q)"
    by (simp add: pr)
  then show ?thesis by (simp add: contents_def True)
qed

lemma contents_putBack:
  assumes wf: "wf_world w" and q: "q < w_nq w" "q' < w_nq w" and c: "gm_has c (q_consumers (w_q w q))"
    and m: "gm_get (c_pendingMessages (w_c w c)) (m_DeliveryTag msg) = Some msg"
  shows "contents (putBack q c msg w) q' = contents w q'"
proof -
  have "contents (putBack q c msg w) q' =
      (if q' = q then add_mset msg (contents (upd_c c (releaseMessage (m_DeliveryTag msg)) w) q')
       else contents (upd_c c (releaseMessage (m_DeliveryTag msg)) w) q')"
    by (simp add: contents_def held_def putBack_def pushFront_def)
  with contents_release [OF wf q c m] show ?thesis by simp
qed

text \<open>Distinct live tags: the tag of a waiting message is not in use by a consumer.\<close>

lemma waiting_tag_fresh:
  assumes ok: "consumer_ok (w_c w c)" and c: "gm_has c (q_consumers (w_q w q))"
    and dt: "distinct_tags (contents w q)" and m: "m \<in> set (q_messages (w_q w q))"
  shows "\<not> gm_has (m_DeliveryTag m) (c_pendingMessages (w_c w c))"
proof
  assume "gm_has (m_DeliveryTag m) (c_pendingMessages (w_c w c))"
  then have used: "m_DeliveryTag m \<in> m_DeliveryTag ` set_mset (pend (w_c w c))"
    by (simp add: tags_of_pending [OF ok] gm_has_def)
  obtain R where "mset (q_messages (w_q w q)) = add_mset m R"
    using m by (metis insert_DiffM set_mset_mset)
  then have "contents w q = add_mset m (R + held w q)" by (simp add: contents_def)
  with dt have "m_DeliveryTag m \<notin> m_DeliveryTag ` set_mset (R + held w q)"
    by (simp add: distinct_tags_add_iff)
  with used held_split [OF c] show False by auto
qed

lemma contents_dispatchOnce:
  assumes wf: "wf_world w" and \<pi>: "orders_ok \<pi>" and q: "q < w_nq w" "q' < w_nq w"
    and dt: "distinct_tags (contents w q)"
  shows "contents (snd (dispatchOnce \<pi> q w)) q' = contents w q'"
proof -
  obtain r w' where D: "dispatchOnce \<pi> q w = (r, w')" by fastforce
  then show ?thesis
  proof (cases rule: dispatchOnce_cases)
    case Wait
    with D show ?thesis by simp
  next
    case (Deliver c msg ms w2)
    note c = selectConsumer_Some [OF \<pi> Deliver(2)]
    have "\<not> gm_has (m_DeliveryTag msg) (c_pendingMessages (w_c w c))"
      using waiting_tag_fresh [OF wf_consumer(1) [OF wf wf_registered(2) [OF wf q(1) c(1)]] c(1) dt]
      by (simp add: Deliver(1))
    from contents_takeMessage [OF wf q c(1) Deliver(1) this] contents_same_broker [OF Deliver(4)]
    show ?thesis using D Deliver(5) by simp
  next
    case (Fail c msg ms w2)
    note c = selectConsumer_Some [OF \<pi> Fail(2)]
    have "\<not> gm_has (m_DeliveryTag msg) (c_pendingMessages (w_c w c))"
      using waiting_tag_fresh [OF wf_consumer(1) [OF wf wf_registered(2) [OF wf q(1) c(1)]] c(1) dt]
      by (simp add: Fail(1))
    note take = contents_takeMessage [OF wf q c(1) Fail(1) this] contents_same_broker [OF Fail(4)]
    let ?w3 = "upd_m (\<lambda>M. M\<lparr>mt_DeliverErrors := inc (q_name (w_q w q)) (mt_DeliverErrors M)\<rparr>) w2"
    have w3: "wf_world ?w3"
      using wf_world_same_broker [OF Fail(4) wf_takeMessage [OF wf q(1) c]] by simp
    have "contents (putBack q c msg ?w3) q' = contents ?w3 q'"
      using q c(1) same_broker_simps [OF Fail(4)]
      by (intro contents_putBack [OF w3]) (simp_all add: takeMessage_def holdMessage_def gm.get_put)
    with take D Fail(5) show ?thesis by simp
  qed
qed

section \<open>Every operation of a queue keeps the accounts\<close>

lemma accounts_keep:
  assumes "accounts_ok w" "w_nq w' = w_nq w" "w_queues w' = w_queues w"
    and "mt_Enqueued (w_metrics w') = mt_Enqueued (w_metrics w)"
    and "settled (w_metrics w') = settled (w_metrics w)"
    and "\<And>q. q < w_nq w \<Longrightarrow> q_name (w_q w' q) = q_name (w_q w q)"
    and "\<And>q. q < w_nq w \<Longrightarrow> q_nextTag (w_q w' q) = q_nextTag (w_q w q)"
    and "\<And>q. q < w_nq w \<Longrightarrow> mt_Enqueued (w_metrics w) (q_name (w_q w q)) \<le> tag_space \<Longrightarrow>
          contents w' q = contents w q"
    and "\<And>q c. q < w_nq w \<Longrightarrow> mt_Enqueued (w_metrics w) (q_name (w_q w q)) \<le> tag_space \<Longrightarrow>
          gm_has c (q_consumers (w_q w' q)) \<Longrightarrow> consumer_exact (w_c w' c)"
  shows "accounts_ok w'"
proof -
  have "account_ok w' q" if "q < w_nq w" for q
    by (rule account_frame [of w]) (use assms that in \<open>auto simp: accounts_ok_def\<close>)
  with assms(1-5) show ?thesis by (simp add: accounts_ok_def)
qed

lemma accountsD:
  assumes "accounts_ok w" "q < w_nq w"
  shows "account_ok w q"
  using assms by (simp add: accounts_ok_def)

lemma accounts_same_broker: "same_broker w w' \<Longrightarrow> accounts_ok w \<Longrightarrow> accounts_ok w'"
  by (rule accounts_keep [of w])
    (auto simp: same_broker_simps contents_same_broker dest: accountsD account_tags(2))

lemma accounts_metrics:
  assumes "accounts_ok w" "mt_Enqueued M = mt_Enqueued (w_metrics w)" "settled M = settled (w_metrics w)"
  shows "accounts_ok (w\<lparr>w_metrics := M\<rparr>)"
  by (rule accounts_keep [OF assms(1)]) (use assms in \<open>auto dest: accountsD account_tags(2)\<close>)

lemma accounts_register:
  assumes "wf_world w" "accounts_ok w" "c_pendingMessages (w_c w c) = []" "c_inflight (w_c w c) = 0"
  shows "accounts_ok (registerConsumer q c w)"
proof (rule accounts_keep [OF assms(2)])
  fix q' c' assume q': "q' < w_nq w" "mt_Enqueued (w_metrics w) (q_name (w_q w q')) \<le> tag_space"
    and reg: "gm_has c' (q_consumers (w_q (registerConsumer q c w) q'))"
  have "c' = c \<or> gm_has c' (q_consumers (w_q w q'))"
    using reg by (auto simp: registerConsumer_def gm_has_def gm.keys_put split: if_splits)
  moreover have "consumer_exact (w_c w c)" using assms(3,4) by (simp add: consumer_exact_def)
  ultimately show "consumer_exact (w_c (registerConsumer q c w) c')"
    using account_tags(2) [OF accountsD [OF assms(2) q'(1)] q'(2)] by (auto simp: registerConsumer_def)
qed (simp_all add: contents_register [OF assms(3)], simp_all add: registerConsumer_def)

lemma settled_unregister [simp]:
  "settled (M\<lparr>mt_ConsumersUnregistered := x\<rparr>) = settled M"
  "settled (M\<lparr>mt_ConsumersRegistered := x\<rparr>) = settled M"
  "settled (M\<lparr>mt_Delivered := x\<rparr>) = settled M"
  "settled (M\<lparr>mt_DeliverErrors := x\<rparr>) = settled M"
  "settled (M\<lparr>mt_Enqueued := x\<rparr>) = settled M"
  "settled (M\<lparr>mt_Published := x\<rparr>) = settled M"
  "settled (M\<lparr>mt_PublishUnroutable := x\<rparr>) = settled M"
  "settled (M\<lparr>mt_PublishErrors := y\<rparr>) = settled M"
  "settled (M\<lparr>mt_Nacked := z\<rparr>) = settled M"
  "settled (M\<lparr>mt_ConnectionsOpened := y\<rparr>) = settled M"
  "settled (M\<lparr>mt_ConnectionsClosed := y\<rparr>) = settled M"
  "settled (M\<lparr>mt_HandshakeFailures := y\<rparr>) = settled M"
  by (simp_all add: settled_def fun_eq_iff)

lemma accounts_unregister:
  assumes wf: "wf_world w" and ac: "accounts_ok w" and \<pi>: "orders_ok \<pi>" and q: "q < w_nq w"
  shows "accounts_ok (unregisterConsumer \<pi> q c w)"
proof (cases "gm_has c (q_consumers (w_q w q))")
  case False
  with ac show ?thesis by (simp add: unregisterConsumer_absent)
next
  case True
  note eq = unregisterConsumer_eq [OF \<pi> True wf_consumer(1) [OF wf wf_registered(2) [OF wf q True]]]
  show ?thesis
  proof (rule accounts_keep [OF ac])
    fix q' assume q': "q' < w_nq w" "mt_Enqueued (w_metrics w) (q_name (w_q w q')) \<le> tag_space"
    show "contents (unregisterConsumer \<pi> q c w) q' = contents w q'"
      by (rule contents_unregister [OF wf \<pi> q q'(1)])
    fix c' assume reg: "gm_has c' (q_consumers (w_q (unregisterConsumer \<pi> q c w) q'))"
    then have "gm_has c' (q_consumers (w_q w q'))"
      by (auto simp: eq gm_has_def gm.keys_del split: if_splits)
    moreover have "c' \<noteq> c"
      using reg not_registered_elsewhere [OF wf q True q'(1)]
      by (cases "q' = q") (auto simp: eq gm_has_def gm.keys_del)
    ultimately show "consumer_exact (w_c (unregisterConsumer \<pi> q c w) c')"
      using account_tags(2) [OF accountsD [OF ac q'(1)] q'(2)] by (simp add: eq)
  qed (simp_all add: eq)
qed

lemma exact_takeMessage:
  assumes wf: "wf_world w" and ac: "accounts_ok w" and q: "q < w_nq w" "q' < w_nq w"
    and c: "gm_has c (q_consumers (w_q w q))" and msg: "msg \<in> set (q_messages (w_q w q))"
    and low: "mt_Enqueued (w_metrics w) (q_name (w_q w q')) \<le> tag_space"
    and reg: "gm_has c' (q_consumers (w_q w q'))"
  shows "consumer_exact (w_c (takeMessage q c msg w) c')"
proof (cases "c' = c")
  case False
  with account_tags(2) [OF accountsD [OF ac q(2)] low reg] show ?thesis by (simp add: takeMessage_def)
next
  case True
  with reg not_registered_elsewhere [OF wf q(1) c q(2)] have "q' = q" by auto
  note ok = wf_consumer(1) [OF wf wf_registered(2) [OF wf q(1) c]]
  have "\<not> gm_has (m_DeliveryTag msg) (c_pendingMessages (w_c w c))"
    using waiting_tag_fresh [OF ok c account_tags(1) [OF accountsD [OF ac q(1)]] msg] low \<open>q' = q\<close> by simp
  with consumer_exact_hold [OF ok] account_tags(2) [OF accountsD [OF ac q(2)] low reg] True
  show ?thesis by simp
qed

lemma dispatchOnce_frame:
  assumes "dispatchOnce \<pi> q w = (r, w')"
  shows "w_nq w' = w_nq w" "w_queues w' = w_queues w" "q_name (w_q w' q') = q_name (w_q w q')"
    "q_nextTag (w_q w' q') = q_nextTag (w_q w q')" "q_consumers (w_q w' q') = q_consumers (w_q w q')"
    "mt_Enqueued (w_metrics w') = mt_Enqueued (w_metrics w)"
    "settled (w_metrics w') = settled (w_metrics w)"
  using assms by (cases rule: dispatchOnce_cases;
      simp add: same_broker_simps takeMessage_def putBack_def pushFront_def)+

lemma accounts_dispatchOnce:
  assumes wf: "wf_world w" and ac: "accounts_ok w" and \<pi>: "orders_ok \<pi>" and q: "q < w_nq w"
  shows "accounts_ok (snd (dispatchOnce \<pi> q w))"
proof -
  obtain r w' where D: "dispatchOnce \<pi> q w = (r, w')" by fastforce
  note fr = dispatchOnce_frame [OF D]
  show ?thesis unfolding D snd_conv
  proof (cases "mt_Enqueued (w_metrics w) (q_name (w_q w q)) \<le> tag_space")
    case low: True
    note dt = account_tags(1) [OF accountsD [OF ac q] low]
    show "accounts_ok w'"
    proof (rule accounts_keep [OF ac])
      fix q' assume q': "q' < w_nq w" "mt_Enqueued (w_metrics w) (q_name (w_q w q')) \<le> tag_space"
      show "contents w' q' = contents w q'"
        using contents_dispatchOnce [OF wf \<pi> q q'(1) dt] by (simp add: D)
      fix c' assume "gm_has c' (q_consumers (w_q w' q'))"
      then have reg: "gm_has c' (q_consumers (w_q w q'))" by (simp add: fr)
      from D show "consumer_exact (w_c w' c')"
      proof (cases rule: dispatchOnce_cases)
        case Wait
        with account_tags(2) [OF accountsD [OF ac q'(1)] q'(2) reg] show ?thesis by simp
      next
        case (Deliver c msg ms w2)
        from exact_takeMessage [OF wf ac q q'(1) selectConsumer_Some(1) [OF \<pi> Deliver(2)] _ q'(2) reg]
        show ?thesis using Deliver same_broker_simps [OF Deliver(4)] by simp
      next
        case (Fail c msg ms w2)
        note c = selectConsumer_Some [OF \<pi> Fail(2)]
        have ex: "consumer_exact (w_c (takeMessage q c msg w) c')"
          using exact_takeMessage [OF wf ac q q'(1) c(1) _ q'(2) reg] Fail(1) by simp
        have "consumer_ok (w_c (takeMessage q c msg w) c)"
          using wf_consumer(1) [OF wf_takeMessage [OF wf q c], of c msg] wf_registered(2) [OF wf q c(1)]
          by (simp only: takeMessage_simps)
        then show ?thesis
          using ex Fail(5) same_broker_simps [OF Fail(4)] consumer_exact_release [OF _ _ holds_after_take]
          by (auto simp: putBack_def)
      qed
    qed (simp_all add: fr)
  next
    case high: False
    show "accounts_ok w'"
    proof (rule accounts_keep [OF ac])
      fix q' assume q': "q' < w_nq w" "mt_Enqueued (w_metrics w) (q_name (w_q w q')) \<le> tag_space"
      with high have ne: "q' \<noteq> q" by auto
      have same: "q_messages (w_q w' q') = q_messages (w_q w q')"
        "gm_has c' (q_consumers (w_q w q')) \<Longrightarrow> w_c w' c' = w_c w c'" for c'
        using D ne not_registered_elsewhere [OF wf q selectConsumer_Some(1) [OF \<pi>] q'(1) ne]
        by (cases rule: dispatchOnce_cases;
            fastforce simp: same_broker_simps takeMessage_def putBack_def)+
      show "contents w' q' = contents w q'"
        using held_cong [of w' q' w] same by (simp add: contents_def fr)
      fix c' assume "gm_has c' (q_consumers (w_q w' q'))"
      then show "consumer_exact (w_c w' c')"
        using same(2) account_tags(2) [OF accountsD [OF ac q'(1)] q'(2)] by (simp add: fr)
    qed (simp_all add: fr)
  qed
qed

end
