(* ===== verification/ExchangeOps.thy ===== *)
theory ExchangeOps
  imports QueueProps
begin

text \<open>
  Exchanges: \<^verbatim>\<open>broker/exchange.go\<close>. The locale \<open>routing\<close> is what publishing relies on: a binding
  adds its queue under its routing key and nothing else, and a lookup lists every bound queue once.
  It is interpreted on \<open>bind\<close> and \<open>getQueues\<close>.
\<close>

section \<open>Operations\<close>

definition NewExchange :: "string \<Rightarrow> Exchange" where
  "NewExchange name = \<lparr>e_name = name, e_bindings = []\<rparr>"

definition bind :: "eref \<Rightarrow> qref \<Rightarrow> string \<Rightarrow> world \<Rightarrow> world" where
  "bind e q routingkey w =
     upd_e e (\<lambda>E.
       let bs = (if gm_get (e_bindings E) routingkey = None
                 then gm_put routingkey [] (e_bindings E) else e_bindings E);
           m = (case gm_get bs routingkey of Some m \<Rightarrow> m | None \<Rightarrow> [])
       in E\<lparr>e_bindings := gm_put routingkey (gm_put (q_name (w_q w q)) q m) bs\<rparr>) w"

text \<open>
  The loop over all bindings keeps those of the requested key; at most one entry matches, so only
  the order of the inner map matters.
\<close>

definition getQueues :: "orders \<Rightarrow> eref \<Rightarrow> string \<Rightarrow> world \<Rightarrow> qref list" where
  "getQueues \<pi> e routingKey w =
     concat (map (\<lambda>(rk, qmap).
               if rk = routingKey then entries_in (o_bindings \<pi> e (gm_keys qmap)) qmap else [])
       (e_bindings (w_e w e)))"

section \<open>The loop is a lookup\<close>

definition boundMap :: "eref \<Rightarrow> string \<Rightarrow> world \<Rightarrow> (string, qref) gomap" where
  "boundMap e rk w = (case gm_get (e_bindings (w_e w e)) rk of Some m \<Rightarrow> m | None \<Rightarrow> [])"

lemma concat_matching:
  "gm_wf bs \<Longrightarrow> concat (map (\<lambda>(rk, v). if rk = k then f v else []) bs) =
     (case gm_get bs k of Some v \<Rightarrow> f v | None \<Rightarrow> [])"
proof (induction bs)
  case (Cons p bs)
  obtain rk v where p: "p = (rk, v)" by fastforce
  from Cons.prems p have "gm_wf bs" "rk \<notin> set (gm_keys bs)" by (auto simp: gm_wf_def)
  moreover from this have "gm_get bs rk = None" using gm.get_keys by fastforce
  ultimately show ?case using Cons.IH p by (auto split: option.splits)
qed simp

lemma getQueues_eq:
  assumes "wf_world w" "e < w_ne w"
  shows "getQueues \<pi> e rk w = entries_in (o_bindings \<pi> e (gm_keys (boundMap e rk w))) (boundMap e rk w)
         \<or> (getQueues \<pi> e rk w = [] \<and> boundMap e rk w = [])"
  unfolding getQueues_def boundMap_def concat_matching [OF wf_exchange_bindings(1) [OF assms]]
  by (auto split: option.split)

lemma wf_boundMap: "wf_world w \<Longrightarrow> e < w_ne w \<Longrightarrow> gm_wf (boundMap e rk w)"
  using wf_exchange_bindings(2) by (auto simp: boundMap_def split: option.split)

lemma mset_getQueues:
  assumes "wf_world w" "e < w_ne w" "orders_ok \<pi>"
  shows "mset (getQueues \<pi> e rk w) = mset (map snd (boundMap e rk w))"
  using getQueues_eq [OF assms(1,2), of \<pi> rk]
    mset_entries_in [OF orders_range(1) [OF assms(3)] wf_boundMap [OF assms(1,2)]]
  by (metis mset_zero_iff_right list.simps(8) mset.simps(1))

lemma set_getQueues:
  assumes "wf_world w" "e < w_ne w" "orders_ok \<pi>"
  shows "set (getQueues \<pi> e rk w) = snd ` set (boundMap e rk w)"
  using mset_getQueues [OF assms, of rk] by (metis set_map set_mset_mset)

text \<open>Queues are bound under their names, so no queue is listed twice.\<close>

lemma boundMap_entry:
  assumes "wf_world w" "e < w_ne w" "(n, q) \<in> set (boundMap e rk w)"
  shows "q < w_nq w" "q_name (w_q w q) = n"
proof -
  have "gm_get (boundMap e rk w) n = Some q"
    using assms(3) gm_get_wf [OF wf_boundMap [OF assms(1,2)]] by simp
  then obtain m where "gm_get (e_bindings (w_e w e)) rk = Some m" "gm_get m n = Some q"
    by (auto simp: boundMap_def split: option.splits)
  then show "q < w_nq w" "q_name (w_q w q) = n"
    using wf_exchange_bindings(3,4) [OF assms(1,2)] by blast+
qed

lemma distinct_getQueues:
  assumes "wf_world w" "e < w_ne w" "orders_ok \<pi>"
  shows "distinct (getQueues \<pi> e rk w)"
proof -
  have "fst p = q_name (w_q w (snd p))" if "p \<in> set (boundMap e rk w)" for p
    using boundMap_entry(2) [OF assms(1,2), of "fst p" "snd p"] that by simp
  then have "gm_keys (boundMap e rk w) = map (q_name \<circ> w_q w) (map snd (boundMap e rk w))"
    by (simp add: gm_keys_def)
  with wf_boundMap [OF assms(1,2)] have "distinct (map snd (boundMap e rk w))"
    unfolding gm_wf_def by (metis distinct_map)
  with mset_getQueues [OF assms] show ?thesis by (metis mset_eq_imp_distinct_iff)
qed

lemma getQueues_valid:
  assumes "wf_world w" "e < w_ne w" "orders_ok \<pi>" "q \<in> set (getQueues \<pi> e rk w)"
  shows "q < w_nq w"
  using assms(4) boundMap_entry(1) [OF assms(1,2)] by (auto simp: set_getQueues [OF assms(1-3)])

section \<open>Binding\<close>

lemma boundMap_bind:
  "boundMap e rk (bind e q rk' w) =
     (if rk = rk' then gm_put (q_name (w_q w q)) q (boundMap e rk w) else boundMap e rk w)"
  by (auto simp: boundMap_def bind_def Let_def gm.get_put split: option.split)

lemma bind_frame [simp]:
  "w_q (bind e q rk w) = w_q w" "w_nq (bind e q rk w) = w_nq w" "w_ne (bind e q rk w) = w_ne w"
  "w_c (bind e q rk w) = w_c w" "w_metrics (bind e q rk w) = w_metrics w"
  "w_queues (bind e q rk w) = w_queues w" "w_exchanges (bind e q rk w) = w_exchanges w"
  by (simp_all add: bind_def)

lemma bindings_bind:
  "e_bindings (w_e (bind e q rk w) e) = gm_put rk (gm_put (q_name (w_q w q)) q (boundMap e rk w))
     (if gm_get (e_bindings (w_e w e)) rk = None then gm_put rk [] (e_bindings (w_e w e))
      else e_bindings (w_e w e))"
  by (auto simp: bind_def Let_def boundMap_def gm.get_put split: option.split)

lemma wf_bind [wf_intros]:
  assumes wf: "wf_world w" and "e < w_ne w" "q < w_nq w"
  shows "wf_world (bind e q rk w)"
proof -
  have ent: "q' < w_nq w \<and> q_name (w_q w q') = n" if "gm_get (boundMap e rk w) n = Some q'" for n q'
    using boundMap_entry [OF wf assms(2) gm_get_in [OF that]] by simp
  have "gm_wf m \<and> (\<forall>n q'. gm_get m n = Some q' \<longrightarrow> q' < w_nq w \<and> q_name (w_q w q') = n)"
    if "gm_get (e_bindings (w_e (bind e q rk w) e)) rk' = Some m" for rk' m
  proof (cases "rk' = rk")
    case True
    with that have "m = gm_put (q_name (w_q w q)) q (boundMap e rk w)"
      by (simp add: bindings_bind gm.get_put)
    with ent assms(3) wf_boundMap [OF wf assms(2)] show ?thesis by (simp add: gm.wf_put gm.get_put)
  next
    case False
    with that have "gm_get (e_bindings (w_e w e)) rk' = Some m"
      by (simp add: bindings_bind gm.get_put split: if_splits)
    then show ?thesis using wf_exchange_bindings(2-4) [OF wf assms(2)] by blast
  qed
  note here = this
  have "gm_wf (e_bindings (w_e (bind e q rk w) e'))
      \<and> (\<forall>rk' m. gm_get (e_bindings (w_e (bind e q rk w) e')) rk' = Some m \<longrightarrow>
           gm_wf m \<and> (\<forall>n q'. gm_get m n = Some q' \<longrightarrow> q' < w_nq w \<and> q_name (w_q w q') = n))"
    if "e' < w_ne w" for e'
  proof (cases "e' = e")
    case True
    have "gm_wf (e_bindings (w_e (bind e q rk w) e))"
      using wf_exchange_bindings(1) [OF wf assms(2)] by (simp add: bindings_bind gm.wf_put)
    with True here show ?thesis by blast
  next
    case False
    then have "w_e (bind e q rk w) e' = w_e w e'" by (simp add: bind_def)
    then show ?thesis using wf_exchange_bindings [OF wf that] by auto
  qed
  moreover have "e_name (w_e (bind e q rk w) e') = e_name (w_e w e')" for e'
    by (simp add: bind_def Let_def)
  ultimately have "exchanges_ok (bind e q rk w)"
    using wf_worldD(2) [OF wf] by (simp add: exchanges_ok_def)
  with wf show ?thesis
    by (simp add: wf_world_def queues_ok_def regs_ok_def cons_ok_def chans_ok_def conns_ok_def bind_def)
qed

lemma contents_bind [simp]: "contents (bind e q rk w) q' = contents w q'"
  by (simp add: contents_def held_def)

lemma accounts_bind: "accounts_ok w \<Longrightarrow> accounts_ok (bind e q rk w)"
  by (rule accounts_keep [of w]) (auto dest: accountsD account_tags(2))

section \<open>The routing contract\<close>

locale routing =
  fixes inv :: "'s \<Rightarrow> bool" and valid :: "'s \<Rightarrow> 'q \<Rightarrow> bool"
    and routes :: "'k \<Rightarrow> 's \<Rightarrow> 'q list" and add :: "'q \<Rightarrow> 'k \<Rightarrow> 's \<Rightarrow> 's"
  assumes inv_add: "inv s \<Longrightarrow> valid s q \<Longrightarrow> inv (add q k s)"
    and valid_add: "valid (add q k s) q' = valid s q'"
    and routes_distinct: "inv s \<Longrightarrow> distinct (routes k s)"
    and routes_add: "inv s \<Longrightarrow> valid s q \<Longrightarrow>
          set (routes k' (add q k s)) = (if k' = k then insert q (set (routes k s)) else set (routes k' s))"
begin

text \<open>Bindings in any order, repeated or not, give exactly the queues bound under a key.\<close>

lemma routes_fold:
  "inv s \<Longrightarrow> \<forall>(q, k) \<in> set bs. valid s q \<Longrightarrow>
   inv (fold (\<lambda>(q, k). add q k) bs s) \<and>
   set (routes k' (fold (\<lambda>(q, k). add q k) bs s)) = set (routes k' s) \<union> {q. (q, k') \<in> set bs}"
proof (induction bs arbitrary: s)
  case (Cons b bs)
  obtain q k where b: "b = (q, k)" by fastforce
  from Cons.prems b have v: "inv s" "valid s q" by auto
  have "\<forall>(q', k) \<in> set bs. valid (add q k s) q'"
    using Cons.prems(2) by (auto simp: valid_add)
  then have "\<forall>(q', k'') \<in> set bs. valid (add q k s) q'" by (auto simp: valid_add)
  from Cons.IH [OF inv_add [OF v] this] show ?case
    by (auto simp: b routes_add [OF v] split: if_splits)
qed simp

lemma rebind: "inv s \<Longrightarrow> valid s q \<Longrightarrow> mset (routes k' (add q k (add q k s))) = mset (routes k' (add q k s))"
  by (subst set_eq_iff_mset_eq_distinct [symmetric])
    (auto simp: routes_distinct inv_add routes_add valid_add)

end

interpretation exch: routing
  "\<lambda>w. wf_world w \<and> e < w_ne w \<and> orders_ok \<pi>" "\<lambda>w q. q < w_nq w"
  "getQueues \<pi> e" "\<lambda>q rk. bind e q rk" for \<pi> e
proof (unfold_locales, goal_cases)
  case (1 w q rk)
  then show ?case by (simp add: wf_bind)
next
  case (2 q rk w q')
  then show ?case by simp
next
  case (3 w rk)
  then show ?case by (simp add: distinct_getQueues)
next
  case (4 w q rk' rk)
  then have wf: "wf_world w" "e < w_ne w" "orders_ok \<pi>" "q < w_nq w" by auto
  have "snd ` set (gm_put (q_name (w_q w q)) q (boundMap e rk w)) = insert q (snd ` set (boundMap e rk w))"
  proof -
    have "snd p = q" if "p \<in> set (boundMap e rk w)" "fst p = q_name (w_q w q)" for p
    proof -
      from that(1) have "(fst p, snd p) \<in> set (boundMap e rk w)" by simp
      note ent = boundMap_entry [OF wf(1,2) this]
      from wf_queue_name_inj [OF wf(1) ent(1) wf(4)] ent(2) that(2) show ?thesis by simp
    qed
    then show ?thesis
      by (auto simp: set_gm_put_wf [OF wf_boundMap [OF wf(1,2)]] image_iff)
  qed
  then show ?case
    using wf by (auto simp: set_getQueues wf_bind boundMap_bind)
qed

end
