(* ===== verification/BrokerOps.thy ===== *)
theory BrokerOps
  imports ExchangeOps
begin

text \<open>
  The broker core: \<^verbatim>\<open>broker/broker.go\<close>. Declaring, binding, publishing, registering consumers and
  acknowledging, with what each does to the memory invariant, to the contents of every queue and to
  the accounts.
\<close>

section \<open>Operations\<close>

definition DeclareQueue :: "string \<Rightarrow> string \<Rightarrow> string \<Rightarrow> world \<Rightarrow> world" where
  "DeclareQueue name dlx dlxRoutingKey w =
     (case gm_get (w_queues w) name of
        None \<Rightarrow> w\<lparr>w_q := (w_q w)(w_nq w := NewQueue name dlx dlxRoutingKey),
                   w_nq := Suc (w_nq w),
                   w_queues := gm_put name (w_nq w) (w_queues w)\<rparr>
      | Some _ \<Rightarrow> w)"

definition DeclareExchange :: "string \<Rightarrow> world \<Rightarrow> world" where
  "DeclareExchange name w =
     (case gm_get (w_exchanges w) name of
        None \<Rightarrow> w\<lparr>w_e := (w_e w)(w_ne w := NewExchange name),
                   w_ne := Suc (w_ne w),
                   w_exchanges := gm_put name (w_ne w) (w_exchanges w)\<rparr>
      | Some _ \<Rightarrow> w)"

definition BindQueue :: "string \<Rightarrow> string \<Rightarrow> string \<Rightarrow> world \<Rightarrow> string option \<times> world" where
  "BindQueue exchangeName queueName routingKey w =
     (case gm_get (w_exchanges w) exchangeName of
        None \<Rightarrow> (Some ''exchange not found'', w)
      | Some ex \<Rightarrow>
          (case gm_get (w_queues w) queueName of
             None \<Rightarrow> (Some ''queue not found'', w)
           | Some q \<Rightarrow> (None, bind ex q routingKey w)))"

text \<open>The body of the loop of \<^verbatim>\<open>Publish\<close>: take the next tag, then enqueue.\<close>

definition publishTo :: "string \<Rightarrow> string \<Rightarrow> byte list \<Rightarrow> qref \<Rightarrow> world \<Rightarrow> world" where
  "publishTo exchangeName routingKey body q w =
     (let tag = q_nextTag (w_q w q)
      in enqueue q \<lparr>m_DeliveryTag = tag, m_Body = body, m_Exchange = exchangeName, m_RoutingKey = routingKey\<rparr>
           (upd_q q (\<lambda>Q. Q\<lparr>q_nextTag := q_nextTag Q + 1\<rparr>) w))"

definition Publish :: "orders \<Rightarrow> string \<Rightarrow> string \<Rightarrow> byte list \<Rightarrow> world \<Rightarrow> string option \<times> world" where
  "Publish \<pi> exchangeName routingKey body w =
     (case gm_get (w_exchanges w) exchangeName of
        None \<Rightarrow>
          (Some (''exchange '' @ quote exchangeName @ '' not found''),
           upd_m (\<lambda>M. M\<lparr>mt_PublishErrors := Suc (mt_PublishErrors M)\<rparr>) w)
      | Some ex \<Rightarrow>
          let w1 = upd_m (\<lambda>M. M\<lparr>mt_Published := inc exchangeName (mt_Published M)\<rparr>) w;
              queues = getQueues \<pi> ex routingKey w1;
              w2 = (if queues = []
                    then upd_m (\<lambda>M. M\<lparr>mt_PublishUnroutable := inc exchangeName (mt_PublishUnroutable M)\<rparr>) w1
                    else w1)
          in (None, fold (publishTo exchangeName routingKey body) queues w2))"

text \<open>
  The consumer object is only stored when it is registered; one whose tag is taken is garbage.
\<close>

definition RegisterConsumer :: "string \<Rightarrow> string \<Rightarrow> chref \<Rightarrow> world \<Rightarrow> (string + string) \<times> world" where
  "RegisterConsumer consumerTag queue ch w =
     (case gm_get (w_queues w) queue of
        None \<Rightarrow> (Inl ''queue not found'', w)
      | Some q \<Rightarrow>
          let C = NewConsumer consumerTag q ch (w_ch w ch); tag = c_tag C; c = w_nc w
          in if gm_has tag (ch_consumers (w_ch w ch)) then
               (Inl (''consumer tag '' @ quote tag @ '' already in use on channel '' @
                     formatUint 10 (unat (ch_id (w_ch w ch)))), w)
             else
               (Inr tag,
                upd_m (\<lambda>M. M\<lparr>mt_ConsumersRegistered := inc queue (mt_ConsumersRegistered M)\<rparr>)
                  (upd_ch ch (\<lambda>X. X\<lparr>ch_consumers := gm_put tag c (ch_consumers X)\<rparr>)
                    (registerConsumer q c (w\<lparr>w_c := (w_c w)(c := C), w_nc := Suc c\<rparr>)))))"

definition Ack :: "orders \<Rightarrow> string \<Rightarrow> u16 \<Rightarrow> world \<Rightarrow> string option \<times> world" where
  "Ack \<pi> queueName deliveryTag w =
     (case gm_get (w_queues w) queueName of
        None \<Rightarrow> (Some (''queue '' @ quote queueName @ '' not found''), w)
      | Some q \<Rightarrow>
          (case List.find (\<lambda>c. gm_has deliveryTag (c_inflightTags (w_c w c)))
                  (o_consumers \<pi> q (gm_keys (q_consumers (w_q w q)))) of
             Some c \<Rightarrow>
               (None, upd_m (\<lambda>M. M\<lparr>mt_Acked := inc queueName (mt_Acked M)\<rparr>)
                        (upd_c c (releaseMessage deliveryTag) w))
           | None \<Rightarrow>
               (Some (''delivery tag '' @ formatUint 10 (unat deliveryTag) @
                      '' not found in any consumer on queue '' @ quote queueName), w)))"

section \<open>Declaring\<close>

lemma DeclareQueue_known: "gm_get (w_queues w) name = Some q \<Longrightarrow> DeclareQueue name dlx rk w = w"
  by (simp add: DeclareQueue_def)

lemma DeclareExchange_known: "gm_get (w_exchanges w) name = Some e \<Longrightarrow> DeclareExchange name w = w"
  by (simp add: DeclareExchange_def)

lemma DeclareQueue_frame [simp]:
  "w_c (DeclareQueue n d k w) = w_c w" "w_nc (DeclareQueue n d k w) = w_nc w"
  "w_ch (DeclareQueue n d k w) = w_ch w" "w_nch (DeclareQueue n d k w) = w_nch w"
  "w_cn (DeclareQueue n d k w) = w_cn w" "w_ncn (DeclareQueue n d k w) = w_ncn w"
  "w_e (DeclareQueue n d k w) = w_e w" "w_ne (DeclareQueue n d k w) = w_ne w"
  "w_exchanges (DeclareQueue n d k w) = w_exchanges w" "w_metrics (DeclareQueue n d k w) = w_metrics w"
  "w_connections (DeclareQueue n d k w) = w_connections w"
  "q < w_nq w \<Longrightarrow> w_q (DeclareQueue n d k w) q = w_q w q" "w_nq w \<le> w_nq (DeclareQueue n d k w)"
  by (simp_all add: DeclareQueue_def split: option.split)

lemma wf_DeclareQueue [wf_intros]:
  assumes wf: "wf_world w"
  shows "wf_world (DeclareQueue n d k w)"
proof (cases "gm_get (w_queues w) n")
  case (Some q)
  with wf show ?thesis by (simp add: DeclareQueue_known)
next
  case None
  let ?w = "DeclareQueue n d k w"
  have eq: "w_nq ?w = Suc (w_nq w)" "w_q ?w (w_nq w) = NewQueue n d k"
    "w_queues ?w = gm_put n (w_nq w) (w_queues w)"
    by (simp_all add: DeclareQueue_def None)
  have old: "w_q ?w q = w_q w q" if "q < w_nq w" for q using that by simp
  have "queues_ok ?w"
    using wf_worldD(1) [OF wf] None old
    by (simp add: queues_ok_def eq gm.wf_put gm.get_put less_Suc_eq NewQueue_def) (metis option.distinct(1))
  moreover have "exchanges_ok ?w"
    using wf_worldD(2) [OF wf] old by (simp add: exchanges_ok_def eq) (metis less_SucI)
  moreover have "regs_ok ?w"
    using wf_worldD(3) [OF wf] old by (simp add: regs_ok_def eq less_Suc_eq NewQueue_def)
  moreover have "cons_ok ?w"
    using wf_worldD(4) [OF wf] old by (simp add: cons_ok_def eq less_Suc_eq)
  ultimately show ?thesis
    using wf by (simp add: wf_world_def chans_ok_def conns_ok_def)
qed

lemma contents_DeclareQueue: "q < w_nq w \<Longrightarrow> contents (DeclareQueue n d k w) q = contents w q"
  by (simp add: contents_def held_def)

lemma contents_new_queue:
  "gm_get (w_queues w) n = None \<Longrightarrow> contents (DeclareQueue n d k w) (w_nq w) = {#}"
  by (simp add: contents_def held_def DeclareQueue_def NewQueue_def)

lemma accounts_DeclareQueue:
  assumes wf: "wf_world w" and ac: "accounts_ok w"
  shows "accounts_ok (DeclareQueue n d k w)"
proof (cases "gm_get (w_queues w) n")
  case (Some q)
  with ac show ?thesis by (simp add: DeclareQueue_known)
next
  case None
  let ?w = "DeclareQueue n d k w"
  have zero: "mt_Enqueued (w_metrics w) n = 0" "settled (w_metrics w) n = 0"
    using ac None by (simp_all add: accounts_ok_def)
  have "account_ok ?w (w_nq w)"
    using zero contents_new_queue [OF None]
    by (simp add: account_ok_def DeclareQueue_def None NewQueue_def)
  moreover have "account_ok ?w q" if "q < w_nq w" for q
    by (rule account_frame [OF accountsD [OF ac that]])
      (use that account_tags(2) [OF accountsD [OF ac that]] in \<open>simp_all add: contents_DeclareQueue\<close>)
  ultimately have "\<forall>q < Suc (w_nq w). account_ok ?w q" by (simp add: less_Suc_eq)
  moreover have "w_nq ?w = Suc (w_nq w)" "w_queues ?w = gm_put n (w_nq w) (w_queues w)"
    by (simp_all add: DeclareQueue_def None)
  ultimately show ?thesis using ac by (simp add: accounts_ok_def gm.get_put)
qed

lemma DeclareExchange_frame [simp]:
  "w_q (DeclareExchange n w) = w_q w" "w_nq (DeclareExchange n w) = w_nq w"
  "w_c (DeclareExchange n w) = w_c w" "w_nc (DeclareExchange n w) = w_nc w"
  "w_ch (DeclareExchange n w) = w_ch w" "w_nch (DeclareExchange n w) = w_nch w"
  "w_cn (DeclareExchange n w) = w_cn w" "w_ncn (DeclareExchange n w) = w_ncn w"
  "w_queues (DeclareExchange n w) = w_queues w" "w_metrics (DeclareExchange n w) = w_metrics w"
  "w_connections (DeclareExchange n w) = w_connections w"
  by (simp_all add: DeclareExchange_def split: option.split)

lemma wf_DeclareExchange [wf_intros]:
  assumes wf: "wf_world w"
  shows "wf_world (DeclareExchange n w)"
proof (cases "gm_get (w_exchanges w) n")
  case (Some q)
  with wf show ?thesis by (simp add: DeclareExchange_known)
next
  case None
  let ?w = "DeclareExchange n w"
  have eq: "w_ne ?w = Suc (w_ne w)" "w_e ?w = (w_e w)(w_ne w := NewExchange n)"
    "w_exchanges ?w = gm_put n (w_ne w) (w_exchanges w)"
    by (simp_all add: DeclareExchange_def None)
  have "exchanges_ok ?w"
    using wf_worldD(2) [OF wf]
    by (simp add: exchanges_ok_def eq gm.wf_put gm.get_put less_Suc_eq NewExchange_def) blast
  with wf show ?thesis
    by (simp add: wf_world_def queues_ok_def regs_ok_def cons_ok_def chans_ok_def conns_ok_def)
qed

lemma contents_DeclareExchange [simp]: "contents (DeclareExchange n w) q = contents w q"
  by (simp add: contents_def held_def)

lemma accounts_DeclareExchange: "accounts_ok w \<Longrightarrow> accounts_ok (DeclareExchange n w)"
  by (rule accounts_keep [of w]) (auto dest: accountsD account_tags(2))

section \<open>Binding\<close>

lemma wf_BindQueue [wf_intros]: "wf_world w \<Longrightarrow> wf_world (snd (BindQueue ex qn rk w))"
  by (simp add: BindQueue_def wf_bind wf_exchange_lookup wf_queue_lookup split: option.split)

lemma accounts_BindQueue: "accounts_ok w \<Longrightarrow> accounts_ok (snd (BindQueue ex qn rk w))"
  by (simp add: BindQueue_def accounts_bind split: option.split)

lemma contents_BindQueue [simp]: "contents (snd (BindQueue ex qn rk w)) q = contents w q"
  by (simp add: BindQueue_def split: option.split)

section \<open>Publishing\<close>

lemma publishTo_frame [simp]:
  "w_nq (publishTo ex rk b q w) = w_nq w" "w_queues (publishTo ex rk b q w) = w_queues w"
  "w_c (publishTo ex rk b q w) = w_c w" "w_nc (publishTo ex rk b q w) = w_nc w"
  "w_ch (publishTo ex rk b q w) = w_ch w" "w_nch (publishTo ex rk b q w) = w_nch w"
  "w_cn (publishTo ex rk b q w) = w_cn w" "w_ncn (publishTo ex rk b q w) = w_ncn w"
  "w_e (publishTo ex rk b q w) = w_e w" "w_ne (publishTo ex rk b q w) = w_ne w"
  "w_exchanges (publishTo ex rk b q w) = w_exchanges w"
  "w_connections (publishTo ex rk b q w) = w_connections w"
  "q_name (w_q (publishTo ex rk b q w) q') = q_name (w_q w q')"
  "q_consumers (w_q (publishTo ex rk b q w) q') = q_consumers (w_q w q')"
  "q_dlx (w_q (publishTo ex rk b q w) q') = q_dlx (w_q w q')"
  "q_dlxRoutingKey (w_q (publishTo ex rk b q w) q') = q_dlxRoutingKey (w_q w q')"
  "settled (w_metrics (publishTo ex rk b q w)) = settled (w_metrics w)"
  by (simp_all add: publishTo_def enqueue_def Let_def)

lemma fold_publishTo_frame [simp]:
  "w_nq (fold (publishTo ex rk b) qs w) = w_nq w" "w_queues (fold (publishTo ex rk b) qs w) = w_queues w"
  "w_c (fold (publishTo ex rk b) qs w) = w_c w" "w_nc (fold (publishTo ex rk b) qs w) = w_nc w"
  "w_ch (fold (publishTo ex rk b) qs w) = w_ch w" "w_nch (fold (publishTo ex rk b) qs w) = w_nch w"
  "w_cn (fold (publishTo ex rk b) qs w) = w_cn w" "w_ncn (fold (publishTo ex rk b) qs w) = w_ncn w"
  "w_e (fold (publishTo ex rk b) qs w) = w_e w" "w_ne (fold (publishTo ex rk b) qs w) = w_ne w"
  "w_exchanges (fold (publishTo ex rk b) qs w) = w_exchanges w"
  "w_connections (fold (publishTo ex rk b) qs w) = w_connections w"
  "q_name (w_q (fold (publishTo ex rk b) qs w) q') = q_name (w_q w q')"
  "q_consumers (w_q (fold (publishTo ex rk b) qs w) q') = q_consumers (w_q w q')"
  by (induction qs arbitrary: w) simp_all

text \<open>The message a queue gets from a publish.\<close>

definition newMessage :: "string \<Rightarrow> string \<Rightarrow> byte list \<Rightarrow> Queue \<Rightarrow> Message" where
  "newMessage ex rk body Q =
     \<lparr>m_DeliveryTag = q_nextTag Q, m_Body = body, m_Exchange = ex, m_RoutingKey = rk\<rparr>"

lemma publishTo_queue:
  "w_q (publishTo ex rk b q w) q' =
     (if q' = q then (w_q w q)\<lparr>q_nextTag := q_nextTag (w_q w q) + 1,
        q_messages := q_messages (w_q w q) @ [newMessage ex rk b (w_q w q)]\<rparr>
      else w_q w q')"
  by (simp add: publishTo_def enqueue_def Let_def newMessage_def)

lemma fold_publishTo_queue:
  "distinct qs \<Longrightarrow> w_q (fold (publishTo ex rk b) qs w) q =
     (if q \<in> set qs then (w_q w q)\<lparr>q_nextTag := q_nextTag (w_q w q) + 1,
        q_messages := q_messages (w_q w q) @ [newMessage ex rk b (w_q w q)]\<rparr>
      else w_q w q)"
  by (induction qs arbitrary: w) (auto simp: publishTo_queue)

lemma wf_publishTo [wf_intros]: "wf_world w \<Longrightarrow> wf_world (publishTo ex rk b q w)"
  unfolding publishTo_def Let_def
  by (rule wf_enqueue) (simp add: wf_set_queue)

lemma wf_fold_publishTo [wf_intros]: "wf_world w \<Longrightarrow> wf_world (fold (publishTo ex rk b) qs w)"
  by (induction qs arbitrary: w) (simp_all add: wf_publishTo)

lemma wf_Publish [wf_intros]: "wf_world w \<Longrightarrow> wf_world (snd (Publish \<pi> ex rk b w))"
  by (simp add: Publish_def Let_def wf_fold_publishTo split: option.split)

lemma contents_publishTo:
  "contents (publishTo ex rk b q w) q' =
     (if q' = q then add_mset (newMessage ex rk b (w_q w q)) (contents w q) else contents w q')"
  by (auto simp: contents_def held_def publishTo_queue)

lemma accounts_publishTo:
  assumes wf: "wf_world w" and ac: "accounts_ok w" and q: "q < w_nq w"
  shows "accounts_ok (publishTo ex rk b q w)"
proof -
  have enq: "mt_Enqueued (w_metrics (publishTo ex rk b q w)) = inc (q_name (w_q w q)) (mt_Enqueued (w_metrics w))"
    by (simp add: publishTo_def enqueue_def Let_def)
  have "account_ok (publishTo ex rk b q w) q'" if "q' < w_nq w" for q'
  proof (cases "q' = q")
    case True
    then show ?thesis
      by (intro account_add [OF accountsD [OF ac that], where m = "newMessage ex rk b (w_q w q)"])
        (simp_all add: publishTo_queue contents_publishTo enq, simp add: newMessage_def)
  next
    case False
    with wf_queue_name_inj [OF wf that q] have "q_name (w_q w q') \<noteq> q_name (w_q w q)" by simp
    with False show ?thesis
      by (intro account_frame [OF accountsD [OF ac that]])
        (simp_all add: publishTo_queue contents_publishTo enq account_tags(2) [OF accountsD [OF ac that]])
  qed
  moreover have "gm_get (w_queues w) (q_name (w_q w q)) = Some q" by (rule wf_queue_by_name [OF wf q])
  ultimately show ?thesis using ac by (auto simp: accounts_ok_def enq)
qed

lemma accounts_fold_publishTo:
  "wf_world w \<Longrightarrow> accounts_ok w \<Longrightarrow> \<forall>q \<in> set qs. q < w_nq w \<Longrightarrow> accounts_ok (fold (publishTo ex rk b) qs w)"
  by (induction qs arbitrary: w) (simp_all add: wf_publishTo accounts_publishTo)

lemma accounts_Publish:
  assumes wf: "wf_world w" and ac: "accounts_ok w" and \<pi>: "orders_ok \<pi>"
  shows "accounts_ok (snd (Publish \<pi> ex rk b w))"
proof (cases "gm_get (w_exchanges w) ex")
  case None
  with ac show ?thesis by (simp add: Publish_def accounts_metrics)
next
  case (Some e)
  let ?w1 = "upd_m (\<lambda>M. M\<lparr>mt_Published := inc ex (mt_Published M)\<rparr>) w"
  have w1: "wf_world ?w1" "accounts_ok ?w1" "e < w_ne ?w1"
    using wf ac wf_exchange_lookup(1) [OF wf Some] by (simp_all add: accounts_metrics)
  have "\<forall>q \<in> set (getQueues \<pi> e rk ?w1). q < w_nq ?w1"
    using getQueues_valid [OF w1(1,3) \<pi>] by blast
  then show ?thesis
    using wf ac w1 Some accounts_fold_publishTo [OF w1(1,2)]
    by (simp add: Publish_def Let_def accounts_metrics)
qed

section \<open>Acknowledging\<close>

text \<open>An ack settles the message of the consumer that holds the tag, or does nothing.\<close>

lemma Ack_cases [consumes 3, case_names NoQueue NoTag Acked]:
  assumes "Ack \<pi> n t w = (r, w')" "wf_world w" "orders_ok \<pi>"
  obtains "gm_get (w_queues w) n = None" "r \<noteq> None" "w' = w"
  | q where "gm_get (w_queues w) n = Some q" "r \<noteq> None" "w' = w"
      "\<forall>c. gm_has c (q_consumers (w_q w q)) \<longrightarrow> \<not> gm_has t (c_pendingMessages (w_c w c))"
  | q c m where "gm_get (w_queues w) n = Some q" "q < w_nq w" "q_name (w_q w q) = n" "r = None"
      "gm_has c (q_consumers (w_q w q))" "gm_get (c_pendingMessages (w_c w c)) t = Some m"
      "w' = upd_m (\<lambda>M. M\<lparr>mt_Acked := inc n (mt_Acked M)\<rparr>) (upd_c c (releaseMessage t) w)"
proof (cases "gm_get (w_queues w) n")
  case None
  with assms(1) show ?thesis by (intro that(1)) (auto simp: Ack_def)
next
  case (Some q)
  note q = wf_queue_lookup [OF assms(2) Some]
  let ?ks = "o_consumers \<pi> q (gm_keys (q_consumers (w_q w q)))"
  let ?P = "\<lambda>c. gm_has t (c_inflightTags (w_c w c))"
  have ok: "consumer_ok (w_c w c)" if "gm_has c (q_consumers (w_q w q))" for c
    using wf_consumer(1) [OF assms(2) wf_registered(2) [OF assms(2) q(1) that]] .
  show ?thesis
  proof (cases "List.find ?P ?ks")
    case None
    then have "\<forall>c. gm_has c (q_consumers (w_q w q)) \<longrightarrow> \<not> ?P c"
      by (auto simp: find_None_iff gm_has_def orders_set(2) [OF assms(3)])
    with ok have "\<forall>c. gm_has c (q_consumers (w_q w q)) \<longrightarrow> \<not> gm_has t (c_pendingMessages (w_c w c))"
      using inflight_iff_pending by blast
    with None Some assms(1) show ?thesis by (intro that(2)) (auto simp: Ack_def)
  next
    case (Some c)
    then have "c \<in> set ?ks" "?P c" by (auto simp: find_Some_iff)
    then have c: "gm_has c (q_consumers (w_q w q))" by (simp add: gm_has_def orders_set(2) [OF assms(3)])
    with \<open>?P c\<close> have "gm_has t (c_pendingMessages (w_c w c))" using inflight_iff_pending [OF ok] by blast
    then obtain m where "gm_get (c_pendingMessages (w_c w c)) t = Some m" by (auto simp: gm_has_get)
    with Some \<open>gm_get (w_queues w) n = Some q\<close> assms(1) q c
    show ?thesis by (intro that(3) [of q c m]) (auto simp: Ack_def)
  qed
qed

lemma wf_release:
  assumes "wf_world w" "q < w_nq w" "gm_has c (q_consumers (w_q w q))" "gm_has t (c_pendingMessages (w_c w c))"
  shows "wf_world (upd_c c (releaseMessage t) w)"
proof -
  note c = wf_registered(2,3) [OF assms(1,2,3)]
  show ?thesis
    using assms(3) c wf_set_consumer [OF assms(1) c(1) consumer_ok_release [OF wf_consumer(1) [OF assms(1) c(1)] assms(4)]]
    by simp
qed

lemma wf_Ack [wf_intros]:
  assumes "wf_world w" "orders_ok \<pi>"
  shows "wf_world (snd (Ack \<pi> n t w))"
proof -
  obtain r w' where A: "Ack \<pi> n t w = (r, w')" by fastforce
  from this assms show ?thesis
    by (cases rule: Ack_cases) (use A assms wf_release in \<open>auto simp: gm_has_get\<close>)
qed

text \<open>Releasing a message of a queue while one of its three outcome counters goes up.\<close>

lemma accounts_settle:
  assumes wf: "wf_world w" and ac: "accounts_ok w" and q: "q < w_nq w"
    and c: "gm_has c (q_consumers (w_q w q))" and m: "gm_get (c_pendingMessages (w_c w c)) t = Some m"
    and M: "mt_Enqueued M = mt_Enqueued (w_metrics w)" "settled M = inc (q_name (w_q w q)) (settled (w_metrics w))"
  shows "accounts_ok ((upd_c c (releaseMessage t) w)\<lparr>w_metrics := M\<rparr>)" (is "accounts_ok ?w")
proof -
  have ok: "consumer_ok (w_c w c)" "gm_has t (c_pendingMessages (w_c w c))"
    using wf_consumer(1) [OF wf wf_registered(2) [OF wf q c]] m by (simp_all add: gm_has_get)
  have exact: "consumer_exact (w_c ?w c')"
    if "q' < w_nq w" "mt_Enqueued (w_metrics w) (q_name (w_q w q')) \<le> tag_space"
      "gm_has c' (q_consumers (w_q w q'))" for q' c'
    using account_tags(2) [OF accountsD [OF ac that(1)] that(2,3)] consumer_exact_release [OF ok(1) _ ok(2)]
    by (cases "c' = c") simp_all
  have "account_ok ?w q'" if q': "q' < w_nq w" for q'
  proof (cases "q' = q")
    case True
    show ?thesis unfolding True
      by (rule account_settle [OF accountsD [OF ac q], where m = m])
        (use M exact [OF q] contents_release [OF wf q q c m] in simp_all)
  next
    case False
    with wf_queue_name_inj [OF wf q' q] have "q_name (w_q w q') \<noteq> q_name (w_q w q)" by simp
    then show ?thesis
      by (intro account_frame [OF accountsD [OF ac q']])
        (use M exact [OF q'] contents_release [OF wf q q' c m] False in simp_all)
  qed
  moreover have "gm_get (w_queues w) (q_name (w_q w q)) = Some q" by (rule wf_queue_by_name [OF wf q])
  ultimately show ?thesis using ac M by (auto simp: accounts_ok_def)
qed

lemma settled_inc [simp]:
  "settled (M\<lparr>mt_Acked := inc n (mt_Acked M)\<rparr>) = inc n (settled M)"
  "settled (M\<lparr>mt_DeadLettered := inc n (mt_DeadLettered M)\<rparr>) = inc n (settled M)"
  "settled (M\<lparr>mt_Dropped := inc n (mt_Dropped M)\<rparr>) = inc n (settled M)"
  by (auto simp: settled_def fun_eq_iff)

lemma accounts_Ack:
  assumes "wf_world w" "accounts_ok w" "orders_ok \<pi>"
  shows "accounts_ok (snd (Ack \<pi> n t w))"
proof -
  obtain r w' where A: "Ack \<pi> n t w = (r, w')" by fastforce
  from this assms(1,3) show ?thesis
  proof (cases rule: Ack_cases)
    case (Acked q c m)
    have "accounts_ok ((upd_c c (releaseMessage t) w)
        \<lparr>w_metrics := (w_metrics w)\<lparr>mt_Acked := inc n (mt_Acked (w_metrics w))\<rparr>\<rparr>)"
      by (rule accounts_settle [OF assms(1,2) Acked(2,5,6)]) (simp_all add: Acked(3))
    with Acked(7) A show ?thesis by simp
  qed (use A assms in simp_all)
qed

section \<open>Registering consumers\<close>

lemma wf_new_consumer:
  assumes wf: "wf_world w" and C: "consumer_ok C" "c_prefetch C = 10" "c_queue C < w_nq w"
    "c_channel C < w_nch w" "c_pendingMessages C = []"
  shows "wf_world (w\<lparr>w_c := (w_c w)(w_nc w := C), w_nc := Suc (w_nc w)\<rparr>)"
proof -
  let ?w = "w\<lparr>w_c := (w_c w)(w_nc w := C), w_nc := Suc (w_nc w)\<rparr>"
  have "regs_ok ?w" using wf_worldD(3) [OF wf] by (fastforce simp: regs_ok_def)
  moreover have "cons_ok ?w"
    using wf_worldD(4) [OF wf] C by (simp add: cons_ok_def less_Suc_eq)
  moreover have "chans_ok ?w" using wf_worldD(5) [OF wf] by (fastforce simp: chans_ok_def)
  ultimately show ?thesis
    using wf by (simp add: wf_world_def queues_ok_def exchanges_ok_def conns_ok_def)
qed

lemma wf_add_channel_consumer:
  assumes wf: "wf_world w" and "c < w_nc w" "c_tag (w_c w c) = t" "c_channel (w_c w c) = ch"
  shows "wf_world (upd_ch ch (\<lambda>X. X\<lparr>ch_consumers := gm_put t c (ch_consumers X)\<rparr>) w)"
proof -
  have "chans_ok (upd_ch ch (\<lambda>X. X\<lparr>ch_consumers := gm_put t c (ch_consumers X)\<rparr>) w)"
    using wf_worldD(5) [OF wf] assms by (simp add: chans_ok_def gm.wf_put gm.get_put)
  moreover have "conns_ok (upd_ch ch (\<lambda>X. X\<lparr>ch_consumers := gm_put t c (ch_consumers X)\<rparr>) w)"
    using wf_worldD(6) [OF wf] by (simp add: conns_ok_def)
  ultimately show ?thesis
    using wf by (simp add: wf_world_def queues_ok_def exchanges_ok_def regs_ok_def cons_ok_def)
qed

text \<open>The state between storing the consumer and the channel's map: consumer stored and registered.\<close>

definition withConsumer :: "qref \<Rightarrow> Consumer \<Rightarrow> world \<Rightarrow> world" where
  "withConsumer q C w = registerConsumer q (w_nc w) (w\<lparr>w_c := (w_c w)(w_nc w := C), w_nc := Suc (w_nc w)\<rparr>)"

lemma withConsumer_simps [simp]:
  "w_c (withConsumer q C w) = (w_c w)(w_nc w := C)" "w_nc (withConsumer q C w) = Suc (w_nc w)"
  "w_ch (withConsumer q C w) = w_ch w" "w_metrics (withConsumer q C w) = w_metrics w"
  "w_nq (withConsumer q C w) = w_nq w" "w_queues (withConsumer q C w) = w_queues w"
  by (simp_all add: withConsumer_def registerConsumer_def)

lemma RegisterConsumer_cases [consumes 1, case_names Refused Registered]:
  assumes "RegisterConsumer t n ch w = (r, w')"
  obtains e where "r = Inl e" "w' = w"
  | q C where "gm_get (w_queues w) n = Some q" "C = NewConsumer t q ch (w_ch w ch)"
      "\<not> gm_has (c_tag C) (ch_consumers (w_ch w ch))" "r = Inr (c_tag C)"
      "w' = upd_m (\<lambda>M. M\<lparr>mt_ConsumersRegistered := inc n (mt_ConsumersRegistered M)\<rparr>)
              (upd_ch ch (\<lambda>X. X\<lparr>ch_consumers := gm_put (c_tag C) (w_nc w) (ch_consumers X)\<rparr>)
                (withConsumer q C w))"
proof (cases "gm_get (w_queues w) n")
  case None
  with assms show ?thesis by (intro that(1)) (auto simp: RegisterConsumer_def)
next
  case (Some q)
  let ?C = "NewConsumer t q ch (w_ch w ch)"
  show ?thesis
  proof (cases "gm_has (c_tag ?C) (ch_consumers (w_ch w ch))")
    case True
    with Some assms show ?thesis by (intro that(1)) (auto simp: RegisterConsumer_def Let_def)
  next
    case False
    with Some assms show ?thesis
      by (intro that(2) [OF Some refl]) (auto simp: RegisterConsumer_def Let_def withConsumer_def)
  qed
qed

lemma wf_withConsumer:
  assumes "wf_world w" "q < w_nq w" "ch < w_nch w"
  shows "wf_world (withConsumer q (NewConsumer t q ch chan) w)"
  unfolding withConsumer_def
  by (rule wf_add_registration [OF wf_new_consumer [OF assms(1)]]) (use assms in simp_all)

lemma wf_RegisterConsumer [wf_intros]:
  assumes wf: "wf_world w" and ch: "ch < w_nch w"
  shows "wf_world (snd (RegisterConsumer t n ch w))"
proof -
  obtain r w' where R: "RegisterConsumer t n ch w = (r, w')" by fastforce
  then show ?thesis
  proof (cases rule: RegisterConsumer_cases)
    case (Refused e)
    with R wf show ?thesis by simp
  next
    case (Registered q C)
    note w1 = wf_withConsumer [OF wf wf_queue_lookup(1) [OF wf Registered(1)] ch, of t "w_ch w ch"]
    have "wf_world (upd_ch ch (\<lambda>X. X\<lparr>ch_consumers := gm_put (c_tag C) (w_nc w) (ch_consumers X)\<rparr>)
            (withConsumer q C w))"
      using Registered(2) by (intro wf_add_channel_consumer) (simp_all add: w1 del: world_upds)
    with R Registered(5) show ?thesis by simp
  qed
qed

lemma contents_withConsumer:
  assumes wf: "wf_world w" and q: "q' < w_nq w" and C: "c_pendingMessages C = []"
  shows "contents (withConsumer q C w) q' = contents w q'"
proof -
  let ?w1 = "w\<lparr>w_c := (w_c w)(w_nc w := C), w_nc := Suc (w_nc w)\<rparr>"
  have "contents (withConsumer q C w) q' = contents ?w1 q'"
    unfolding withConsumer_def using C by (intro contents_register) simp
  moreover have "held ?w1 q' = held w q'"
    by (rule held_cong) (use wf_registered(2) [OF wf q] in \<open>auto dest: less_imp_neq\<close>)
  ultimately show ?thesis by (simp add: contents_def)
qed

lemma contents_channels [simp]: "contents (w\<lparr>w_ch := x\<rparr>) q = contents w q"
  by (simp add: contents_def held_def)

lemma contents_RegisterConsumer:
  assumes "wf_world w" "q < w_nq w"
  shows "contents (snd (RegisterConsumer t n ch w)) q = contents w q"
proof -
  obtain r w' where R: "RegisterConsumer t n ch w = (r, w')" by fastforce
  then show ?thesis
    by (cases rule: RegisterConsumer_cases)
      (use R contents_withConsumer [OF assms] in \<open>auto simp: world_norm\<close>)
qed

lemma accounts_channels: "accounts_ok w \<Longrightarrow> accounts_ok (w\<lparr>w_ch := x\<rparr>)"
  by (rule accounts_keep [of w]) (auto dest: accountsD account_tags(2))

lemma accounts_withConsumer:
  assumes wf: "wf_world w" and ac: "accounts_ok w" and C: "c_pendingMessages C = []" "c_inflight C = 0"
  shows "accounts_ok (withConsumer q C w)"
proof (rule accounts_keep [OF ac])
  fix q' assume q': "q' < w_nq w" "mt_Enqueued (w_metrics w) (q_name (w_q w q')) \<le> tag_space"
  show "contents (withConsumer q C w) q' = contents w q'"
    by (rule contents_withConsumer [OF wf q'(1) C(1)])
  fix c assume "gm_has c (q_consumers (w_q (withConsumer q C w) q'))"
  then have "c = w_nc w \<or> gm_has c (q_consumers (w_q w q'))"
    by (auto simp: withConsumer_def registerConsumer_def gm_has_def gm.keys_put split: if_splits)
  then show "consumer_exact (w_c (withConsumer q C w) c)"
    using account_tags(2) [OF accountsD [OF ac q'(1)] q'(2)] C by (auto simp: consumer_exact_def)
qed (simp_all add: withConsumer_def registerConsumer_def)

lemma accounts_RegisterConsumer:
  assumes "wf_world w" "accounts_ok w"
  shows "accounts_ok (snd (RegisterConsumer t n ch w))"
proof -
  obtain r w' where R: "RegisterConsumer t n ch w = (r, w')" by fastforce
  then show ?thesis
  proof (cases rule: RegisterConsumer_cases)
    case (Registered q C)
    have "accounts_ok (withConsumer q C w)"
      using Registered(2) by (intro accounts_withConsumer [OF assms]) simp_all
    then have "accounts_ok (upd_ch ch (\<lambda>X. X\<lparr>ch_consumers := gm_put (c_tag C) (w_nc w) (ch_consumers X)\<rparr>)
        (withConsumer q C w))"
      by (simp add: accounts_channels)
    then have "accounts_ok w'" unfolding Registered(5) upd_m_def by (rule accounts_metrics) simp_all
    with R show ?thesis by simp
  qed (use R assms in simp)
qed

end
