(* ===== verification/ChannelOps.thy ===== *)
theory ChannelOps
  imports BrokerOps
begin

text \<open>
  Channels: \<^verbatim>\<open>broker/channel.go\<close>. One definition per handler, with its decoding step, its error
  replies and its early returns; \<open>route\<close> is the switch over the method. \<open>broker_inv\<close> is the
  invariant of the whole broker; every handler keeps it.
\<close>

section \<open>Replies\<close>

text \<open>The handlers ignore the result of a write.\<close>

definition reply :: "chref \<Rightarrow> Envelope \<Rightarrow> string \<Rightarrow> json \<Rightarrow> world \<Rightarrow> world" where
  "reply ch env ty payload w =
     snd (WriteEnvelope (ch_conn (w_ch w ch)) (env_ChannelID env) ty (env_RequestID env) payload w)"

definition replyError :: "chref \<Rightarrow> Envelope \<Rightarrow> string \<Rightarrow> world \<Rightarrow> world" where
  "replyError ch env text w =
     reply ch env ErrorType (marshal_ErrorMsg \<lparr>err_Code = [], err_Message = text\<rparr>) w"

section \<open>Handlers\<close>

definition channelConsumers :: "orders \<Rightarrow> chref \<Rightarrow> world \<Rightarrow> cref list" where
  "channelConsumers \<pi> ch w =
     entries_in (o_tags \<pi> ch (gm_keys (ch_consumers (w_ch w ch)))) (ch_consumers (w_ch w ch))"

definition chanCleanup :: "orders \<Rightarrow> chref \<Rightarrow> world \<Rightarrow> world" where
  "chanCleanup \<pi> ch w =
     fold (\<lambda>c w. unregisterConsumer \<pi> (c_queue (w_c w c)) c w) (channelConsumers \<pi> ch w) w"

definition HandlePublish :: "orders \<Rightarrow> chref \<Rightarrow> Envelope \<Rightarrow> world \<Rightarrow> world" where
  "HandlePublish \<pi> ch env w =
     (case decode_Publish (env_Payload env) of
        (event, Some _) \<Rightarrow> w
      | (event, None) \<Rightarrow>
          (case Publish \<pi> (pub_Exchange event) (pub_RoutingKey event) (pub_Body event) w of
             (Some err, w') \<Rightarrow> replyError ch env err w'
           | (None, w') \<Rightarrow> w'))"

definition HandleConsume :: "orders \<Rightarrow> chref \<Rightarrow> Envelope \<Rightarrow> world \<Rightarrow> world" where
  "HandleConsume \<pi> ch env w =
     (case decode_Consume (env_Payload env) of
        (event, Some err) \<Rightarrow> replyError ch env (unmarshalErrorText err) w
      | (event, None) \<Rightarrow>
          (case RegisterConsumer (con_ConsumerTag event) (con_Queue event) ch w of
             (Inl err, w') \<Rightarrow> replyError ch env err w'
           | (Inr tag, w') \<Rightarrow>
               reply ch env BasicConsumeOKType (marshal_ConsumeOK \<lparr>conok_ConsumerTag = tag\<rparr>) w'))"

definition HandleAck :: "orders \<Rightarrow> chref \<Rightarrow> Envelope \<Rightarrow> world \<Rightarrow> world" where
  "HandleAck \<pi> ch env w =
     (case decode_Ack (env_Payload env) of
        (event, Some err) \<Rightarrow> replyError ch env (unmarshalErrorText err) w
      | (event, None) \<Rightarrow>
          (case List.find (\<lambda>c. gm_has (ack_DeliveryTag event) (c_inflightTags (w_c w c)))
                  (channelConsumers \<pi> ch w) of
             Some c \<Rightarrow> snd (Ack \<pi> (q_name (w_q w (c_queue (w_c w c)))) (ack_DeliveryTag event) w)
           | None \<Rightarrow> w))"

text \<open>The body of the loop of \<^verbatim>\<open>HandleNack\<close> for the consumer that holds the tag.\<close>

definition nackMessage :: "orders \<Rightarrow> cref \<Rightarrow> u16 \<Rightarrow> Message \<Rightarrow> bool \<Rightarrow> world \<Rightarrow> world" where
  "nackMessage \<pi> c tag msg requeue w =
     (let q = c_queue (w_c w c);
          queue = q_name (w_q w q);
          dlx = q_dlx (w_q w q);
          w1 = upd_c c (releaseMessage tag) w;
          w2 = upd_m (\<lambda>M. M\<lparr>mt_Nacked := (mt_Nacked M)(queue := inc requeue (mt_Nacked M queue))\<rparr>) w1
      in if requeue then upd_q q (pushFront msg) w2
         else if dlx \<noteq> [] then
           let w3 = upd_m (\<lambda>M. M\<lparr>mt_DeadLettered := inc queue (mt_DeadLettered M)\<rparr>) w2;
               routingKey = (if q_dlxRoutingKey (w_q w q) = [] then m_RoutingKey msg
                             else q_dlxRoutingKey (w_q w q))
           in snd (Publish \<pi> dlx routingKey (m_Body msg) w3)
         else upd_m (\<lambda>M. M\<lparr>mt_Dropped := inc queue (mt_Dropped M)\<rparr>) w2)"

definition HandleNack :: "orders \<Rightarrow> chref \<Rightarrow> Envelope \<Rightarrow> world \<Rightarrow> world" where
  "HandleNack \<pi> ch env w =
     (case decode_Nack (env_Payload env) of
        (event, Some err) \<Rightarrow> replyError ch env (unmarshalErrorText err) w
      | (event, None) \<Rightarrow>
          let tag = nack_DeliveryTag event;
              requeue = (case nack_Requeue event of None \<Rightarrow> True | Some b \<Rightarrow> b)
          in case List.find (\<lambda>c. gm_has tag (c_pendingMessages (w_c w c))) (channelConsumers \<pi> ch w) of
               None \<Rightarrow> w
             | Some c \<Rightarrow>
                 (case gm_get (c_pendingMessages (w_c w c)) tag of
                    Some msg \<Rightarrow> nackMessage \<pi> c tag msg requeue w
                  | None \<Rightarrow> w))"

text \<open>The two declarations log a decoding error and go on with what was decoded.\<close>

definition HandleExchangeDeclare :: "chref \<Rightarrow> Envelope \<Rightarrow> world \<Rightarrow> world" where
  "HandleExchangeDeclare ch env w =
     (let name = ed_Name (fst (decode_ExchangeDeclare (env_Payload env)))
      in reply ch env ExchangeDeclareOKType (marshal_ExchangeDeclareOK \<lparr>edok_Name = name\<rparr>)
           (DeclareExchange name w))"

definition HandleQueueDeclare :: "chref \<Rightarrow> Envelope \<Rightarrow> world \<Rightarrow> world" where
  "HandleQueueDeclare ch env w =
     (let event = fst (decode_QueueDeclare (env_Payload env))
      in reply ch env QueueDeclareOKType (marshal_QueueDeclareOK \<lparr>qdok_Name = qd_Name event\<rparr>)
           (DeclareQueue (qd_Name event) (qd_DeadLetterExchange event) (qd_DeadLetterRoutingKey event) w))"

definition HandleQueueBind :: "chref \<Rightarrow> Envelope \<Rightarrow> world \<Rightarrow> world" where
  "HandleQueueBind ch env w =
     (case decode_QueueBind (env_Payload env) of
        (event, Some err) \<Rightarrow> replyError ch env (unmarshalErrorText err) w
      | (event, None) \<Rightarrow>
          reply ch env QueueBindOKType marshal_QueueBindOK
            (snd (BindQueue (qb_Exchange event) (qb_Queue event) (qb_RoutingKey event) w)))"

definition route :: "orders \<Rightarrow> chref \<Rightarrow> Envelope \<Rightarrow> world \<Rightarrow> world" where
  "route \<pi> ch env w =
     (if env_Type env = BasicPublishType then HandlePublish \<pi> ch env w
      else if env_Type env = BasicConsumeType then HandleConsume \<pi> ch env w
      else if env_Type env = BasicAckType then HandleAck \<pi> ch env w
      else if env_Type env = BasicNackType then HandleNack \<pi> ch env w
      else if env_Type env = QueueDeclareType then HandleQueueDeclare ch env w
      else if env_Type env = ExchangeDeclareType then HandleExchangeDeclare ch env w
      else if env_Type env = QueueBindType then HandleQueueBind ch env w
      else w)"

section \<open>The invariant of the broker\<close>

definition broker_inv :: "world \<Rightarrow> bool" where
  "broker_inv w \<longleftrightarrow> wf_world w \<and> accounts_ok w"

lemma broker_invD: "broker_inv w \<Longrightarrow> wf_world w" "broker_inv w \<Longrightarrow> accounts_ok w"
  by (simp_all add: broker_inv_def)

lemma same_broker_reply: "same_broker w (reply ch env ty p w)"
  by (simp add: reply_def same_broker_WriteEnvelope)

lemma same_broker_replyError: "same_broker w (replyError ch env t w)"
  by (simp add: replyError_def same_broker_reply)

lemmas reply_simps [simp] = same_broker_simps [OF same_broker_reply]
lemmas replyError_simps [simp] = same_broker_simps [OF same_broker_replyError]

lemma broker_inv_same_broker: "same_broker w w' \<Longrightarrow> broker_inv w \<Longrightarrow> broker_inv w'"
  by (simp add: broker_inv_def wf_world_same_broker accounts_same_broker)

lemma broker_inv_reply [wf_intros]: "broker_inv w \<Longrightarrow> broker_inv (reply ch env ty p w)"
  by (rule broker_inv_same_broker [OF same_broker_reply])

lemma broker_inv_replyError [wf_intros]: "broker_inv w \<Longrightarrow> broker_inv (replyError ch env t w)"
  by (rule broker_inv_same_broker [OF same_broker_replyError])

lemma broker_inv_ops [wf_intros]:
  assumes "broker_inv w" "orders_ok \<pi>"
  shows "broker_inv (snd (Publish \<pi> ex rk b w))"
    "broker_inv (snd (Ack \<pi> n t w))"
    "broker_inv (DeclareQueue n d k w)"
    "broker_inv (DeclareExchange n w)"
    "broker_inv (snd (BindQueue ex n rk w))"
    "ch < w_nch w \<Longrightarrow> broker_inv (snd (RegisterConsumer s n ch w))"
    "q < w_nq w \<Longrightarrow> broker_inv (unregisterConsumer \<pi> q c w)"
    "q < w_nq w \<Longrightarrow> broker_inv (snd (dispatchOnce \<pi> q w))"
  using assms
  by (simp_all add: broker_inv_def wf_Publish accounts_Publish wf_Ack accounts_Ack wf_DeclareQueue
      accounts_DeclareQueue wf_DeclareExchange accounts_DeclareExchange wf_BindQueue accounts_BindQueue
      wf_RegisterConsumer accounts_RegisterConsumer wf_unregisterConsumer accounts_unregister
      wf_dispatchOnce accounts_dispatchOnce)

section \<open>The consumers of a channel\<close>

lemma channelConsumers_valid:
  assumes "wf_world w" "ch < w_nch w" "c \<in> set (channelConsumers \<pi> ch w)"
  shows "c < w_nc w" "c_channel (w_c w c) = ch"
proof -
  obtain t where "gm_get (ch_consumers (w_ch w ch)) t = Some c"
    using assms(3) by (auto simp: channelConsumers_def entries_in_def map_filter_def)
  then show "c < w_nc w" "c_channel (w_c w c) = ch"
    using wf_channel(3,5) [OF assms(1,2)] by blast+
qed

lemma set_channelConsumers:
  assumes "wf_world w" "ch < w_nch w" "orders_ok \<pi>"
  shows "set (channelConsumers \<pi> ch w) = snd ` set (ch_consumers (w_ch w ch))"
  using mset_entries_in [OF orders_range(4) [OF assms(3)] wf_channel(2) [OF assms(1,2)]]
  unfolding channelConsumers_def by (metis set_map set_mset_mset)

text \<open>A consumer that holds a message is registered with its queue.\<close>

lemma holder_registered:
  assumes "wf_world w" "c < w_nc w" "gm_has t (c_pendingMessages (w_c w c))"
  shows "gm_has c (q_consumers (w_q w (c_queue (w_c w c))))"
  using wf_consumer(5) [OF assms(1,2)] assms(3) by (metis gm_has_Nil)

section \<open>Handlers keep the invariant\<close>

lemma unregister_frame [simp]:
  "w_nq (unregisterConsumer \<pi> q c w) = w_nq w" "w_nc (unregisterConsumer \<pi> q c w) = w_nc w"
  "w_nch (unregisterConsumer \<pi> q c w) = w_nch w" "w_ch (unregisterConsumer \<pi> q c w) = w_ch w"
  "w_ncn (unregisterConsumer \<pi> q c w) = w_ncn w" "w_cn (unregisterConsumer \<pi> q c w) = w_cn w"
  "w_connections (unregisterConsumer \<pi> q c w) = w_connections w"
  by (simp_all add: unregisterConsumer_def Let_def fold_returnPending)

lemma broker_inv_unregisters:
  "broker_inv w \<Longrightarrow> orders_ok \<pi> \<Longrightarrow> \<forall>c \<in> set cs. c < w_nc w \<Longrightarrow>
   broker_inv (fold (\<lambda>c w. unregisterConsumer \<pi> (c_queue (w_c w c)) c w) cs w)"
proof (induction cs arbitrary: w)
  case (Cons c cs)
  have "c_queue (w_c w c) < w_nq w"
    using wf_consumer(3) [OF broker_invD(1) [OF Cons.prems(1)]] Cons.prems(3) by simp
  then have "broker_inv (unregisterConsumer \<pi> (c_queue (w_c w c)) c w)"
    by (rule broker_inv_ops(7) [OF Cons.prems(1,2)])
  then show ?case using Cons.IH Cons.prems by simp
qed simp

lemma broker_inv_chanCleanup [wf_intros]:
  assumes "broker_inv w" "orders_ok \<pi>" "ch < w_nch w"
  shows "broker_inv (chanCleanup \<pi> ch w)"
  unfolding chanCleanup_def
  using channelConsumers_valid(1) [OF broker_invD(1) [OF assms(1)] assms(3)]
  by (intro broker_inv_unregisters [OF assms(1,2)]) blast

lemma broker_inv_HandlePublish [wf_intros]:
  "broker_inv w \<Longrightarrow> orders_ok \<pi> \<Longrightarrow> broker_inv (HandlePublish \<pi> ch env w)"
  using broker_inv_ops(1) [of w \<pi>]
  by (auto simp: HandlePublish_def split: prod.split option.split intro!: broker_inv_replyError
      dest!: sym [where t = "Publish _ _ _ _ _"]) (metis snd_conv)+

lemma broker_inv_HandleConsume [wf_intros]:
  "broker_inv w \<Longrightarrow> orders_ok \<pi> \<Longrightarrow> ch < w_nch w \<Longrightarrow> broker_inv (HandleConsume \<pi> ch env w)"
  using broker_inv_ops(6) [of w \<pi> ch]
  by (auto simp: HandleConsume_def split: prod.split option.split sum.split
      intro!: broker_inv_replyError broker_inv_reply) (metis snd_conv)+

lemma broker_inv_HandleAck [wf_intros]:
  "broker_inv w \<Longrightarrow> orders_ok \<pi> \<Longrightarrow> broker_inv (HandleAck \<pi> ch env w)"
  by (simp add: HandleAck_def broker_inv_replyError broker_inv_ops(2) split: prod.split option.split)

text \<open>A requeueing nack is the queue taking its message back.\<close>

lemma broker_inv_putBack:
  assumes inv: "broker_inv w" and q: "q < w_nq w" and c: "gm_has c (q_consumers (w_q w q))"
    and m: "gm_get (c_pendingMessages (w_c w c)) (m_DeliveryTag msg) = Some msg"
  shows "broker_inv (putBack q c msg w)"
proof -
  note wf = broker_invD(1) [OF inv] and ac = broker_invD(2) [OF inv]
  note cn = wf_registered(2) [OF wf q c]
  have h: "gm_has (m_DeliveryTag msg) (c_pendingMessages (w_c w c))" using m by (simp add: gm_has_get)
  have "accounts_ok (putBack q c msg w)"
  proof (rule accounts_keep [OF ac])
    fix q' assume q': "q' < w_nq w" "mt_Enqueued (w_metrics w) (q_name (w_q w q')) \<le> tag_space"
    show "contents (putBack q c msg w) q' = contents w q'"
      by (rule contents_putBack [OF wf q q'(1) c m])
    fix c' assume "gm_has c' (q_consumers (w_q (putBack q c msg w) q'))"
    then have "gm_has c' (q_consumers (w_q w q'))"
      by (simp add: putBack_def pushFront_def split: if_splits)
    from account_tags(2) [OF accountsD [OF ac q'(1)] q'(2) this]
    show "consumer_exact (w_c (putBack q c msg w) c')"
      using consumer_exact_release [OF wf_consumer(1) [OF wf cn] _ h] by (auto simp: putBack_def)
  qed (simp_all add: putBack_def pushFront_def)
  with wf_putBack [OF wf cn h] show ?thesis by (simp add: broker_inv_def)
qed

lemma pending_tag:
  "consumer_ok C \<Longrightarrow> gm_get (c_pendingMessages C) t = Some m \<Longrightarrow> m_DeliveryTag m = t"
  by (simp add: consumer_ok_def)

lemma broker_inv_metrics:
  assumes "broker_inv w" "mt_Enqueued M = mt_Enqueued (w_metrics w)" "settled M = settled (w_metrics w)"
  shows "broker_inv (w\<lparr>w_metrics := M\<rparr>)"
  using assms by (simp add: broker_inv_def accounts_metrics)

lemma broker_inv_settle:
  assumes inv: "broker_inv w" and q: "q < w_nq w" and c: "gm_has c (q_consumers (w_q w q))"
    and m: "gm_get (c_pendingMessages (w_c w c)) t = Some m"
    and M: "mt_Enqueued M = mt_Enqueued (w_metrics w)" "settled M = inc (q_name (w_q w q)) (settled (w_metrics w))"
  shows "broker_inv ((upd_c c (releaseMessage t) w)\<lparr>w_metrics := M\<rparr>)"
proof -
  note wf = broker_invD(1) [OF inv] and ac = broker_invD(2) [OF inv]
  have "wf_world (upd_c c (releaseMessage t) w)"
    using m by (intro wf_release [OF wf q c]) (simp add: gm_has_get)
  with accounts_settle [OF wf ac q c m M] show ?thesis by (simp add: broker_inv_def)
qed

lemma broker_inv_nackMessage:
  assumes inv: "broker_inv w" and \<pi>: "orders_ok \<pi>" and c: "c < w_nc w"
    and m: "gm_get (c_pendingMessages (w_c w c)) tag = Some msg"
  shows "broker_inv (nackMessage \<pi> c tag msg requeue w)"
proof -
  note wf = broker_invD(1) [OF inv]
  let ?q = "c_queue (w_c w c)" and ?n = "q_name (w_q w (c_queue (w_c w c)))" and ?M = "w_metrics w"
  note q = wf_consumer(3) [OF wf c]
  have reg: "gm_has c (q_consumers (w_q w ?q))"
    by (rule holder_registered [OF wf c, of tag]) (simp add: m gm_has_get)
  have tag: "m_DeliveryTag msg = tag" by (rule pending_tag [OF wf_consumer(1) [OF wf c] m])
  let ?M2 = "?M\<lparr>mt_Nacked := (mt_Nacked ?M)(?n := inc requeue (mt_Nacked ?M ?n))\<rparr>"
  show ?thesis
  proof (cases requeue)
    case True
    have "broker_inv (putBack ?q c msg w)" by (rule broker_inv_putBack [OF inv q reg]) (simp add: tag m)
    then have "broker_inv ((putBack ?q c msg w)\<lparr>w_metrics := ?M2\<rparr>)"
      by (rule broker_inv_metrics) (simp_all add: putBack_def)
    with True show ?thesis by (simp add: nackMessage_def putBack_def tag Let_def world_norm)
  next
    case nreq: False
    show ?thesis
    proof (cases "q_dlx (w_q w ?q) = []")
      case True
      have "broker_inv ((upd_c c (releaseMessage tag) w)
          \<lparr>w_metrics := ?M2\<lparr>mt_Dropped := inc ?n (mt_Dropped ?M2)\<rparr>\<rparr>)"
        by (rule broker_inv_settle [OF inv q reg m]) (simp_all only: settled_inc settled_unregister, simp_all)
      with True nreq show ?thesis by (simp add: nackMessage_def Let_def)
    next
      case False
      have "broker_inv ((upd_c c (releaseMessage tag) w)
          \<lparr>w_metrics := ?M2\<lparr>mt_DeadLettered := inc ?n (mt_DeadLettered ?M2)\<rparr>\<rparr>)"
        by (rule broker_inv_settle [OF inv q reg m]) (simp_all only: settled_inc settled_unregister, simp_all)
      from broker_inv_ops(1) [OF this \<pi>] False nreq show ?thesis by (simp add: nackMessage_def Let_def)
    qed
  qed
qed

lemma broker_inv_HandleNack [wf_intros]:
  assumes "broker_inv w" "orders_ok \<pi>" "ch < w_nch w"
  shows "broker_inv (HandleNack \<pi> ch env w)"
proof -
  have "c < w_nc w" if "List.find P (channelConsumers \<pi> ch w) = Some c" for P c
    using channelConsumers_valid(1) [OF broker_invD(1) [OF assms(1)] assms(3)] that
    by (auto simp: find_Some_iff dest: nth_mem)
  then show ?thesis
    using assms broker_inv_nackMessage [OF assms(1,2)]
    by (simp add: HandleNack_def broker_inv_replyError Let_def split: prod.split option.split)
qed

lemma broker_inv_route [wf_intros]:
  assumes "broker_inv w" "orders_ok \<pi>" "ch < w_nch w"
  shows "broker_inv (route \<pi> ch env w)"
proof -
  have "broker_inv (HandleExchangeDeclare ch env w)" "broker_inv (HandleQueueDeclare ch env w)"
    "broker_inv (HandleQueueBind ch env w)"
    using assms
    by (simp_all add: HandleExchangeDeclare_def HandleQueueDeclare_def HandleQueueBind_def Let_def
        broker_inv_reply broker_inv_replyError broker_inv_ops split: prod.split option.split)
  then show ?thesis
    using assms broker_inv_HandlePublish broker_inv_HandleConsume broker_inv_HandleAck broker_inv_HandleNack
    by (simp add: route_def)
qed

end
