(* ===== verification/ConnOps.thy ===== *)
theory ConnOps
  imports ChannelOps
begin

text \<open>
  Connections: \<^verbatim>\<open>broker/connection.go\<close> without the write pump. A connection reads lines, runs the
  handshake, opens and closes channels and routes every other envelope to the channel it names.
  The input a client will ever send is in \<open>cn_in\<close> from the start, so a read is never waited for and
  an empty \<open>cn_in\<close> is the end of the stream; a client that answers what it receives is covered
  because the theorems hold for every input.
\<close>

section \<open>Reading\<close>

definition setInput :: "connref \<Rightarrow> line list \<Rightarrow> world \<Rightarrow> world" where
  "setInput cn r w = upd_cn cn (\<lambda>C. C\<lparr>cn_in := r\<rparr>) w"

definition setState :: "connref \<Rightarrow> ConnectionState \<Rightarrow> world \<Rightarrow> world" where
  "setState cn s w = upd_cn cn (\<lambda>C. C\<lparr>cn_state := s\<rparr>) w"

definition conn_ReadProtocolHeader :: "connref \<Rightarrow> world \<Rightarrow> read_error option \<times> world" where
  "conn_ReadProtocolHeader cn w =
     (case ReadProtocolHeader (cn_in (w_cn w cn)) of (e, r) \<Rightarrow> (e, setInput cn r w))"

definition conn_ReadMessage ::
    "(json option \<Rightarrow> 'a \<times> unmarshal_error option) \<Rightarrow> connref \<Rightarrow> world \<Rightarrow> read_error option \<times> world" where
  "conn_ReadMessage decode cn w =
     (case ReadMessage decode (cn_in (w_cn w cn)) of ((_, e), r) \<Rightarrow> (e, setInput cn r w))"

definition conn_ReadEnvelope :: "connref \<Rightarrow> world \<Rightarrow> (Envelope \<times> read_error option) \<times> world" where
  "conn_ReadEnvelope cn w =
     (case ReadEnvelope (cn_in (w_cn w cn)) of
        ((_, Some e), r) \<Rightarrow> ((zero_Envelope, Some e), setInput cn r w)
      | ((env, None), r) \<Rightarrow> ((env, None), setInput cn r w))"

section \<open>Operations\<close>

definition NewConnection :: "line list \<Rightarrow> bool \<Rightarrow> world \<Rightarrow> connref \<times> world" where
  "NewConnection input netok w =
     (w_ncn w,
      w\<lparr>w_cn := (w_cn w)(w_ncn w :=
          \<lparr>cn_in = input, cn_out = [], cn_netok = netok, cn_channels = [],
           cn_state = StateAwaitProtocolHeader, cn_closed = False\<rparr>),
        w_ncn := Suc (w_ncn w)\<rparr>)"

definition openChannels :: "orders \<Rightarrow> connref \<Rightarrow> world \<Rightarrow> chref list" where
  "openChannels \<pi> cn w =
     entries_in (o_channels \<pi> cn (gm_keys (cn_channels (w_cn w cn)))) (cn_channels (w_cn w cn))"

definition connCleanup :: "orders \<Rightarrow> connref \<Rightarrow> world \<Rightarrow> world" where
  "connCleanup \<pi> cn w = fold (chanCleanup \<pi>) (openChannels \<pi> cn w) w"

definition ChannelOpen :: "connref \<Rightarrow> Envelope \<Rightarrow> world \<Rightarrow> world" where
  "ChannelOpen cn env w =
     (let id = co_ID (fst (decode_ChannelOpen (env_Payload env)));
          ch = w_nch w;
          w1 = w\<lparr>w_ch := (w_ch w)(ch := \<lparr>ch_id = id, ch_conn = cn, ch_consumers = []\<rparr>), w_nch := Suc ch\<rparr>;
          w2 = upd_cn cn (\<lambda>C. C\<lparr>cn_channels := gm_put id ch (cn_channels C)\<rparr>) w1
      in snd (WriteEnvelope cn 0 ChannelOpenOKType (env_RequestID env)
                (marshal_ChannelOpenOK \<lparr>cook_ID = id\<rparr>) w2))"

definition ChannelClose :: "orders \<Rightarrow> connref \<Rightarrow> Envelope \<Rightarrow> world \<Rightarrow> world" where
  "ChannelClose \<pi> cn env w =
     (let id = env_ChannelID env;
          found = gm_get (cn_channels (w_cn w cn)) id;
          w1 = upd_cn cn (\<lambda>C. C\<lparr>cn_channels := gm_del id (cn_channels C)\<rparr>) w;
          w2 = (case found of Some ch \<Rightarrow> chanCleanup \<pi> ch w1 | None \<Rightarrow> w1)
      in snd (WriteEnvelope cn id ChannelCloseOKType (env_RequestID env)
                (marshal_ChannelCloseOK \<lparr>ccok_ID = id\<rparr>) w2))"

definition channelNotOpen :: string where
  "channelNotOpen = ''channel with requested channelID not open for communication''"

definition routeToChannel :: "orders \<Rightarrow> connref \<Rightarrow> Envelope \<Rightarrow> world \<Rightarrow> world" where
  "routeToChannel \<pi> cn env w =
     (case gm_get (cn_channels (w_cn w cn)) (env_ChannelID env) of
        None \<Rightarrow> snd (WriteEnvelope cn (env_ChannelID env) ErrorType (env_RequestID env)
                  (marshal_ErrorMsg \<lparr>err_Code = [], err_Message = channelNotOpen\<rparr>) w)
      | Some ch \<Rightarrow> route \<pi> ch env w)"

definition Handle :: "orders \<Rightarrow> connref \<Rightarrow> Envelope \<Rightarrow> world \<Rightarrow> world" where
  "Handle \<pi> cn env w =
     (if env_Type env = ChannelOpenType then ChannelOpen cn env w
      else if env_Type env = ChannelCloseType then ChannelClose \<pi> cn env w
      else routeToChannel \<pi> cn env w)"

text \<open>One turn of the loop of \<^verbatim>\<open>Serve\<close>: the error that ends it, if there is one.\<close>

definition serveTurn :: "orders \<Rightarrow> connref \<Rightarrow> world \<Rightarrow> read_error option \<times> world" where
  "serveTurn \<pi> cn w =
     (case conn_ReadEnvelope cn w of
        ((_, Some e), w') \<Rightarrow> (Some e, w')
      | ((env, None), w') \<Rightarrow> (None, Handle \<pi> cn env w'))"

section \<open>The handshake\<close>

datatype handshake_error = HsRead read_error | HsWrite string

text \<open>\<open>andThen r k\<close> is \<^verbatim>\<open>if err != nil { return err }\<close> between a call and the rest.\<close>

definition andThen :: "'e option \<times> world \<Rightarrow> (world \<Rightarrow> 'e option \<times> world) \<Rightarrow> 'e option \<times> world" where
  "andThen r k = (case r of (Some e, w) \<Rightarrow> (Some e, w) | (None, w) \<Rightarrow> k w)"

definition RunHandshake :: "connref \<Rightarrow> world \<Rightarrow> handshake_error option \<times> world" where
  "RunHandshake cn w =
     andThen (apfst (map_option HsRead) (conn_ReadProtocolHeader cn w)) (\<lambda>w.
     andThen (apfst (map_option HsWrite)
       (WriteMessage cn (marshal_ConnectionStart NewConnectionStart) (setState cn StateAwaitStartOK w))) (\<lambda>w.
     andThen (apfst (map_option HsRead) (conn_ReadMessage decode_ConnectionStartOK cn w)) (\<lambda>w.
     let w = setState cn StateAwaitTuneOK w;
         tune = NewConnectionTune (sc_ChannelMax (w_config w)) (sc_FramesMax (w_config w))
                  (sc_HeartbeatSec (w_config w));
         w = snd (WriteMessage cn (marshal_ConnectionTune tune) w)
     in
     andThen (apfst (map_option HsRead) (conn_ReadMessage decode_ConnectionTuneOK cn w)) (\<lambda>w.
     andThen (apfst (map_option HsRead) (conn_ReadMessage decode_ConnectionOpen cn (setState cn StateAwaitOpen w))) (\<lambda>w.
     andThen (apfst (map_option HsWrite) (WriteMessage cn (marshal_ConnectionOpenOK NewConnectionOpenOK) w)) (\<lambda>w.
     (None, setState cn StateOpen w)))))))"

section \<open>Frame: connections\<close>

text \<open>
  \<open>same_links w w'\<close>: only what a connection reads, has written, its state and its flags may differ.
\<close>

definition same_links :: "world \<Rightarrow> world \<Rightarrow> bool" where
  "same_links w w' \<longleftrightarrow>
     (\<exists>cs. w' = w\<lparr>w_cn := cs\<rparr> \<and> (\<forall>r. cn_channels (cs r) = cn_channels (w_cn w r)))"

lemma same_linksI:
  "(\<And>r. cn_channels (cs r) = cn_channels (w_cn w r)) \<Longrightarrow> same_links w (w\<lparr>w_cn := cs\<rparr>)"
  by (auto simp: same_links_def)

lemma same_links_refl [simp]: "same_links w w"
  unfolding same_links_def by (rule exI [of _ "w_cn w"]) simp

lemma same_links_trans [trans]: "same_links w1 w2 \<Longrightarrow> same_links w2 w3 \<Longrightarrow> same_links w1 w3"
  unfolding same_links_def by auto

lemma same_links_setInput [simp]: "same_links w (setInput cn r w)"
  by (simp add: setInput_def same_linksI)

lemma same_links_setState [simp]: "same_links w (setState cn s w)"
  by (simp add: setState_def same_linksI)

lemma same_links_shutdown [simp]: "same_links w (shutdown cn w)"
  by (simp add: shutdown_def same_linksI)

lemma same_links_send [simp]: "same_links w (snd (send cn d w))"
  by (simp add: send_def same_linksI)

lemma broker_inv_same_links:
  assumes "same_links w w'" "broker_inv w"
  shows "broker_inv w'"
proof -
  obtain cs where w': "w' = w\<lparr>w_cn := cs\<rparr>" and cs: "\<And>r. cn_channels (cs r) = cn_channels (w_cn w r)"
    using assms(1) by (auto simp: same_links_def)
  have "wf_world w'" using broker_invD(1) [OF assms(2)] by (simp add: w' cs wf_world_def wf_parts)
  moreover have "accounts_ok w'"
    by (rule accounts_keep [OF broker_invD(2) [OF assms(2)]])
      (auto simp: w' contents_def held_def dest: accountsD [OF broker_invD(2) [OF assms(2)]] account_tags(2))
  ultimately show ?thesis by (simp add: broker_inv_def)
qed

lemma same_links_simps:
  assumes "same_links w w'"
  shows "w_q w' = w_q w" "w_nq w' = w_nq w" "w_c w' = w_c w" "w_nc w' = w_nc w" "w_ch w' = w_ch w"
    "w_nch w' = w_nch w" "w_ncn w' = w_ncn w" "w_metrics w' = w_metrics w" "w_queues w' = w_queues w"
    "w_connections w' = w_connections w" "w_config w' = w_config w"
    "cn_channels (w_cn w' r) = cn_channels (w_cn w r)"
  using assms by (auto simp: same_links_def)

lemma same_links_conn_ReadEnvelope: "same_links w (snd (conn_ReadEnvelope cn w))"
  by (auto simp: conn_ReadEnvelope_def split: prod.split option.split)

lemma same_links_andThen:
  assumes "same_links w (snd r)" "\<And>w'. same_links w' (snd (k w'))"
  shows "same_links w (snd (andThen r k))"
  using assms same_links_trans by (auto simp: andThen_def split: prod.splits option.splits)

lemma same_links_steps:
  assumes "same_links w w'"
  shows "same_links w (snd (conn_ReadProtocolHeader cn w'))"
    "same_links w (snd (conn_ReadMessage decode cn w'))"
    "same_links w (snd (WriteMessage cn d w'))"
    "same_links w (snd (apfst f r)) = same_links w (snd r)"
    "same_links w (setState cn s w')"
  using assms same_links_trans [OF assms]
  by (simp_all add: conn_ReadProtocolHeader_def conn_ReadMessage_def WriteMessage_def split: prod.split)

lemma same_links_RunHandshake: "same_links w (snd (RunHandshake cn w))"
  unfolding RunHandshake_def Let_def by (intro same_links_andThen) (simp_all add: same_links_steps)

lemma broker_inv_RunHandshake [wf_intros]: "broker_inv w \<Longrightarrow> broker_inv (snd (RunHandshake cn w))"
  by (rule broker_inv_same_links [OF same_links_RunHandshake])

section \<open>Connections keep the invariant\<close>

lemma broker_inv_NewConnection [wf_intros]:
  assumes "broker_inv w"
  shows "broker_inv (snd (NewConnection input ok w))"
proof -
  note wf = wf_worldD [OF broker_invD(1) [OF assms]] and ac = broker_invD(2) [OF assms]
  let ?w = "snd (NewConnection input ok w)"
  have "queues_ok ?w" "exchanges_ok ?w" "regs_ok ?w" "cons_ok ?w"
    using wf by (simp_all add: wf_parts NewConnection_def)
  moreover have "chans_ok ?w"
    using wf(5) unfolding chans_ok_def NewConnection_def by (simp add: less_SucI)
  moreover have "conns_ok ?w"
    using wf(6) unfolding conns_ok_def NewConnection_def by (auto simp: less_Suc_eq)
  moreover have "accounts_ok ?w"
    by (rule accounts_keep [OF ac])
      (auto simp: NewConnection_def contents_def held_def dest: accountsD [OF ac] account_tags(2))
  ultimately show ?thesis by (simp add: broker_inv_def wf_world_def)
qed

lemma broker_inv_ChannelOpen [wf_intros]:
  assumes inv: "broker_inv w" and cn: "cn < w_ncn w"
  shows "broker_inv (ChannelOpen cn env w)"
proof -
  note wf = wf_worldD [OF broker_invD(1) [OF inv]] and ac = broker_invD(2) [OF inv]
  define i where "i = co_ID (fst (decode_ChannelOpen (env_Payload env)))"
  define w1 where "w1 = w\<lparr>w_ch := (w_ch w)(w_nch w := \<lparr>ch_id = i, ch_conn = cn, ch_consumers = []\<rparr>),
    w_nch := Suc (w_nch w),
    w_cn := (w_cn w)(cn := (w_cn w cn)\<lparr>cn_channels := gm_put i (w_nch w) (cn_channels (w_cn w cn))\<rparr>)\<rparr>"
  have "queues_ok w1" "exchanges_ok w1" "regs_ok w1"
    using wf by (simp_all add: wf_parts w1_def)
  moreover have "cons_ok w1" using wf(4) unfolding cons_ok_def w1_def by (simp add: less_SucI)
  moreover have "chans_ok w1" using wf(5) cn unfolding chans_ok_def w1_def by (simp add: less_Suc_eq)
  moreover have "conns_ok w1"
    using wf(6) cn unfolding conns_ok_def w1_def
    by (auto simp: gm.get_put gm.wf_put less_Suc_eq split: if_splits)
  moreover have "accounts_ok w1"
    by (rule accounts_keep [OF ac])
      (auto simp: w1_def contents_def held_def dest: accountsD [OF ac] account_tags(2))
  ultimately have "broker_inv w1" by (simp add: broker_inv_def wf_world_def)
  from broker_inv_same_broker [OF same_broker_WriteEnvelope this]
  show ?thesis by (simp add: ChannelOpen_def Let_def w1_def i_def)
qed

lemma broker_inv_delChannel:
  assumes inv: "broker_inv w" and cn: "cn < w_ncn w"
  shows "broker_inv (upd_cn cn (\<lambda>C. C\<lparr>cn_channels := gm_del i (cn_channels C)\<rparr>) w)" (is "broker_inv ?w")
proof -
  note wf = wf_worldD [OF broker_invD(1) [OF inv]] and ac = broker_invD(2) [OF inv]
  have "queues_ok ?w" "exchanges_ok ?w" "regs_ok ?w" "cons_ok ?w" "chans_ok ?w"
    using wf by (simp_all add: wf_parts)
  moreover have "conns_ok ?w"
    using wf(6) unfolding conns_ok_def by (auto simp: gm.get_del gm.wf_del split: if_splits)
  moreover have "accounts_ok ?w"
    by (rule accounts_keep [OF ac])
      (auto simp: contents_def held_def dest: accountsD [OF ac] account_tags(2))
  ultimately show ?thesis by (simp add: broker_inv_def wf_world_def)
qed

lemma broker_inv_ChannelClose [wf_intros]:
  assumes inv: "broker_inv w" and \<pi>: "orders_ok \<pi>" and cn: "cn < w_ncn w"
  shows "broker_inv (ChannelClose \<pi> cn env w)"
proof -
  note inv1 = broker_inv_delChannel [OF inv cn]
  have "broker_inv (case gm_get (cn_channels (w_cn w cn)) (env_ChannelID env) of
      Some ch \<Rightarrow> chanCleanup \<pi> ch
        (upd_cn cn (\<lambda>C. C\<lparr>cn_channels := gm_del (env_ChannelID env) (cn_channels C)\<rparr>) w)
    | None \<Rightarrow> upd_cn cn (\<lambda>C. C\<lparr>cn_channels := gm_del (env_ChannelID env) (cn_channels C)\<rparr>) w)"
    using inv1 broker_inv_chanCleanup [OF inv1 \<pi>] wf_connection(2) [OF broker_invD(1) [OF inv] cn]
    by (simp split: option.split)
  from broker_inv_same_broker [OF same_broker_WriteEnvelope this]
  show ?thesis unfolding ChannelClose_def Let_def .
qed

lemma broker_inv_Handle [wf_intros]:
  assumes inv: "broker_inv w" and \<pi>: "orders_ok \<pi>" and cn: "cn < w_ncn w"
  shows "broker_inv (Handle \<pi> cn env w)"
proof -
  have "broker_inv (routeToChannel \<pi> cn env w)"
    using broker_inv_route [OF inv \<pi>] wf_connection(2) [OF broker_invD(1) [OF inv] cn]
      broker_inv_same_broker [OF same_broker_WriteEnvelope inv]
    by (simp add: routeToChannel_def split: option.split)
  then show ?thesis
    using broker_inv_ChannelOpen [OF inv cn] broker_inv_ChannelClose [OF inv \<pi> cn]
    by (simp add: Handle_def)
qed

lemma broker_inv_serveTurn [wf_intros]:
  assumes inv: "broker_inv w" and \<pi>: "orders_ok \<pi>" and cn: "cn < w_ncn w"
  shows "broker_inv (snd (serveTurn \<pi> cn w))"
proof -
  note sl = same_links_conn_ReadEnvelope [of w cn]
  have inv': "broker_inv (snd (conn_ReadEnvelope cn w))" by (rule broker_inv_same_links [OF sl inv])
  have "cn < w_ncn (snd (conn_ReadEnvelope cn w))" using cn by (simp add: same_links_simps [OF sl])
  from broker_inv_Handle [OF inv' \<pi> this] inv' show ?thesis
    by (auto simp: serveTurn_def split: prod.splits option.splits)
qed

section \<open>Closing a connection\<close>

lemma chanCleanup_frame [simp]:
  "w_nq (chanCleanup \<pi> ch w) = w_nq w" "w_nc (chanCleanup \<pi> ch w) = w_nc w"
  "w_nch (chanCleanup \<pi> ch w) = w_nch w" "w_ch (chanCleanup \<pi> ch w) = w_ch w"
  "w_ncn (chanCleanup \<pi> ch w) = w_ncn w" "w_cn (chanCleanup \<pi> ch w) = w_cn w"
  "w_connections (chanCleanup \<pi> ch w) = w_connections w"
proof -
  have "w_nq (fold (\<lambda>c w. unregisterConsumer \<pi> (c_queue (w_c w c)) c w) cs w) = w_nq w \<and>
    w_nc (fold (\<lambda>c w. unregisterConsumer \<pi> (c_queue (w_c w c)) c w) cs w) = w_nc w \<and>
    w_nch (fold (\<lambda>c w. unregisterConsumer \<pi> (c_queue (w_c w c)) c w) cs w) = w_nch w \<and>
    w_ch (fold (\<lambda>c w. unregisterConsumer \<pi> (c_queue (w_c w c)) c w) cs w) = w_ch w \<and>
    w_ncn (fold (\<lambda>c w. unregisterConsumer \<pi> (c_queue (w_c w c)) c w) cs w) = w_ncn w \<and>
    w_cn (fold (\<lambda>c w. unregisterConsumer \<pi> (c_queue (w_c w c)) c w) cs w) = w_cn w \<and>
    w_connections (fold (\<lambda>c w. unregisterConsumer \<pi> (c_queue (w_c w c)) c w) cs w) = w_connections w" for cs
    by (induction cs arbitrary: w) simp_all
  then show "w_nq (chanCleanup \<pi> ch w) = w_nq w" "w_nc (chanCleanup \<pi> ch w) = w_nc w"
    "w_nch (chanCleanup \<pi> ch w) = w_nch w" "w_ch (chanCleanup \<pi> ch w) = w_ch w"
    "w_ncn (chanCleanup \<pi> ch w) = w_ncn w" "w_cn (chanCleanup \<pi> ch w) = w_cn w"
    "w_connections (chanCleanup \<pi> ch w) = w_connections w"
    by (simp_all add: chanCleanup_def)
qed

lemma openChannels_valid:
  assumes "wf_world w" "cn < w_ncn w" "ch \<in> set (openChannels \<pi> cn w)"
  shows "ch < w_nch w"
proof -
  obtain i where "gm_get (cn_channels (w_cn w cn)) i = Some ch"
    using assms(3) by (auto simp: openChannels_def entries_in_def map_filter_def)
  then show ?thesis by (rule wf_connection(2) [OF assms(1,2)])
qed

lemma broker_inv_cleanups:
  "broker_inv w \<Longrightarrow> orders_ok \<pi> \<Longrightarrow> \<forall>ch \<in> set chs. ch < w_nch w \<Longrightarrow> broker_inv (fold (chanCleanup \<pi>) chs w)"
  by (induction chs arbitrary: w) (simp_all add: broker_inv_chanCleanup)

lemma broker_inv_connCleanup [wf_intros]:
  assumes inv: "broker_inv w" and \<pi>: "orders_ok \<pi>" and cn: "cn < w_ncn w"
  shows "broker_inv (connCleanup \<pi> cn w)"
  unfolding connCleanup_def
  using openChannels_valid [OF broker_invD(1) [OF inv] cn]
  by (intro broker_inv_cleanups [OF inv \<pi>]) blast

text \<open>What the cleanup of channels and connections does: it gives the messages back.\<close>

lemma unregister_consumer [simp]:
  "c_queue (w_c (unregisterConsumer \<pi> q c w) c') = c_queue (w_c w c')"
  "c_tag (w_c (unregisterConsumer \<pi> q c w) c') = c_tag (w_c w c')"
  by (simp_all add: unregisterConsumer_def Let_def fold_returnPending)

lemma unregister_registered:
  assumes "gm_has c' (q_consumers (w_q (unregisterConsumer \<pi> q c w) q'))"
  shows "gm_has c' (q_consumers (w_q w q'))" "q' = q \<Longrightarrow> c' \<noteq> c"
  using assms
  by (auto simp: unregisterConsumer_def Let_def fold_returnPending gm_has_def gm.keys_del split: if_splits)

lemma unregisters_unregistered:
  "gm_has c (q_consumers (w_q (fold (\<lambda>c w. unregisterConsumer \<pi> (c_queue (w_c w c)) c w) cs w)
      (c_queue (w_c w c)))) \<Longrightarrow>
   gm_has c (q_consumers (w_q w (c_queue (w_c w c)))) \<and> c \<notin> set cs"
proof (induction cs arbitrary: w)
  case (Cons c' cs)
  let ?w = "unregisterConsumer \<pi> (c_queue (w_c w c')) c' w"
  have "gm_has c (q_consumers (w_q ?w (c_queue (w_c ?w c)))) \<and> c \<notin> set cs"
    using Cons.IH [of ?w] Cons.prems by simp
  then show ?case using unregister_registered [of c \<pi> "c_queue (w_c w c')" c' w "c_queue (w_c w c)"] by auto
qed simp

lemma chanCleanup_queue [simp]: "c_queue (w_c (chanCleanup \<pi> ch w) c) = c_queue (w_c w c)"
proof -
  have "c_queue (w_c (fold (\<lambda>c w. unregisterConsumer \<pi> (c_queue (w_c w c)) c w) cs w) c) = c_queue (w_c w c)" for cs
    by (induction cs arbitrary: w) simp_all
  then show ?thesis by (simp add: chanCleanup_def)
qed

lemma channelConsumers_frame:
  "w_ch w' = w_ch w \<Longrightarrow> channelConsumers \<pi> ch w' = channelConsumers \<pi> ch w"
  by (simp add: channelConsumers_def)

lemma cleanups_unregistered:
  "gm_has c (q_consumers (w_q (fold (chanCleanup \<pi>) chs w) (c_queue (w_c w c)))) \<Longrightarrow>
   gm_has c (q_consumers (w_q w (c_queue (w_c w c)))) \<and> (\<forall>ch \<in> set chs. c \<notin> set (channelConsumers \<pi> ch w))"
proof (induction chs arbitrary: w)
  case (Cons ch chs)
  let ?w = "chanCleanup \<pi> ch w"
  have IH: "gm_has c (q_consumers (w_q ?w (c_queue (w_c w c)))) \<and>
      (\<forall>ch \<in> set chs. c \<notin> set (channelConsumers \<pi> ch w))"
    using Cons.IH [of ?w] Cons.prems by (simp add: channelConsumers_frame [of ?w w])
  then show ?case
    using unregisters_unregistered [of c \<pi> "channelConsumers \<pi> ch w" w] by (auto simp: chanCleanup_def)
qed simp

lemma contents_unregisters:
  "broker_inv w \<Longrightarrow> orders_ok \<pi> \<Longrightarrow> \<forall>c \<in> set cs. c < w_nc w \<Longrightarrow> q < w_nq w \<Longrightarrow>
   contents (fold (\<lambda>c w. unregisterConsumer \<pi> (c_queue (w_c w c)) c w) cs w) q = contents w q"
proof (induction cs arbitrary: w)
  case (Cons c cs)
  note wf = broker_invD(1) [OF Cons.prems(1)]
  have cq: "c_queue (w_c w c) < w_nq w" using wf_consumer(3) [OF wf] Cons.prems(3) by simp
  note inv' = broker_inv_ops(7) [OF Cons.prems(1,2) cq]
  from Cons.IH [OF inv'] contents_unregister [OF wf Cons.prems(2) cq] Cons.prems show ?case by simp
qed simp

lemma contents_chanCleanup:
  assumes "broker_inv w" "orders_ok \<pi>" "ch < w_nch w" "q < w_nq w"
  shows "contents (chanCleanup \<pi> ch w) q = contents w q"
  unfolding chanCleanup_def
  using channelConsumers_valid(1) [OF broker_invD(1) [OF assms(1)] assms(3)]
  by (intro contents_unregisters [OF assms(1,2) _ assms(4)]) blast

lemma contents_cleanups:
  "broker_inv w \<Longrightarrow> orders_ok \<pi> \<Longrightarrow> \<forall>ch \<in> set chs. ch < w_nch w \<Longrightarrow> q < w_nq w \<Longrightarrow>
   contents (fold (chanCleanup \<pi>) chs w) q = contents w q"
  by (induction chs arbitrary: w) (simp_all add: broker_inv_chanCleanup contents_chanCleanup)

lemma contents_connCleanup:
  assumes "broker_inv w" "orders_ok \<pi>" "cn < w_ncn w" "q < w_nq w"
  shows "contents (connCleanup \<pi> cn w) q = contents w q"
  unfolding connCleanup_def
  using openChannels_valid [OF broker_invD(1) [OF assms(1)] assms(3)]
  by (intro contents_cleanups [OF assms(1,2) _ assms(4)]) blast

text \<open>The consumers that closing a connection removes: those of its open channels.\<close>

definition connConsumers :: "connref \<Rightarrow> world \<Rightarrow> cref set" where
  "connConsumers cn w =
     {c. \<exists>i ch t. gm_get (cn_channels (w_cn w cn)) i = Some ch \<and> gm_get (ch_consumers (w_ch w ch)) t = Some c}"

lemma set_openChannels:
  assumes "wf_world w" "cn < w_ncn w" "orders_ok \<pi>"
  shows "set (openChannels \<pi> cn w) = snd ` set (cn_channels (w_cn w cn))"
  using mset_entries_in [OF orders_range(5) [OF assms(3)] wf_connection(1) [OF assms(1,2)]]
  unfolding openChannels_def by (metis set_map set_mset_mset)

lemma connConsumers_cleaned:
  assumes wf: "wf_world w" and \<pi>: "orders_ok \<pi>" and cn: "cn < w_ncn w" and c: "c \<in> connConsumers cn w"
  shows "\<exists>ch \<in> set (openChannels \<pi> cn w). c \<in> set (channelConsumers \<pi> ch w)"
proof -
  obtain i ch t where ch: "gm_get (cn_channels (w_cn w cn)) i = Some ch"
    and t: "gm_get (ch_consumers (w_ch w ch)) t = Some c"
    using c by (auto simp: connConsumers_def)
  have "ch \<in> set (openChannels \<pi> cn w)"
    using ch set_openChannels [OF wf cn \<pi>] by (force dest: gm_get_in)
  moreover have "c \<in> set (channelConsumers \<pi> ch w)"
    using t set_channelConsumers [OF wf wf_connection(2) [OF wf cn ch] \<pi>] by (force dest: gm_get_in)
  ultimately show ?thesis by blast
qed

lemma connCleanup_queue [simp]: "c_queue (w_c (connCleanup \<pi> cn w) c) = c_queue (w_c w c)"
proof -
  have "c_queue (w_c (fold (chanCleanup \<pi>) chs w) c) = c_queue (w_c w c)" for chs
    by (induction chs arbitrary: w) simp_all
  then show ?thesis by (simp add: connCleanup_def)
qed

lemma connCleanup_frame [simp]:
  "w_nq (connCleanup \<pi> cn w) = w_nq w" "w_nc (connCleanup \<pi> cn w) = w_nc w"
  "w_nch (connCleanup \<pi> cn w) = w_nch w" "w_ch (connCleanup \<pi> cn w) = w_ch w"
  "w_ncn (connCleanup \<pi> cn w) = w_ncn w" "w_cn (connCleanup \<pi> cn w) = w_cn w"
  "w_connections (connCleanup \<pi> cn w) = w_connections w"
proof -
  have "w_nq (fold (chanCleanup \<pi>) chs w) = w_nq w \<and> w_nc (fold (chanCleanup \<pi>) chs w) = w_nc w \<and>
    w_nch (fold (chanCleanup \<pi>) chs w) = w_nch w \<and> w_ch (fold (chanCleanup \<pi>) chs w) = w_ch w \<and>
    w_ncn (fold (chanCleanup \<pi>) chs w) = w_ncn w \<and> w_cn (fold (chanCleanup \<pi>) chs w) = w_cn w \<and>
    w_connections (fold (chanCleanup \<pi>) chs w) = w_connections w" for chs
    by (induction chs arbitrary: w) simp_all
  then show "w_nq (connCleanup \<pi> cn w) = w_nq w" "w_nc (connCleanup \<pi> cn w) = w_nc w"
    "w_nch (connCleanup \<pi> cn w) = w_nch w" "w_ch (connCleanup \<pi> cn w) = w_ch w"
    "w_ncn (connCleanup \<pi> cn w) = w_ncn w" "w_cn (connCleanup \<pi> cn w) = w_cn w"
    "w_connections (connCleanup \<pi> cn w) = w_connections w"
    by (simp_all add: connCleanup_def)
qed

lemma connCleanup_unregistered:
  assumes inv: "broker_inv w" and \<pi>: "orders_ok \<pi>" and cn: "cn < w_ncn w" and c: "c \<in> connConsumers cn w"
  shows "\<not> gm_has c (q_consumers (w_q (connCleanup \<pi> cn w) (c_queue (w_c w c))))"
    "c_pendingMessages (w_c (connCleanup \<pi> cn w) c) = []"
proof -
  note wf = broker_invD(1) [OF inv]
  show 1: "\<not> gm_has c (q_consumers (w_q (connCleanup \<pi> cn w) (c_queue (w_c w c))))"
    using cleanups_unregistered [of c \<pi> "openChannels \<pi> cn w" w] connConsumers_cleaned [OF wf \<pi> cn c]
    by (auto simp: connCleanup_def)
  have "c < w_nc w" using c wf_connection(2) [OF wf cn] wf_channel(3) [OF wf] unfolding connConsumers_def by blast
  then show "c_pendingMessages (w_c (connCleanup \<pi> cn w) c) = []"
    using wf_consumer(5) [OF broker_invD(1) [OF broker_inv_connCleanup [OF inv \<pi> cn]], of c] 1 by simp
qed

section \<open>The serving loop\<close>

text \<open>
  No handler reads from a connection, so every turn of \<open>Serve\<close> consumes exactly one line and the
  loop ends with the stream.
\<close>

definition same_session :: "world \<Rightarrow> world \<Rightarrow> bool" where
  "same_session w w' \<longleftrightarrow>
     w_ncn w' = w_ncn w \<and> w_connections w' = w_connections w \<and>
     (\<forall>r. cn_in (w_cn w' r) = cn_in (w_cn w r) \<and> cn_state (w_cn w' r) = cn_state (w_cn w r))"

lemma same_sessionI:
  "w_cn w' = w_cn w \<Longrightarrow> w_ncn w' = w_ncn w \<Longrightarrow> w_connections w' = w_connections w \<Longrightarrow> same_session w w'"
  by (simp add: same_session_def)

lemma same_session_trans [trans]: "same_session w1 w2 \<Longrightarrow> same_session w2 w3 \<Longrightarrow> same_session w1 w3"
  by (simp add: same_session_def)

lemma same_session_WriteEnvelope [simp]: "same_session w (snd (WriteEnvelope cn ch ty rq m w')) = same_session w w'"
  by (simp add: same_session_def)

lemma same_session_reply [simp]: "same_session w (reply ch env ty p w') = same_session w w'"
  by (simp add: same_session_def)

lemma same_session_replyError [simp]: "same_session w (replyError ch env t w') = same_session w w'"
  by (simp add: same_session_def)

lemma Publish_cn [simp]:
  "w_cn (snd (Publish \<pi> ex rk b w)) = w_cn w"
  "w_ncn (snd (Publish \<pi> ex rk b w)) = w_ncn w"
  "w_connections (snd (Publish \<pi> ex rk b w)) = w_connections w"
proof -
  have "w_cn (fold (publishTo ex rk b) qs w) = w_cn w \<and> w_ncn (fold (publishTo ex rk b) qs w) = w_ncn w \<and>
      w_connections (fold (publishTo ex rk b) qs w) = w_connections w" for qs w
    by (induction qs arbitrary: w) (simp_all add: publishTo_def enqueue_def Let_def)
  then show "w_cn (snd (Publish \<pi> ex rk b w)) = w_cn w" "w_ncn (snd (Publish \<pi> ex rk b w)) = w_ncn w"
    "w_connections (snd (Publish \<pi> ex rk b w)) = w_connections w"
    by (simp_all add: Publish_def Let_def split: option.split)
qed

lemma RegisterConsumer_cn [simp]:
  "w_cn (snd (RegisterConsumer s n ch w)) = w_cn w" "w_ncn (snd (RegisterConsumer s n ch w)) = w_ncn w"
  "w_connections (snd (RegisterConsumer s n ch w)) = w_connections w"
  by (simp_all add: RegisterConsumer_def registerConsumer_def Let_def split: option.split)

lemma broker_ops_cn [simp]:
  "w_cn (snd (Ack \<pi> n t w)) = w_cn w" "w_ncn (snd (Ack \<pi> n t w)) = w_ncn w"
  "w_connections (snd (Ack \<pi> n t w)) = w_connections w"
  "w_cn (DeclareQueue n d k w) = w_cn w" "w_ncn (DeclareQueue n d k w) = w_ncn w"
  "w_connections (DeclareQueue n d k w) = w_connections w"
  "w_cn (DeclareExchange n w) = w_cn w" "w_ncn (DeclareExchange n w) = w_ncn w"
  "w_connections (DeclareExchange n w) = w_connections w"
  "w_cn (snd (BindQueue ex n rk w)) = w_cn w" "w_ncn (snd (BindQueue ex n rk w)) = w_ncn w"
  "w_connections (snd (BindQueue ex n rk w)) = w_connections w"
  by (simp_all add: Ack_def DeclareQueue_def DeclareExchange_def BindQueue_def bind_def Let_def
      split: option.split)

lemma same_session_route: "same_session w (route \<pi> ch env w)"
proof -
  have pub: "same_session w w'" if "Publish \<pi> ex rk b w = (e, w')" for ex rk b e w'
    using Publish_cn [of \<pi> ex rk b w, unfolded that] by (simp add: same_sessionI)
  have reg: "same_session w w'" if "RegisterConsumer s n ch w = (e, w')" for s n e w'
    using RegisterConsumer_cn [of s n ch w, unfolded that] by (simp add: same_sessionI)
  have "same_session w (HandlePublish \<pi> ch env w)"
    by (auto simp: HandlePublish_def same_sessionI dest: pub split: prod.splits option.splits)
  moreover have "same_session w (HandleConsume \<pi> ch env w)"
    by (auto simp: HandleConsume_def same_sessionI dest: reg split: prod.splits option.splits sum.splits)
  moreover have "same_session w (HandleAck \<pi> ch env w)"
    by (simp add: HandleAck_def same_sessionI split: prod.split option.split)
  moreover have "same_session w (HandleNack \<pi> ch env w)"
    by (simp add: HandleNack_def nackMessage_def same_sessionI Let_def split: prod.split option.split)
  moreover have "same_session w (HandleQueueDeclare ch env w)" "same_session w (HandleExchangeDeclare ch env w)"
    "same_session w (HandleQueueBind ch env w)"
    by (simp_all add: HandleQueueDeclare_def HandleExchangeDeclare_def HandleQueueBind_def same_sessionI Let_def
        split: prod.split option.split)
  ultimately show ?thesis by (simp add: route_def same_sessionI)
qed

lemma same_session_Handle: "same_session w (Handle \<pi> cn env w)"
  using same_session_route
  by (simp add: Handle_def ChannelOpen_def ChannelClose_def routeToChannel_def same_session_def Let_def
      split: option.split)

lemma input_serveTurn: "cn_in (w_cn (snd (serveTurn \<pi> cn w)) cn) = tl (cn_in (w_cn w cn))"
proof -
  have "cn_in (w_cn (snd (conn_ReadEnvelope cn w)) cn) = tl (cn_in (w_cn w cn))"
    by (cases "cn_in (w_cn w cn)")
      (auto simp: conn_ReadEnvelope_def ReadEnvelope_def setInput_def split: prod.split option.split)
  then show ?thesis
    using same_session_Handle by (auto simp: serveTurn_def same_session_def split: prod.splits option.splits)
qed

lemma serveTurn_end: "cn_in (w_cn w cn) = [] \<Longrightarrow> fst (serveTurn \<pi> cn w) = Some ReadEOF"
  by (simp add: serveTurn_def conn_ReadEnvelope_def ReadEnvelope_def)

function Serve :: "(nat \<Rightarrow> orders) \<Rightarrow> connref \<Rightarrow> world \<Rightarrow> read_error \<times> world" where
  "Serve \<pi>s cn w =
     (case serveTurn (\<pi>s (length (cn_in (w_cn w cn)))) cn w of
        (Some e, w') \<Rightarrow> (e, w')
      | (None, w') \<Rightarrow> Serve \<pi>s cn w')"
  by pat_completeness auto

termination Serve
proof (relation "measure (\<lambda>(\<pi>s, cn, w). length (cn_in (w_cn w cn)))", goal_cases)
  case (2 \<pi>s cn w x w')
  have "cn_in (w_cn w cn) \<noteq> []"
    using 2 serveTurn_end [of w cn "\<pi>s (length (cn_in (w_cn w cn)))"] by (auto dest: sym)
  then show ?case
    using 2 input_serveTurn [of "\<pi>s (length (cn_in (w_cn w cn)))" cn w] by (auto dest: sym)
qed simp

declare Serve.simps [simp del]

lemma session_serveTurn:
  "w_ncn (snd (serveTurn \<pi> cn w)) = w_ncn w"
  "w_connections (snd (serveTurn \<pi> cn w)) = w_connections w"
  "cn_state (w_cn (snd (serveTurn \<pi> cn w)) r) = cn_state (w_cn w r)"
proof -
  have "w_ncn (snd (conn_ReadEnvelope cn w)) = w_ncn w \<and>
      w_connections (snd (conn_ReadEnvelope cn w)) = w_connections w \<and>
      cn_state (w_cn (snd (conn_ReadEnvelope cn w)) r) = cn_state (w_cn w r)"
    by (simp add: conn_ReadEnvelope_def setInput_def split: prod.split option.split)
  then show "w_ncn (snd (serveTurn \<pi> cn w)) = w_ncn w"
    "w_connections (snd (serveTurn \<pi> cn w)) = w_connections w"
    "cn_state (w_cn (snd (serveTurn \<pi> cn w)) r) = cn_state (w_cn w r)"
    using same_session_Handle by (auto simp: serveTurn_def same_session_def split: prod.splits option.splits)
qed

lemma broker_inv_Serve [wf_intros]:
  assumes "broker_inv w" "\<And>n. orders_ok (\<pi>s n)" "cn < w_ncn w"
  shows "broker_inv (snd (Serve \<pi>s cn w))"
  using assms
proof (induction \<pi>s cn w rule: Serve.induct)
  case (1 \<pi>s cn w)
  let ?t = "serveTurn (\<pi>s (length (cn_in (w_cn w cn)))) cn w"
  have "broker_inv (snd ?t)" "cn < w_ncn (snd ?t)"
    using 1(2-4) by (simp_all add: broker_inv_serveTurn session_serveTurn)
  with 1 show ?case by (subst Serve.simps) (auto split: prod.splits option.splits)
qed

section \<open>What the handshake accepts\<close>

text \<open>A line is accepted as a message when it decodes; the \<^verbatim>\<open>type\<close> field is not looked at.\<close>

definition accepts :: "(json option \<Rightarrow> 'a \<times> unmarshal_error option) \<Rightarrow> line \<Rightarrow> bool" where
  "accepts decode l \<longleftrightarrow> snd (unmarshalLine decode l) = None"

definition clientHello :: "line list \<Rightarrow> bool" where
  "clientHello input \<longleftrightarrow>
     4 \<le> length input \<and> input ! 0 = TextLine ProtocolHeader \<and>
     accepts decode_ConnectionStartOK (input ! 1) \<and> accepts decode_ConnectionTuneOK (input ! 2) \<and>
     accepts decode_ConnectionOpen (input ! 3)"

definition serverHello :: "ServerConfig \<Rightarrow> json list" where
  "serverHello cfg =
     [marshal_ConnectionStart NewConnectionStart,
      marshal_ConnectionTune (NewConnectionTune (sc_ChannelMax cfg) (sc_FramesMax cfg) (sc_HeartbeatSec cfg)),
      marshal_ConnectionOpenOK NewConnectionOpenOK]"

lemma ReadMessage_accepts:
  "snd (fst (ReadMessage decode (l # r))) = None \<longleftrightarrow> accepts decode l" "snd (ReadMessage decode (l # r)) = r"
  by (simp_all add: accepts_def)

lemma conn_ReadMessage_Cons:
  assumes "cn_in (w_cn w cn) = l # r"
  shows "accepts decode l \<Longrightarrow> conn_ReadMessage decode cn w = (None, setInput cn r w)"
    "\<not> accepts decode l \<Longrightarrow> \<exists>e. conn_ReadMessage decode cn w = (Some e, setInput cn r w)"
  using assms by (auto simp: conn_ReadMessage_def accepts_def split: prod.split)

lemma conn_ReadMessage_Nil:
  "cn_in (w_cn w cn) = [] \<Longrightarrow> conn_ReadMessage decode cn w = (Some ReadEOF, setInput cn [] w)"
  by (simp add: conn_ReadMessage_def)

lemma RunHandshake_accepts:
  assumes "clientHello (cn_in (w_cn w cn))" "\<not> cn_closed (w_cn w cn)" "cn_netok (w_cn w cn)"
  shows "RunHandshake cn w =
    (None, upd_cn cn (\<lambda>C. C\<lparr>cn_in := drop 4 (cn_in C), cn_out := cn_out C @ serverHello (w_config w),
                            cn_state := StateOpen\<rparr>) w)"
proof -
  obtain a b c r where inp: "cn_in (w_cn w cn) = TextLine ProtocolHeader # a # b # c # r"
    and acc: "accepts decode_ConnectionStartOK a" "accepts decode_ConnectionTuneOK b"
      "accepts decode_ConnectionOpen c"
    using assms(1) by (auto simp: clientHello_def neq_Nil_conv numeral_eq_Suc Suc_le_length_iff)
  show ?thesis
    using assms(2,3) inp acc
    by (simp add: RunHandshake_def andThen_def conn_ReadProtocolHeader_def conn_ReadMessage_Cons
        WriteMessage_def send_def setInput_def setState_def serverHello_def fun_upd_idem_iff)
qed

lemma andThen_read:
  "fst (andThen (apfst (map_option f) (conn_ReadMessage decode cn w)) k) = None \<longleftrightarrow>
     (\<exists>l r. cn_in (w_cn w cn) = l # r \<and> accepts decode l \<and> fst (k (setInput cn r w)) = None)"
  by (cases "cn_in (w_cn w cn)")
    (auto simp: andThen_def conn_ReadMessage_def accepts_def split: prod.splits option.splits)

lemma andThen_write:
  "fst (andThen (apfst (map_option f) (WriteMessage cn d w)) k) = None \<longleftrightarrow>
     \<not> cn_closed (w_cn w cn) \<and> cn_netok (w_cn w cn) \<and>
     fst (k (upd_cn cn (\<lambda>C. C\<lparr>cn_out := cn_out C @ [d]\<rparr>) w)) = None"
  by (simp add: andThen_def WriteMessage_def send_def)

lemma andThen_header:
  "fst (andThen (apfst (map_option f) (conn_ReadProtocolHeader cn w)) k) = None \<longleftrightarrow>
     (cn_in (w_cn w cn) = [] \<or> hd (cn_in (w_cn w cn)) = TextLine ProtocolHeader) \<and>
     fst (k (setInput cn (tl (cn_in (w_cn w cn))) w)) = None"
  by (cases "cn_in (w_cn w cn)") (auto simp: andThen_def conn_ReadProtocolHeader_def)

lemma snd_WriteMessage:
  "\<not> cn_closed (w_cn w cn) \<Longrightarrow> cn_netok (w_cn w cn) \<Longrightarrow>
   snd (WriteMessage cn d w) = upd_cn cn (\<lambda>C. C\<lparr>cn_out := cn_out C @ [d]\<rparr>) w"
  by (simp add: WriteMessage_def send_def)

lemma RunHandshake_None:
  assumes "fst (RunHandshake cn w) = None"
  shows "clientHello (cn_in (w_cn w cn))" "\<not> cn_closed (w_cn w cn)" "cn_netok (w_cn w cn)"
proof -
  have ok: "\<not> cn_closed (w_cn w cn) \<and> cn_netok (w_cn w cn)"
    using assms by (simp add: RunHandshake_def andThen_write andThen_header setState_def setInput_def)
  then show "\<not> cn_closed (w_cn w cn)" "cn_netok (w_cn w cn)" by simp_all
  show "clientHello (cn_in (w_cn w cn))"
    using assms ok
    by (cases "cn_in (w_cn w cn)")
      (auto simp: RunHandshake_def andThen_write andThen_header andThen_read setState_def setInput_def
        snd_WriteMessage clientHello_def Let_def)
qed

end
