(* ===== verification/ServerOps.thy ===== *)
theory ServerOps
  imports ConnOps
begin

text \<open>
  The server: \<^verbatim>\<open>broker/server.go\<close>, \<^verbatim>\<open>NewBroker\<close> and the state collector of
  \<^verbatim>\<open>broker/metrics.go\<close>. \<open>HandleConnection\<close> is the life of one connection on its own;
  \<open>server_step\<close> interleaves any number of connections with the dispatch goroutines of the queues
  and with failing sockets, and every state it reaches satisfies \<open>broker_inv\<close>.
\<close>

section \<open>Starting\<close>

definition zeroQueue :: Queue where
  "zeroQueue = \<lparr>q_name = [], q_messages = [], q_consumers = [], q_nextTag = 0, q_dlx = [], q_dlxRoutingKey = []\<rparr>"

definition zeroConsumer :: Consumer where
  "zeroConsumer = \<lparr>c_tag = [], c_queue = 0, c_channel = 0, c_prefetch = 0, c_inflight = 0,
     c_inflightTags = [], c_pendingMessages = []\<rparr>"

definition zeroConnection :: Connection where
  "zeroConnection = \<lparr>cn_in = [], cn_out = [], cn_netok = False, cn_channels = [],
     cn_state = StateAwaitProtocolHeader, cn_closed = False\<rparr>"

text \<open>A broker has no queue and no exchange and counts with the metrics it is given.\<close>

definition NewBroker :: "Metrics \<Rightarrow> world \<Rightarrow> world" where
  "NewBroker m w = w\<lparr>w_queues := [], w_exchanges := [], w_metrics := m\<rparr>"

declare NewBroker_def [simp]

text \<open>An empty server: nothing allocated, no connection, and a new broker, all counters zero.\<close>

definition NewServer :: "ServerConfig \<Rightarrow> world" where
  "NewServer serverconfig =
     (let s = \<lparr>w_q = (\<lambda>_. zeroQueue), w_nq = 0,
          w_e = (\<lambda>_. \<lparr>e_name = [], e_bindings = []\<rparr>), w_ne = 0,
          w_c = (\<lambda>_. zeroConsumer), w_nc = 0,
          w_ch = (\<lambda>_. \<lparr>ch_id = 0, ch_conn = 0, ch_consumers = []\<rparr>), w_nch = 0,
          w_cn = (\<lambda>_. zeroConnection), w_ncn = 0,
          w_queues = [], w_exchanges = [], w_metrics = NewMetrics, w_connections = [],
          w_config = serverconfig\<rparr>;
          m = NewMetrics
      in NewBroker m s)"

section \<open>The life of a connection\<close>

definition acceptConn :: "line list \<Rightarrow> bool \<Rightarrow> world \<Rightarrow> connref \<times> world" where
  "acceptConn input netok w =
     (case NewConnection input netok w of (cn, w1) \<Rightarrow>
        (cn, upd_m (\<lambda>M. M\<lparr>mt_ConnectionsOpened := Suc (mt_ConnectionsOpened M)\<rparr>)
               (w1\<lparr>w_connections := gm_put cn () (w_connections w1)\<rparr>)))"

text \<open>The deferred function. Closing the socket makes later writes fail.\<close>

definition closeConn :: "orders \<Rightarrow> connref \<Rightarrow> world \<Rightarrow> world" where
  "closeConn \<pi> cn w =
     (let w1 = upd_m (\<lambda>M. M\<lparr>mt_ConnectionsClosed := Suc (mt_ConnectionsClosed M)\<rparr>) w;
          w2 = shutdown cn w1;
          w3 = connCleanup \<pi> cn w2;
          w4 = w3\<lparr>w_connections := gm_del cn (w_connections w3)\<rparr>
      in upd_cn cn (\<lambda>C. C\<lparr>cn_netok := False\<rparr>) w4)"

definition failHandshake :: "world \<Rightarrow> world" where
  "failHandshake w = upd_m (\<lambda>M. M\<lparr>mt_HandshakeFailures := Suc (mt_HandshakeFailures M)\<rparr>) w"

definition HandleConnection :: "(nat \<Rightarrow> orders) \<Rightarrow> orders \<Rightarrow> line list \<Rightarrow> bool \<Rightarrow> world \<Rightarrow> world" where
  "HandleConnection \<pi>s \<pi> input netok w =
     (case acceptConn input netok w of (cn, w1) \<Rightarrow>
        (case RunHandshake cn w1 of
           (Some _, w2) \<Rightarrow> closeConn \<pi> cn (failHandshake w2)
         | (None, w2) \<Rightarrow> closeConn \<pi> cn (snd (Serve \<pi>s cn w2))))"

section \<open>All goroutines together\<close>

text \<open>
  The steps of a running server. Between any two steps of one goroutine any other may run; the
  iteration orders may be different every time.
\<close>

inductive server_step :: "world \<Rightarrow> world \<Rightarrow> bool" where
  step_accept: "acceptConn input netok w = (cn, w') \<Longrightarrow> server_step w w'"
| step_handshake_ok:
    "gm_has cn (w_connections w) \<Longrightarrow> cn_state (w_cn w cn) = StateAwaitProtocolHeader \<Longrightarrow>
     RunHandshake cn w = (None, w') \<Longrightarrow> server_step w w'"
| step_handshake_fail:
    "gm_has cn (w_connections w) \<Longrightarrow> cn_state (w_cn w cn) = StateAwaitProtocolHeader \<Longrightarrow>
     RunHandshake cn w = (Some e, w') \<Longrightarrow> orders_ok \<pi> \<Longrightarrow> server_step w (closeConn \<pi> cn (failHandshake w'))"
| step_request:
    "gm_has cn (w_connections w) \<Longrightarrow> cn_state (w_cn w cn) = StateOpen \<Longrightarrow> orders_ok \<pi> \<Longrightarrow>
     serveTurn \<pi> cn w = (None, w') \<Longrightarrow> server_step w w'"
| step_disconnect:
    "gm_has cn (w_connections w) \<Longrightarrow> cn_state (w_cn w cn) = StateOpen \<Longrightarrow> orders_ok \<pi> \<Longrightarrow>
     orders_ok \<pi>' \<Longrightarrow> serveTurn \<pi> cn w = (Some e, w') \<Longrightarrow> server_step w (closeConn \<pi>' cn w')"
| step_dispatch: "q < w_nq w \<Longrightarrow> orders_ok \<pi> \<Longrightarrow> server_step w (snd (dispatchOnce \<pi> q w))"
| step_netfail: "server_step w (upd_cn cn (\<lambda>C. C\<lparr>cn_netok := False\<rparr>) w)"

definition server_start :: "world \<Rightarrow> bool" where
  "server_start w \<longleftrightarrow> (\<exists>cfg. w = NewServer cfg)"

section \<open>The collector of gauges (metrics.go)\<close>

datatype gauge =
  Connections nat | Queues nat | Exchanges nat
  | QueueMessages string nat | QueueConsumers string nat | ConsumerInflight string string int

definition collectQueue :: "orders \<Rightarrow> world \<Rightarrow> qref \<Rightarrow> gauge list" where
  "collectQueue \<pi> w q =
     QueueMessages (q_name (w_q w q)) (length (q_messages (w_q w q))) #
     QueueConsumers (q_name (w_q w q)) (length (q_consumers (w_q w q))) #
     map (\<lambda>c. ConsumerInflight (q_name (w_q w q)) (c_tag (w_c w c)) (c_inflight (w_c w c)))
       (o_consumers \<pi> q (gm_keys (q_consumers (w_q w q))))"

text \<open>\<open>qs\<close> is the order in which this run visits the broker's queues.\<close>

definition Collect :: "orders \<Rightarrow> string list \<Rightarrow> world \<Rightarrow> gauge list" where
  "Collect \<pi> qs w =
     Connections (length (w_connections w)) # Queues (length (w_queues w)) # Exchanges (length (w_exchanges w)) #
     concat (map (collectQueue \<pi> w) (entries_in qs (w_queues w)))"

section \<open>Invariance\<close>

lemma broker_inv_NewServer: "broker_inv (NewServer cfg)"
  by (simp add: broker_inv_def wf_world_def wf_parts accounts_ok_def NewServer_def NewMetrics_def settled_def)

lemma broker_inv_connections:
  assumes inv: "broker_inv w" and m: "gm_wf m" "\<And>cn. gm_has cn m \<Longrightarrow> cn < w_ncn w"
  shows "broker_inv (w\<lparr>w_connections := m\<rparr>)"
proof -
  note wf = wf_worldD [OF broker_invD(1) [OF inv]] and ac = broker_invD(2) [OF inv]
  have "queues_ok (w\<lparr>w_connections := m\<rparr>)" "exchanges_ok (w\<lparr>w_connections := m\<rparr>)"
    "regs_ok (w\<lparr>w_connections := m\<rparr>)" "cons_ok (w\<lparr>w_connections := m\<rparr>)" "chans_ok (w\<lparr>w_connections := m\<rparr>)"
    "conns_ok (w\<lparr>w_connections := m\<rparr>)"
    using wf m by (simp_all add: wf_parts)
  moreover have "accounts_ok (w\<lparr>w_connections := m\<rparr>)"
    by (rule accounts_keep [OF ac])
      (auto simp: contents_def held_def dest: accountsD [OF ac] account_tags(2))
  ultimately show ?thesis by (simp add: broker_inv_def wf_world_def)
qed

lemma settled_conn [simp]:
  "settled (M\<lparr>mt_ConnectionsOpened := x\<rparr>) = settled M"
  "settled (M\<lparr>mt_ConnectionsClosed := x\<rparr>) = settled M"
  "settled (M\<lparr>mt_HandshakeFailures := x\<rparr>) = settled M"
  by (simp_all add: settled_def fun_eq_iff)

lemma wf_connections:
  assumes "broker_inv w"
  shows "gm_wf (w_connections w)" "gm_has cn (w_connections w) \<Longrightarrow> cn < w_ncn w"
  using wf_worldD(6) [OF broker_invD(1) [OF assms]] unfolding conns_ok_def by blast+

lemma broker_inv_accept [wf_intros]:
  assumes "broker_inv w"
  shows "broker_inv (snd (acceptConn input ok w))"
proof -
  let ?w = "snd (NewConnection input ok w)"
  note inv = broker_inv_NewConnection [OF assms, of input ok]
  have n: "w_ncn ?w = Suc (w_ncn w)" "w_connections ?w = w_connections w" "fst (NewConnection input ok w) = w_ncn w"
    by (simp_all add: NewConnection_def)
  have "broker_inv (?w\<lparr>w_connections := gm_put (w_ncn w) () (w_connections ?w)\<rparr>)"
    using wf_connections [OF assms]
    by (intro broker_inv_connections [OF inv])
      (auto simp: n gm.wf_put gm_has_def gm.keys_put less_SucI)
  from broker_inv_metrics [OF this] show ?thesis
    by (simp add: acceptConn_def n NewConnection_def)
qed

lemma broker_inv_close [wf_intros]:
  assumes inv: "broker_inv w" and \<pi>: "orders_ok \<pi>" and cn: "cn < w_ncn w"
  shows "broker_inv (closeConn \<pi> cn w)"
proof -
  define w2 where "w2 = shutdown cn (upd_m (\<lambda>M. M\<lparr>mt_ConnectionsClosed := Suc (mt_ConnectionsClosed M)\<rparr>) w)"
  define w3 where "w3 = connCleanup \<pi> cn w2"
  have "broker_inv w2"
    unfolding w2_def using broker_inv_metrics [OF inv] by (intro broker_inv_same_links [OF same_links_shutdown]) simp
  then have i3: "broker_inv w3"
    using cn unfolding w3_def by (intro broker_inv_connCleanup \<pi>) (simp_all add: w2_def shutdown_def)
  then have "broker_inv (w3\<lparr>w_connections := gm_del cn (w_connections w3)\<rparr>)"
    using wf_connections [OF i3]
    by (intro broker_inv_connections [OF i3]) (auto simp: gm.wf_del gm_has_def gm.keys_del)
  then show ?thesis
    unfolding closeConn_def Let_def w2_def [symmetric] w3_def [symmetric]
    by (rule broker_inv_same_links [rotated]) (simp add: same_linksI)
qed

lemma broker_inv_failHandshake [wf_intros]: "broker_inv w \<Longrightarrow> broker_inv (failHandshake w)"
  using broker_inv_metrics by (simp add: failHandshake_def)

lemma failHandshake_ncn [simp]: "w_ncn (failHandshake w) = w_ncn w"
  by (simp add: failHandshake_def)

lemma broker_inv_server_step:
  assumes "broker_inv w" "server_step w w'"
  shows "broker_inv w'"
  using assms(2,1)
proof (cases rule: server_step.cases)
  case (step_accept input netok cn)
  then show ?thesis using broker_inv_accept [OF assms(1)] by (metis snd_conv)
next
  case (step_handshake_ok cn)
  then show ?thesis using broker_inv_RunHandshake [OF assms(1)] by (metis snd_conv)
next
  case (step_handshake_fail cn e w1 \<pi>)
  have "broker_inv w1" using broker_inv_RunHandshake [OF assms(1)] step_handshake_fail(4) by (metis snd_conv)
  moreover have "cn < w_ncn w1"
    using wf_connections(2) [OF assms(1) step_handshake_fail(2)] step_handshake_fail(4)
      same_links_simps(7) [OF same_links_RunHandshake [of w cn]] by simp
  ultimately show ?thesis
    using step_handshake_fail(1,5) by (simp add: broker_inv_close broker_inv_failHandshake)
next
  case (step_request cn \<pi>)
  then show ?thesis
    using broker_inv_serveTurn [OF assms(1) _ wf_connections(2) [OF assms(1)]] by (metis snd_conv)
next
  case (step_disconnect cn \<pi> \<pi>' e w1)
  note cn = wf_connections(2) [OF assms(1) step_disconnect(2)]
  have "broker_inv w1" using broker_inv_serveTurn [OF assms(1) step_disconnect(4) cn] step_disconnect(6) by simp
  moreover have "cn < w_ncn w1" using session_serveTurn(1) [of \<pi> cn w] step_disconnect(6) cn by simp
  ultimately show ?thesis using step_disconnect(1,5) by (simp add: broker_inv_close)
next
  case (step_dispatch q \<pi>)
  then show ?thesis using broker_inv_ops(8) [OF assms(1)] by simp
next
  case (step_netfail cn)
  have "same_links w w'" unfolding step_netfail by (simp add: same_linksI)
  then show ?thesis by (rule broker_inv_same_links [OF _ assms(1)])
qed

interpretation server: transition_system server_start server_step broker_inv
  by unfold_locales (auto simp: server_start_def broker_inv_NewServer intro: broker_inv_server_step)

section \<open>A connection on its own is one of the interleavings\<close>

lemma accept_registered:
  assumes "acceptConn input ok w = (cn, w')"
  shows "gm_has cn (w_connections w')" "cn_state (w_cn w' cn) = StateAwaitProtocolHeader"
    "cn_in (w_cn w' cn) = input" "cn_netok (w_cn w' cn) = ok" "\<not> cn_closed (w_cn w' cn)"
    "cn = w_ncn w" "cn_out (w_cn w' cn) = []" "w_config w' = w_config w"
  using assms by (auto simp: acceptConn_def NewConnection_def gm_has_def gm.keys_put)

lemma RunHandshake_open: "RunHandshake cn w = (None, w') \<Longrightarrow> cn_state (w_cn w' cn) = StateOpen"
  using RunHandshake_None [of cn w] RunHandshake_accepts [of w cn] by simp

lemma Serve_steps:
  assumes "gm_has cn (w_connections w)" "cn_state (w_cn w cn) = StateOpen" "\<And>n. orders_ok (\<pi>s n)"
  shows "\<exists>w' \<pi>' e. server_step\<^sup>*\<^sup>* w w' \<and> gm_has cn (w_connections w') \<and> cn_state (w_cn w' cn) = StateOpen \<and>
    orders_ok \<pi>' \<and> serveTurn \<pi>' cn w' = (Some e, snd (Serve \<pi>s cn w))"
  using assms
proof (induction \<pi>s cn w rule: Serve.induct)
  case (1 \<pi>s cn w)
  let ?\<pi> = "\<pi>s (length (cn_in (w_cn w cn)))"
  obtain r w1 where t: "serveTurn ?\<pi> cn w = (r, w1)" by force
  show ?case
  proof (cases r)
    case (Some e)
    then have "snd (Serve \<pi>s cn w) = w1" using t by (subst Serve.simps) simp
    with 1 t Some show ?thesis by (metis rtranclp.rtrancl_refl)
  next
    case None
    have s: "gm_has cn (w_connections w1)" "cn_state (w_cn w1 cn) = StateOpen"
      using session_serveTurn [of ?\<pi> cn w] t 1(2,3) by simp_all
    have "server_step w w1" using t None 1 by (intro step_request) auto
    moreover have "Serve \<pi>s cn w = Serve \<pi>s cn w1" using t None by (subst Serve.simps) simp
    ultimately show ?thesis
      using 1(1) [OF t [symmetric] None s 1(4)] by (metis converse_rtranclp_into_rtranclp)
  qed
qed

lemma HandleConnection_steps:
  assumes \<pi>s: "\<And>n. orders_ok (\<pi>s n)" and \<pi>: "orders_ok \<pi>"
  shows "server_step\<^sup>*\<^sup>* w (HandleConnection \<pi>s \<pi> input netok w)"
proof -
  obtain cn w1 where acc: "acceptConn input netok w = (cn, w1)" by force
  obtain e w2 where hs: "RunHandshake cn w1 = (e, w2)" by force
  note reg = accept_registered [OF acc]
  have "server_step w w1" by (rule step_accept [OF acc])
  moreover have "server_step\<^sup>*\<^sup>* w1 (HandleConnection \<pi>s \<pi> input netok w)"
  proof (cases e)
    case (Some err)
    then have "HandleConnection \<pi>s \<pi> input netok w = closeConn \<pi> cn (failHandshake w2)"
      by (simp add: HandleConnection_def acc hs)
    then show ?thesis using step_handshake_fail [OF reg(1,2) hs [unfolded Some] \<pi>] by simp
  next
    case None
    then have eq: "HandleConnection \<pi>s \<pi> input netok w = closeConn \<pi> cn (snd (Serve \<pi>s cn w2))"
      by (simp add: HandleConnection_def acc hs)
    have "gm_has cn (w_connections w2)"
      using reg(1) same_links_simps(10) [OF same_links_RunHandshake [of w1 cn]] hs by simp
    from Serve_steps [where \<pi>s = \<pi>s, OF this RunHandshake_open [OF hs [unfolded None]] \<pi>s]
    obtain w' \<pi>' e' where run: "server_step\<^sup>*\<^sup>* w2 w'" and w': "gm_has cn (w_connections w')"
      "cn_state (w_cn w' cn) = StateOpen" "orders_ok \<pi>'" "serveTurn \<pi>' cn w' = (Some e', snd (Serve \<pi>s cn w2))"
      by blast
    have "server_step w1 w2" by (rule step_handshake_ok [OF reg(1,2) hs [unfolded None]])
    also note run
    also have "server_step w' (closeConn \<pi> cn (snd (Serve \<pi>s cn w2)))"
      by (rule step_disconnect [OF w'(1-3) \<pi> w'(4)])
    finally show ?thesis by (simp add: eq)
  qed
  ultimately show ?thesis by simp
qed

end
