(* ===== verification/Scenarios.thy ===== *)
theory Scenarios
  imports ServerOps
begin

text \<open>
  Concrete runs of the server, evaluated by the simplifier. A client connects, shakes hands, opens
  channel 1, declares an exchange \<^verbatim>\<open>x\<close> and a queue \<^verbatim>\<open>q\<close>, binds them with the key
  \<^verbatim>\<open>k\<close>, consumes from the queue and publishes two messages. \<open>demoWaiting\<close> is the state then,
  \<open>demoInflight\<close> the state after one turn of the queue's dispatch loop. The witnesses of the
  properties are taken at these states.
\<close>

section \<open>Requests\<close>

definition frame :: "u16 \<Rightarrow> string \<Rightarrow> json \<Rightarrow> Envelope" where
  "frame ch ty payload =
     \<lparr>env_ChannelID = ch, env_RequestID = 1, env_Type = ty, env_Payload = Some payload\<rparr>"

lemma frame_simps [simp]:
  "env_ChannelID (frame ch ty p) = ch" "env_RequestID (frame ch ty p) = 1"
  "env_Type (frame ch ty p) = ty" "env_Payload (frame ch ty p) = Some p"
  by (simp_all add: frame_def)

definition hello :: "line list" where
  "hello =
     [TextLine ProtocolHeader,
      JsonLine (marshal_ConnectionStartOK (NewConnectionStartOK ''client'' ''guest'' ''guest'')),
      JsonLine (marshal_ConnectionTuneOK (NewConnectionTuneOK 16 4096 30)),
      JsonLine (marshal_ConnectionOpen NewConnectionOpen)]"

abbreviation lines :: "Envelope list \<Rightarrow> line list" where
  "lines envs \<equiv> map (\<lambda>e. JsonLine (marshal_Envelope e)) envs"

primrec turns :: "orders \<Rightarrow> connref \<Rightarrow> nat \<Rightarrow> world \<Rightarrow> world" where
  "turns \<pi> cn 0 w = w"
| "turns \<pi> cn (Suc n) w = turns \<pi> cn n (snd (serveTurn \<pi> cn w))"

definition connect :: "line list \<Rightarrow> world \<Rightarrow> world" where
  "connect input w =
     (case acceptConn (hello @ input) True w of (cn, w') \<Rightarrow> snd (RunHandshake cn w'))"

definition client :: "Envelope list \<Rightarrow> world \<Rightarrow> world" where
  "client envs w = turns id_orders (w_ncn w) (length envs) (connect (lines envs) w)"

section \<open>Runs are reachable\<close>

abbreviation server_reachable :: "world \<Rightarrow> bool" where
  "server_reachable \<equiv> reachable server_start server_step"

lemma clientHello_hello: "clientHello (hello @ r)"
  by (simp add: clientHello_def hello_def accepts_def connectionStartOK.decode_marshal
      connectionTuneOK.decode_marshal connectionOpen.decode_marshal NewConnectionTuneOK_def int64_def)

lemma drop_hello: "drop 4 hello = []" "length hello = 4"
  by (simp_all add: hello_def)

lemma connect_eq:
  "connect input w =
     (let w1 = snd (acceptConn (hello @ input) True w)
      in upd_cn (w_ncn w) (\<lambda>C. C\<lparr>cn_in := input, cn_out := serverHello (w_config w), cn_state := StateOpen\<rparr>) w1)"
proof -
  define cn where "cn = w_ncn w"
  obtain w1 where acc: "acceptConn (hello @ input) True w = (cn, w1)"
    by (simp add: acceptConn_def NewConnection_def cn_def)
  note reg = accept_registered(1-5,7,8) [OF acc]
  have "RunHandshake cn w1 = (None, upd_cn cn (\<lambda>C. C\<lparr>cn_in := drop 4 (cn_in C),
      cn_out := cn_out C @ serverHello (w_config w1), cn_state := StateOpen\<rparr>) w1)"
    by (rule RunHandshake_accepts) (simp_all add: reg clientHello_hello)
  then show ?thesis by (simp add: connect_def acc reg drop_hello flip: cn_def)
qed

lemma reachable_connect:
  assumes "server_reachable w"
  shows "server_reachable (connect input w)"
proof -
  define cn where "cn = w_ncn w"
  obtain w1 where acc: "acceptConn (hello @ input) True w = (cn, w1)"
    by (simp add: acceptConn_def NewConnection_def cn_def)
  note reg = accept_registered(1-5,7,8) [OF acc]
  have "fst (RunHandshake cn w1) = None"
    by (subst RunHandshake_accepts) (simp_all add: reg clientHello_hello)
  then obtain w2 where hs: "RunHandshake cn w1 = (None, w2)" by (cases "RunHandshake cn w1") simp
  have "server_step w w1" by (rule step_accept [OF acc])
  moreover have "server_step w1 w2" by (rule step_handshake_ok [OF reg(1,2) hs])
  ultimately show ?thesis
    using assms by (simp add: connect_def acc hs) (blast intro: reachable.intros)
qed

lemma serveTurn_line:
  assumes "cn_in (w_cn w cn) = JsonLine (marshal_Envelope env) # r" "env_Payload env \<noteq> None"
  shows "serveTurn \<pi> cn w = (None, Handle \<pi> cn env (setInput cn r w))"
  using assms by (simp add: serveTurn_def conn_ReadEnvelope_def ReadEnvelope_def envelope.decode_marshal)

lemma reachable_turns:
  assumes "server_reachable w" "gm_has cn (w_connections w)" "cn_state (w_cn w cn) = StateOpen" "orders_ok \<pi>"
    and "cn_in (w_cn w cn) = lines envs @ r" "\<forall>e \<in> set envs. env_Payload e \<noteq> None"
  shows "server_reachable (turns \<pi> cn (length envs) w)"
  using assms
proof (induction envs arbitrary: w)
  case (Cons env envs)
  let ?w = "snd (serveTurn \<pi> cn w)"
  have "fst (serveTurn \<pi> cn w) = None" using serveTurn_line [of w cn env "lines envs @ r" \<pi>] Cons.prems by simp
  then have "server_step w ?w"
    using Cons.prems by (intro step_request [of cn w \<pi>]) (auto simp: prod_eq_iff)
  then have "server_reachable ?w" using Cons.prems(1) by (blast intro: reachable.intros)
  then show ?case
    using Cons.IH [of ?w] Cons.prems session_serveTurn [of \<pi> cn w] input_serveTurn [of \<pi> cn w] by simp
qed simp

lemma reachable_client:
  assumes "server_reachable w" "\<forall>e \<in> set envs. env_Payload e \<noteq> None"
  shows "server_reachable (client envs w)"
proof -
  define cn where "cn = w_ncn w"
  obtain w1 where acc: "acceptConn (hello @ lines envs) True w = (cn, w1)"
    by (simp add: acceptConn_def NewConnection_def cn_def)
  note reg = accept_registered(1-5,7,8) [OF acc]
  show ?thesis
    unfolding client_def
  proof (rule reachable_turns [of _ _ _ envs "[]", OF reachable_connect [OF assms(1)]])
  qed (use assms(2) reg in \<open>simp_all add: connect_eq acc flip: cn_def\<close>)
qed

lemma reachable_dispatch:
  "server_reachable w \<Longrightarrow> q < w_nq w \<Longrightarrow> orders_ok \<pi> \<Longrightarrow> server_reachable (snd (dispatchOnce \<pi> q w))"
  by (blast intro: reachable.intros step_dispatch)

section \<open>A run\<close>

definition demo_config :: ServerConfig where
  "demo_config = \<lparr>sc_ChannelMax = 16, sc_FramesMax = 4096, sc_HeartbeatSec = 30\<rparr>"

definition openReq :: Envelope where
  "openReq = frame 0 ChannelOpenType (marshal_ChannelOpen \<lparr>co_ID = 1\<rparr>)"

definition exchangeReq :: "string \<Rightarrow> Envelope" where
  "exchangeReq ex = frame 1 ExchangeDeclareType (marshal_ExchangeDeclare \<lparr>ed_Name = ex\<rparr>)"

definition queueReq :: "string \<Rightarrow> string \<Rightarrow> Envelope" where
  "queueReq queue dlx = frame 1 QueueDeclareType (marshal_QueueDeclare
     \<lparr>qd_Name = queue, qd_DeadLetterExchange = dlx, qd_DeadLetterRoutingKey = []\<rparr>)"

definition bindReq :: "string \<Rightarrow> string \<Rightarrow> string \<Rightarrow> Envelope" where
  "bindReq queue ex rk = frame 1 QueueBindType
     (marshal_QueueBind \<lparr>qb_Queue = queue, qb_Exchange = ex, qb_RoutingKey = rk\<rparr>)"

definition consumeReq :: "string \<Rightarrow> string \<Rightarrow> Envelope" where
  "consumeReq queue tag = frame 1 BasicConsumeType (marshal_Consume \<lparr>con_Queue = queue, con_ConsumerTag = tag\<rparr>)"

definition publishReq :: "string \<Rightarrow> string \<Rightarrow> byte list \<Rightarrow> Envelope" where
  "publishReq ex rk body = frame 1 BasicPublishType
     (marshal_Publish \<lparr>pub_Exchange = ex, pub_RoutingKey = rk, pub_Body = body\<rparr>)"

definition ackReq :: "u16 \<Rightarrow> Envelope" where
  "ackReq t = frame 1 BasicAckType (marshal_Ack \<lparr>ack_DeliveryTag = t\<rparr>)"

definition nackReq :: "u16 \<Rightarrow> bool option \<Rightarrow> Envelope" where
  "nackReq t rq = frame 1 BasicNackType (marshal_Nack \<lparr>nack_DeliveryTag = t, nack_Requeue = rq\<rparr>)"

lemmas request_defs = openReq_def exchangeReq_def queueReq_def bindReq_def consumeReq_def publishReq_def
  ackReq_def nackReq_def

lemmas decode_requests = channelOpen.decode_marshal exchangeDeclare.decode_marshal
  queueDeclare.decode_marshal queueBind.decode_marshal consume.decode_marshal publish.decode_marshal
  ack.decode_marshal nack.decode_marshal

lemmas run_defs = serveTurn_def conn_ReadEnvelope_def ReadEnvelope_def envelope.decode_marshal setInput_def
  Handle_def ChannelOpen_def ChannelClose_def routeToChannel_def route_def HandleExchangeDeclare_def
  HandleQueueDeclare_def HandleQueueBind_def HandleConsume_def HandlePublish_def HandleAck_def HandleNack_def
  nackMessage_def reply_def replyError_def WriteEnvelope_def send_def Let_def DeclareExchange_def DeclareQueue_def
  BindQueue_def bind_def RegisterConsumer_def registerConsumer_def Publish_def publishTo_def enqueue_def
  getQueues_def NewExchange_def NewQueue_def NewConsumer_def Ack_def channelConsumers_def id_orders_def
  entries_in_def map_filter_def method_defs request_defs decode_requests

lemmas start_defs = connect_eq acceptConn_def NewConnection_def NewServer_def demo_config_def

definition demo_requests :: "string \<Rightarrow> Envelope list" where
  "demo_requests dlx =
     [openReq, exchangeReq ''x'', queueReq ''q'' dlx, bindReq ''q'' ''x'' ''k'', consumeReq ''q'' ''t'',
      publishReq ''x'' ''k'' [7], publishReq ''x'' ''k'' [8]]"

definition demoWaiting :: "string \<Rightarrow> world" where
  "demoWaiting dlx = client (demo_requests dlx) (NewServer demo_config)"

definition demoInflight :: "string \<Rightarrow> world" where
  "demoInflight dlx = snd (dispatchOnce id_orders 0 (demoWaiting dlx))"

definition msg7 :: Message where
  "msg7 = \<lparr>m_DeliveryTag = 1, m_Body = [7], m_Exchange = ''x'', m_RoutingKey = ''k''\<rparr>"

definition msg8 :: Message where
  "msg8 = \<lparr>m_DeliveryTag = 2, m_Body = [8], m_Exchange = ''x'', m_RoutingKey = ''k''\<rparr>"

text \<open>What the client has received after its requests.\<close>

definition demo_out :: "json list" where
  "demo_out = serverHello demo_config @
     [marshal_Envelope (frame 0 ChannelOpenOKType (marshal_ChannelOpenOK \<lparr>cook_ID = 1\<rparr>)),
      marshal_Envelope (frame 1 ExchangeDeclareOKType (marshal_ExchangeDeclareOK \<lparr>edok_Name = ''x''\<rparr>)),
      marshal_Envelope (frame 1 QueueDeclareOKType (marshal_QueueDeclareOK \<lparr>qdok_Name = ''q''\<rparr>)),
      marshal_Envelope (frame 1 QueueBindOKType marshal_QueueBindOK),
      marshal_Envelope (frame 1 BasicConsumeOKType (marshal_ConsumeOK \<lparr>conok_ConsumerTag = ''t''\<rparr>))]"

definition demo_deliver :: json where
  "demo_deliver = marshal_Envelope \<lparr>env_ChannelID = 1, env_RequestID = 0, env_Type = BasicDeliverType,
     env_Payload = Some (marshal_Deliver \<lparr>del_DeliveryTag = 1, del_Body = [7], del_Exchange = ''x'',
       del_RoutingKey = ''k'', del_ConsumerTag = ''t''\<rparr>)\<rparr>"

definition demoWorld :: "string \<Rightarrow> Message list \<Rightarrow> Message list \<Rightarrow> json list \<Rightarrow> (string \<Rightarrow> nat) \<Rightarrow> world" where
  "demoWorld dlx waiting inflight out delivered =
     \<lparr>w_q = (\<lambda>_. zeroQueue)(0 := \<lparr>q_name = ''q'', q_messages = waiting, q_consumers = [(0, ())],
              q_nextTag = 3, q_dlx = dlx, q_dlxRoutingKey = []\<rparr>),
      w_nq = 1,
      w_e = (\<lambda>_. \<lparr>e_name = [], e_bindings = []\<rparr>)(0 := \<lparr>e_name = ''x'', e_bindings = [(''k'', [(''q'', 0)])]\<rparr>),
      w_ne = 1,
      w_c = (\<lambda>_. zeroConsumer)(0 := \<lparr>c_tag = ''t'', c_queue = 0, c_channel = 0, c_prefetch = 10,
              c_inflight = int (length inflight), c_inflightTags = map (\<lambda>m. (m_DeliveryTag m, ())) inflight,
              c_pendingMessages = map (\<lambda>m. (m_DeliveryTag m, m)) inflight\<rparr>),
      w_nc = 1,
      w_ch = (\<lambda>_. \<lparr>ch_id = 0, ch_conn = 0, ch_consumers = []\<rparr>)
              (0 := \<lparr>ch_id = 1, ch_conn = 0, ch_consumers = [(''t'', 0)]\<rparr>),
      w_nch = 1,
      w_cn = (\<lambda>_. zeroConnection)(0 := \<lparr>cn_in = [], cn_out = out, cn_netok = True, cn_channels = [(1, 0)],
              cn_state = StateOpen, cn_closed = False\<rparr>),
      w_ncn = 1, w_queues = [(''q'', 0)], w_exchanges = [(''x'', 0)],
      w_metrics = NewMetrics\<lparr>mt_ConnectionsOpened := 1, mt_ConsumersRegistered := inc ''q'' (\<lambda>_. 0),
              mt_Published := inc ''x'' (inc ''x'' (\<lambda>_. 0)), mt_Enqueued := inc ''q'' (inc ''q'' (\<lambda>_. 0)),
              mt_Delivered := delivered\<rparr>,
      w_connections = [(0, ())], w_config = demo_config\<rparr>"

lemma demoWaiting_eq: "demoWaiting dlx = demoWorld dlx [msg7, msg8] [] demo_out (\<lambda>_. 0)"
  by (simp add: demoWaiting_def client_def demo_requests_def start_defs run_defs demoWorld_def msg7_def
      msg8_def demo_out_def frame_def NewMetrics_def)

lemma demoInflight_eq:
  "demoInflight dlx = demoWorld dlx [msg8] [msg7] (demo_out @ [demo_deliver]) (inc ''q'' (\<lambda>_. 0))"
  by (simp add: demoInflight_def demoWaiting_eq demoWorld_def dispatchOnce_def selectConsumer_def hasRoom_def
      id_orders_def takeMessage_def holdMessage_def WriteEnvelope_def send_def deliverFrame_def msg7_def
      demo_deliver_def Let_def)

lemma reachable_demo: "server_reachable (demoWaiting dlx)" "server_reachable (demoInflight dlx)"
proof -
  have "server_reachable (NewServer demo_config)"
    by (rule reachable.intros) (auto simp: server_start_def)
  then show "server_reachable (demoWaiting dlx)"
    unfolding demoWaiting_def by (rule reachable_client) (simp add: demo_requests_def request_defs)
  then show "server_reachable (demoInflight dlx)"
    unfolding demoInflight_def by (rule reachable_dispatch) (simp_all add: demoWaiting_eq demoWorld_def)
qed

lemma broker_inv_demo: "broker_inv (demoWaiting dlx)" "broker_inv (demoInflight dlx)"
  by (rule server.inv_reachable [OF reachable_demo(1)], rule server.inv_reachable [OF reachable_demo(2)])

end
