(* ===== verification/BrokerProperties.thy ===== *)
theory BrokerProperties
  imports Scenarios
begin

text \<open>
  What the broker promises its clients, operation by operation: publishing, dispatching,
  acknowledging, refusing, registering, disconnecting, shaking hands. Every property is followed by
  its instance on a run of the server.
\<close>

section \<open>Publishing\<close>

text \<open>A queue is bound to an exchange under a routing key.\<close>

definition isBound :: "world \<Rightarrow> string \<Rightarrow> string \<Rightarrow> qref \<Rightarrow> bool" where
  "isBound w ex rk q =
     (case gm_get (w_exchanges w) ex of
        None \<Rightarrow> False
      | Some e \<Rightarrow> gm_get (boundMap e rk w) (q_name (w_q w q)) = Some q)"

lemma isBound_getQueues:
  assumes wf: "wf_world w" and \<pi>: "orders_ok \<pi>" and e: "gm_get (w_exchanges w) ex = Some e" and q: "q < w_nq w"
  shows "isBound w ex rk q \<longleftrightarrow> q \<in> set (getQueues \<pi> e rk w)"
proof -
  note en = wf_exchange_lookup(1) [OF wf e]
  have "gm_get (boundMap e rk w) (q_name (w_q w q)) = Some q" if "q \<in> snd ` set (boundMap e rk w)"
  proof -
    obtain n where n: "(n, q) \<in> set (boundMap e rk w)" using \<open>q \<in> snd ` _\<close> by force
    with gm_get_wf [OF wf_boundMap [OF wf en]] boundMap_entry(2) [OF wf en n] show ?thesis by simp
  qed
  then have "gm_get (boundMap e rk w) (q_name (w_q w q)) = Some q \<longleftrightarrow> q \<in> snd ` set (boundMap e rk w)"
    by (force dest: gm_get_in)
  then show ?thesis by (simp add: isBound_def e set_getQueues [OF wf en \<pi>])
qed

lemma Publish_queue:
  assumes inv: "broker_inv w" and \<pi>: "orders_ok \<pi>" and e: "gm_get (w_exchanges w) ex = Some e" and q: "q < w_nq w"
  shows "w_q (snd (Publish \<pi> ex rk body w)) q =
    (if isBound w ex rk q
     then (w_q w q)\<lparr>q_nextTag := q_nextTag (w_q w q) + 1,
            q_messages := q_messages (w_q w q) @ [newMessage ex rk body (w_q w q)]\<rparr>
     else w_q w q)"
proof -
  note wf = broker_invD(1) [OF inv]
  note en = wf_exchange_lookup(1) [OF wf e]
  have g: "getQueues \<pi> e rk (w\<lparr>w_metrics := M\<rparr>) = getQueues \<pi> e rk w" for M
    by (simp add: getQueues_def)
  show ?thesis
    using isBound_getQueues [OF wf \<pi> e q] distinct_getQueues [OF wf en \<pi>, of rk]
    by (simp add: Publish_def e Let_def g fold_publishTo_queue)
qed

lemma contents_Publish:
  assumes inv: "broker_inv w" and \<pi>: "orders_ok \<pi>" and e: "gm_get (w_exchanges w) ex = Some e" and q: "q < w_nq w"
  shows "contents (snd (Publish \<pi> ex rk body w)) q =
    (if isBound w ex rk q then add_mset (newMessage ex rk body (w_q w q)) (contents w q) else contents w q)"
proof -
  have "w_c (snd (Publish \<pi> ex rk body w)) = w_c w" by (simp add: Publish_def e Let_def)
  then show ?thesis by (simp add: contents_def held_def Publish_queue [OF assms])
qed

text \<open>
  C9. Publishing to a declared exchange succeeds, and every queue bound under exactly that routing
  key gets the message once, at its end, with the queue's next delivery tag; no other queue changes.
\<close>

theorem publish_delivers_once:
  assumes "broker_inv w" "orders_ok \<pi>" "gm_get (w_exchanges w) ex = Some e" "q < w_nq w"
  shows "fst (Publish \<pi> ex rk body w) = None \<and>
    w_q (snd (Publish \<pi> ex rk body w)) q =
      (if isBound w ex rk q
       then (w_q w q)\<lparr>q_nextTag := q_nextTag (w_q w q) + 1,
              q_messages := q_messages (w_q w q) @
                [\<lparr>m_DeliveryTag = q_nextTag (w_q w q), m_Body = body, m_Exchange = ex, m_RoutingKey = rk\<rparr>]\<rparr>
       else w_q w q) \<and>
    contents (snd (Publish \<pi> ex rk body w)) q =
      contents w q + (if isBound w ex rk q
        then {#\<lparr>m_DeliveryTag = q_nextTag (w_q w q), m_Body = body, m_Exchange = ex, m_RoutingKey = rk\<rparr>#} else {#})"
  using Publish_queue [OF assms] contents_Publish [OF assms] assms(3)
  by (simp add: Publish_def Let_def newMessage_def)

theorem publish_delivers_once_witness:
  "q_messages (w_q (snd (Publish rev_orders ''x'' ''k'' [9] (demoWaiting []))) 0) =
     [msg7, msg8, \<lparr>m_DeliveryTag = 3, m_Body = [9], m_Exchange = ''x'', m_RoutingKey = ''k''\<rparr>] \<and>
   q_messages (w_q (snd (Publish rev_orders ''x'' ''other'' [9] (demoWaiting []))) 0) = [msg7, msg8]"
  using publish_delivers_once [of "demoWaiting []" rev_orders "''x''" 0 0 "''k''" "[9]"]
    publish_delivers_once [of "demoWaiting []" rev_orders "''x''" 0 0 "''other''" "[9]"] broker_inv_demo(1) [of "[]"]
  by (simp add: demoWaiting_eq demoWorld_def isBound_def boundMap_def)

text \<open>
  Publishing to an exchange that was never declared is refused: the answer is an error, a
  counter goes up, and nothing else changes.
\<close>

lemma publish_unknown_exchange:
  assumes "gm_get (w_exchanges w) ex = None"
  shows "fst (Publish \<pi> ex rk body w) = Some (''exchange '' @ quote ex @ '' not found'') \<and>
    snd (Publish \<pi> ex rk body w) =
      w\<lparr>w_metrics := (w_metrics w)\<lparr>mt_PublishErrors := Suc (mt_PublishErrors (w_metrics w))\<rparr>\<rparr>"
  using assms by (simp add: Publish_def)

section \<open>Dispatching\<close>

definition writable :: "world \<Rightarrow> cref \<Rightarrow> bool" where
  "writable w c =
     (let C = w_cn w (ch_conn (w_ch w (c_channel (w_c w c)))) in \<not> cn_closed C \<and> cn_netok C)"

lemma selectConsumer_some_room:
  assumes "orders_ok \<pi>" "gm_has c (q_consumers (w_q w q))" "hasRoom (w_c w c)"
  obtains c' where "selectConsumer \<pi> q w = Some c'"
  using selectConsumer_None [OF assms(1), of q w] assms(2,3) by (cases "selectConsumer \<pi> q w") auto

text \<open>The bytes a consumer gets for a message.\<close>

definition deliveryLine :: "world \<Rightarrow> cref \<Rightarrow> Message \<Rightarrow> json" where
  "deliveryLine w c msg = marshal_Envelope
     \<lparr>env_ChannelID = ch_id (w_ch w (c_channel (w_c w c))), env_RequestID = 0, env_Type = BasicDeliverType,
      env_Payload = Some (deliverFrame (w_c w c) msg)\<rparr>"

lemma deliverFrame_hold [simp]: "deliverFrame (holdMessage m C) msg = deliverFrame C msg"
  by (simp add: deliverFrame_def)

lemma dispatch_writable:
  assumes "q_messages (w_q w q) = msg # rest" "selectConsumer \<pi> q w = Some c" "writable w c"
  shows "dispatchOnce \<pi> q w = (Delivers c msg,
    upd_m (\<lambda>M. M\<lparr>mt_Delivered := inc (q_name (w_q w q)) (mt_Delivered M)\<rparr>)
     (upd_cn (ch_conn (w_ch w (c_channel (w_c w c)))) (\<lambda>C. C\<lparr>cn_out := cn_out C @ [deliveryLine w c msg]\<rparr>)
       (takeMessage q c msg w)))"
  using assms
  by (simp add: dispatchOnce_def Let_def WriteEnvelope_def send_def writable_def deliveryLine_def takeMessage_def)

text \<open>
  C10. A waiting message is delivered: if some consumer of the queue has room and the connections of
  the consumers can be written, a turn of the dispatch loop takes the oldest message, gives it to a
  consumer that had room, remembers it there as unacknowledged, and the client is sent exactly
  the frame of that message.
\<close>

theorem dispatch_delivers_oldest:
  assumes "orders_ok \<pi>" "q_messages (w_q w q) = msg # rest"
    and "gm_has c0 (q_consumers (w_q w q))" "hasRoom (w_c w c0)"
    and "\<forall>c. gm_has c (q_consumers (w_q w q)) \<longrightarrow> writable w c"
  shows "\<exists>c w'. dispatchOnce \<pi> q w = (Delivers c msg, w') \<and>
    gm_has c (q_consumers (w_q w q)) \<and> hasRoom (w_c w c) \<and>
    q_messages (w_q w' q) = rest \<and>
    gm_get (c_pendingMessages (w_c w' c)) (m_DeliveryTag msg) = Some msg \<and>
    gm_has (m_DeliveryTag msg) (c_inflightTags (w_c w' c)) \<and>
    c_inflight (w_c w' c) = c_inflight (w_c w c) + 1 \<and>
    (\<forall>c' \<noteq> c. w_c w' c' = w_c w c') \<and> (\<forall>q' \<noteq> q. w_q w' q' = w_q w q') \<and>
    cn_out (w_cn w' (ch_conn (w_ch w (c_channel (w_c w c))))) =
      cn_out (w_cn w (ch_conn (w_ch w (c_channel (w_c w c))))) @ [deliveryLine w c msg]"
proof -
  obtain c where c: "selectConsumer \<pi> q w = Some c"
    by (rule selectConsumer_some_room [OF assms(1,3,4)])
  note sel = selectConsumer_Some [OF assms(1) c]
  then have "writable w c" using assms(5) by blast
  from dispatch_writable [OF assms(2) c this] sel assms(2) show ?thesis
    by (intro exI [of _ c]) (simp add: takeMessage_def holdMessage_def gm.get_put gm_has_def gm.keys_put)
qed

theorem dispatch_delivers_oldest_witness:
  "\<exists>c w'. dispatchOnce rev_orders 0 (demoWaiting []) = (Delivers c msg7, w') \<and> q_messages (w_q w' 0) = [msg8]"
  using dispatch_delivers_oldest [OF orders_ok_rev, of "demoWaiting []" 0 msg7 "[msg8]" 0]
  by (auto simp: demoWaiting_eq demoWorld_def hasRoom_def writable_def gm_has_def)

lemma hold_then_release:
  assumes "consumer_ok C" "\<not> gm_has (m_DeliveryTag m) (c_pendingMessages C)"
  shows "releaseMessage (m_DeliveryTag m) (holdMessage m C) = C"
proof -
  have "\<not> gm_has (m_DeliveryTag m) (c_inflightTags C)"
    using assms by (simp add: gm_has_def consumer_ok_def)
  then show ?thesis using assms(2) by (simp add: releaseMessage_def holdMessage_def gm_del_put_new)
qed

lemma dispatch_failure:
  assumes inv: "broker_inv w" and \<pi>: "orders_ok \<pi>" and q: "q < w_nq w"
    and N: "mt_Enqueued (w_metrics w) (q_name (w_q w q)) \<le> tag_space"
    and D: "dispatchOnce \<pi> q w = (DeliverFails c msg, w')"
  shows "w_q w' = w_q w" "w_c w' = w_c w"
    "mt_DeliverErrors (w_metrics w') = inc (q_name (w_q w q)) (mt_DeliverErrors (w_metrics w))"
proof -
  note wf = broker_invD(1) [OF inv] and ac = accountsD [OF broker_invD(2) [OF inv] q]
  from D have "w_q w' = w_q w \<and> w_c w' = w_c w \<and>
    mt_DeliverErrors (w_metrics w') = inc (q_name (w_q w q)) (mt_DeliverErrors (w_metrics w))"
  proof (cases rule: dispatchOnce_cases)
    case (Fail c' msg' ms w2)
    note c = selectConsumer_Some(1) [OF \<pi> Fail(2)] and sb = same_broker_simps [OF Fail(4)]
    note ok = wf_consumer(1) [OF wf wf_registered(2) [OF wf q c]]
    have "\<not> gm_has (m_DeliveryTag msg') (c_pendingMessages (w_c w c'))"
      by (rule waiting_tag_fresh [OF ok c account_tags(1) [OF ac N]]) (simp add: Fail(1))
    from hold_then_release [OF ok this] Fail(1,5) show ?thesis
      by (simp add: putBack_def pushFront_def sb takeMessage_def fun_upd_idem)
  qed simp_all
  then show "w_q w' = w_q w" "w_c w' = w_c w"
    "mt_DeliverErrors (w_metrics w') = inc (q_name (w_q w q)) (mt_DeliverErrors (w_metrics w))"
    by simp_all
qed



section \<open>Acknowledging\<close>

text \<open>The consumers of a queue that hold a tag.\<close>

definition holdsTag :: "world \<Rightarrow> qref \<Rightarrow> u16 \<Rightarrow> cref \<Rightarrow> bool" where
  "holdsTag w q t c \<longleftrightarrow> gm_has c (q_consumers (w_q w q)) \<and> gm_has t (c_pendingMessages (w_c w c))"

text \<open>
  C12. An acknowledgement settles exactly one message or none. It succeeds exactly when a consumer
  of the queue holds an unacknowledged message with that tag; then this message leaves the queue,
  its consumer gets a free slot, the counter of acknowledgements goes up and no other queue changes.
  Otherwise an error is returned and nothing changes.
\<close>

theorem ack_settles_one:
  assumes "broker_inv w" "orders_ok \<pi>" "gm_get (w_queues w) n = Some q"
  shows "(fst (Ack \<pi> n t w) = None \<longleftrightarrow> (\<exists>c. holdsTag w q t c)) \<and>
    (fst (Ack \<pi> n t w) \<noteq> None \<longrightarrow> snd (Ack \<pi> n t w) = w) \<and>
    (fst (Ack \<pi> n t w) = None \<longrightarrow>
       (\<exists>c m. holdsTag w q t c \<and> m_DeliveryTag m = t \<and>
          contents w q = add_mset m (contents (snd (Ack \<pi> n t w)) q) \<and>
          (\<forall>q' < w_nq w. q' \<noteq> q \<longrightarrow> contents (snd (Ack \<pi> n t w)) q' = contents w q') \<and>
          c_inflight (w_c (snd (Ack \<pi> n t w)) c) = c_inflight (w_c w c) - 1 \<and>
          mt_Acked (w_metrics (snd (Ack \<pi> n t w))) = inc n (mt_Acked (w_metrics w))))"
proof -
  note wf = broker_invD(1) [OF assms(1)]
  obtain r w' where A: "Ack \<pi> n t w = (r, w')" by force
  from A wf assms(2) show ?thesis
  proof (cases rule: Ack_cases)
    case NoQueue
    with assms(3) show ?thesis by simp
  next
    case (NoTag q')
    with assms(3) A show ?thesis by (auto simp: holdsTag_def)
  next
    case (Acked q' c m)
    then have q: "q' = q" using assms(3) by simp
    note cn = wf_consumer(1) [OF wf wf_registered(2) [OF wf Acked(2,5)]]
    have h: "holdsTag w q t c" using Acked q by (simp add: holdsTag_def gm_has_get)
    have "m_DeliveryTag m = t" by (rule pending_tag [OF cn Acked(6)])
    moreover have "contents w q = add_mset m (contents w' q)"
      using contents_release [OF wf Acked(2,2,5,6)] Acked(7) q by simp
    moreover have "\<forall>q'' < w_nq w. q'' \<noteq> q \<longrightarrow> contents w' q'' = contents w q''"
      using contents_release [OF wf Acked(2) _ Acked(5,6)] Acked(7) q by simp
    moreover have "c_inflight (w_c w' c) = c_inflight (w_c w c) - 1"
      "mt_Acked (w_metrics w') = inc n (mt_Acked (w_metrics w))"
      using Acked(7) by (simp_all add: releaseMessage_def)
    ultimately show ?thesis using h A Acked(4) by auto
  qed
qed

theorem ack_settles_one_witness:
  "fst (Ack id_orders ''q'' 1 (demoInflight [])) = None \<and> fst (Ack id_orders ''q'' 2 (demoInflight [])) \<noteq> None"
  using ack_settles_one [of "demoInflight []" id_orders "''q''" 0 1]
    ack_settles_one [of "demoInflight []" id_orders "''q''" 0 2] broker_inv_demo(2) [of "[]"]
  by (simp add: demoInflight_eq demoWorld_def holdsTag_def gm_has_def msg7_def)

section \<open>Refusing\<close>

text \<open>
  The consumer \<open>c\<close> is the only one of the channel \<open>ch\<close> that holds the tag of \<open>m\<close>, which is in
  particular the case when the channel has a single consumer.
\<close>

definition holder :: "world \<Rightarrow> chref \<Rightarrow> cref \<Rightarrow> Message \<Rightarrow> bool" where
  "holder w ch c m \<longleftrightarrow>
     c \<in> snd ` set (ch_consumers (w_ch w ch)) \<and>
     gm_get (c_pendingMessages (w_c w c)) (m_DeliveryTag m) = Some m \<and>
     (\<forall>c' \<in> snd ` set (ch_consumers (w_ch w ch)).
        gm_has (m_DeliveryTag m) (c_pendingMessages (w_c w c')) \<longrightarrow> c' = c)"

lemma find_unique:
  assumes "x \<in> set xs" "P x" "\<And>y. y \<in> set xs \<Longrightarrow> P y \<Longrightarrow> y = x"
  shows "List.find P xs = Some x"
proof (cases "List.find P xs")
  case None
  with assms(1,2) show ?thesis by (simp add: find_None_iff)
next
  case (Some y)
  then have "y \<in> set xs" "P y" by (auto simp: find_Some_iff)
  with assms(3) Some show ?thesis by blast
qed

lemma holder_find:
  assumes "broker_inv w" "orders_ok \<pi>" "ch < w_nch w" "holder w ch c m"
  shows "List.find (\<lambda>c. gm_has (m_DeliveryTag m) (c_pendingMessages (w_c w c))) (channelConsumers \<pi> ch w) = Some c"
proof (rule find_unique)
  note cs = set_channelConsumers [OF broker_invD(1) [OF assms(1)] assms(3,2)]
  show "c \<in> set (channelConsumers \<pi> ch w)" using assms(4) unfolding cs holder_def by blast
  show "gm_has (m_DeliveryTag m) (c_pendingMessages (w_c w c))"
    using assms(4) unfolding holder_def gm_has_get by blast
  show "c' = c" if "c' \<in> set (channelConsumers \<pi> ch w)"
    "gm_has (m_DeliveryTag m) (c_pendingMessages (w_c w c'))" for c'
    using assms(4) that unfolding cs holder_def by blast
qed

lemma holder_valid:
  assumes "broker_inv w" "ch < w_nch w" "holder w ch c m"
  shows "c < w_nc w" "gm_has c (q_consumers (w_q w (c_queue (w_c w c))))" "c_queue (w_c w c) < w_nq w"
proof -
  note wf = broker_invD(1) [OF assms(1)]
  have c: "c \<in> set (channelConsumers id_orders ch w)"
    using assms(3) unfolding set_channelConsumers [OF wf assms(2) orders_ok_id] holder_def by blast
  show cn: "c < w_nc w" by (rule channelConsumers_valid(1) [OF wf assms(2) c])
  have "gm_has (m_DeliveryTag m) (c_pendingMessages (w_c w c))"
    using assms(3) unfolding holder_def gm_has_get by blast
  then show "gm_has c (q_consumers (w_q w (c_queue (w_c w c))))" by (rule holder_registered [OF wf cn])
  show "c_queue (w_c w c) < w_nq w" by (rule wf_consumer(3) [OF wf cn])
qed

definition nackEnv :: "Envelope \<Rightarrow> u16 \<Rightarrow> bool option \<Rightarrow> bool" where
  "nackEnv env t rq \<longleftrightarrow>
     decode_Nack (env_Payload env) = (\<lparr>nack_DeliveryTag = t, nack_Requeue = rq\<rparr>, None)"

lemma HandleNack_holder:
  assumes "broker_inv w" "orders_ok \<pi>" "ch < w_nch w" "holder w ch c m" "nackEnv env (m_DeliveryTag m) rq"
  shows "HandleNack \<pi> ch env w = nackMessage \<pi> c (m_DeliveryTag m) m (rq \<noteq> Some False) w"
  using assms(4,5) holder_find [OF assms(1-4)]
  by (cases rq) (auto simp: HandleNack_def nackEnv_def holder_def Let_def)

text \<open>
  C13. A nack without a requeue flag, or with the flag set, puts the message back at the front of its
  queue and frees the consumer's slot. No message is lost or duplicated in any queue.
\<close>

theorem nack_requeues:
  assumes "broker_inv w" "orders_ok \<pi>" "ch < w_nch w" "holder w ch c m"
    and "nackEnv env (m_DeliveryTag m) rq" "rq \<noteq> Some False" "w' = HandleNack \<pi> ch env w"
  shows "q_messages (w_q w' (c_queue (w_c w c))) = m # q_messages (w_q w (c_queue (w_c w c))) \<and>
    \<not> gm_has (m_DeliveryTag m) (c_pendingMessages (w_c w' c)) \<and>
    c_inflight (w_c w' c) = c_inflight (w_c w c) - 1 \<and>
    (\<forall>q < w_nq w. contents w' q = contents w q)"
proof -
  note wf = broker_invD(1) [OF assms(1)] and c = holder_valid [OF assms(1,3,4)]
  have w': "w' = nackMessage \<pi> c (m_DeliveryTag m) m True w"
    using HandleNack_holder [OF assms(1-5)] assms(6,7) by simp
  have m: "gm_get (c_pendingMessages (w_c w c)) (m_DeliveryTag m) = Some m"
    using assms(4) by (simp add: holder_def)
  have "contents w' q = contents w q" if "q < w_nq w" for q
    using contents_putBack [OF wf c(3) that c(2) m]
    by (simp add: w' nackMessage_def Let_def putBack_def contents_def held_def)
  then show ?thesis
    by (simp add: w' nackMessage_def Let_def pushFront_def releaseMessage_def gm_has_def gm.keys_del)
qed

lemma demo_nack:
  "holder (demoInflight dlx) 0 0 msg7" "nackEnv (nackReq 1 rq) (m_DeliveryTag msg7) rq"
  "0 < w_nch (demoInflight dlx)"
  by (simp_all add: holder_def demoInflight_eq demoWorld_def nackEnv_def nackReq_def nack.decode_marshal msg7_def)

theorem nack_requeues_witness:
  "q_messages (w_q (HandleNack id_orders 0 (nackReq 1 None) (demoInflight [])) 0) = [msg7, msg8] \<and>
   q_messages (w_q (HandleNack id_orders 0 (nackReq 1 (Some True)) (demoInflight [])) 0) = [msg7, msg8]"
  using nack_requeues [OF broker_inv_demo(2) orders_ok_id demo_nack(3,1) demo_nack(2) [of None], of _ "[]"]
    nack_requeues [OF broker_inv_demo(2) orders_ok_id demo_nack(3,1) demo_nack(2) [of "Some True"], of _ "[]"]
  by (simp add: demoInflight_eq demoWorld_def)

text \<open>
  A nack with the flag off on a queue without dead-letter exchange removes the message from the
  queue, frees the slot and counts it as dropped; nothing else changes.
\<close>

lemma nack_drops:
  assumes "broker_inv w" "orders_ok \<pi>" "ch < w_nch w" "holder w ch c m"
    and "nackEnv env (m_DeliveryTag m) (Some False)" "q_dlx (w_q w (c_queue (w_c w c))) = []"
    and "w' = HandleNack \<pi> ch env w"
  shows "contents w (c_queue (w_c w c)) = add_mset m (contents w' (c_queue (w_c w c))) \<and>
    (\<forall>q < w_nq w. q \<noteq> c_queue (w_c w c) \<longrightarrow> contents w' q = contents w q) \<and> w_q w' = w_q w \<and>
    c_inflight (w_c w' c) = c_inflight (w_c w c) - 1 \<and>
    mt_Dropped (w_metrics w') = inc (q_name (w_q w (c_queue (w_c w c)))) (mt_Dropped (w_metrics w))"
proof -
  note wf = broker_invD(1) [OF assms(1)] and c = holder_valid [OF assms(1,3,4)]
  have w': "w' = nackMessage \<pi> c (m_DeliveryTag m) m False w"
    using HandleNack_holder [OF assms(1-5)] assms(7) by simp
  have m: "gm_get (c_pendingMessages (w_c w c)) (m_DeliveryTag m) = Some m"
    using assms(4) by (simp add: holder_def)
  show ?thesis
    using contents_release [OF wf c(3) _ c(2) m] c(3) assms(6)
    by (simp add: w' nackMessage_def Let_def releaseMessage_def)
qed

text \<open>
  C14. A nack with the flag off on a queue whose dead-letter exchange is declared moves the message:
  it leaves its queue and every queue bound to that exchange, under the dead-letter routing key or
  else the message's own, gets it once with a tag of its own.
\<close>

theorem nack_dead_letters:
  assumes "broker_inv w" "orders_ok \<pi>" "ch < w_nch w" "holder w ch c m"
    and "nackEnv env (m_DeliveryTag m) (Some False)"
    and "Q = w_q w (c_queue (w_c w c))" "q_dlx Q \<noteq> []" "gm_get (w_exchanges w) (q_dlx Q) = Some e"
    and "rk = (if q_dlxRoutingKey Q = [] then m_RoutingKey m else q_dlxRoutingKey Q)"
    and "q < w_nq w"
  shows "contents (HandleNack \<pi> ch env w) q =
    contents w q - (if q = c_queue (w_c w c) then {#m#} else {#}) +
    (if isBound w (q_dlx Q) rk q
     then {#\<lparr>m_DeliveryTag = q_nextTag (w_q w q), m_Body = m_Body m, m_Exchange = q_dlx Q, m_RoutingKey = rk\<rparr>#}
     else {#})"
proof -
  note wf = broker_invD(1) [OF assms(1)] and c = holder_valid [OF assms(1,3,4)]
  have m: "gm_get (c_pendingMessages (w_c w c)) (m_DeliveryTag m) = Some m"
    using assms(4) by (simp add: holder_def)
  let ?n = "q_name Q" and ?M = "w_metrics w"
  let ?M2 = "?M\<lparr>mt_Nacked := (mt_Nacked ?M)(?n := inc False (mt_Nacked ?M ?n)),
      mt_DeadLettered := inc ?n (mt_DeadLettered ?M)\<rparr>"
  let ?w = "(upd_c c (releaseMessage (m_DeliveryTag m)) w)\<lparr>w_metrics := ?M2\<rparr>"
  have inv: "broker_inv ?w"
    by (rule broker_inv_settle [OF assms(1) c(3,2) m]) (simp_all add: assms(6) settled_def fun_eq_iff)
  have eq: "HandleNack \<pi> ch env w = snd (Publish \<pi> (q_dlx Q) rk (m_Body m) ?w)"
    using HandleNack_holder [OF assms(1-5)] assms(6,7,9) by (simp add: nackMessage_def Let_def)
  have "contents ?w q = contents w q - (if q = c_queue (w_c w c) then {#m#} else {#})"
    using contents_release [OF wf c(3) assms(10) c(2) m] by simp
  moreover have "isBound ?w (q_dlx Q) rk q = isBound w (q_dlx Q) rk q"
    by (simp add: isBound_def boundMap_def cong: option.case_cong)
  ultimately show ?thesis
    using contents_Publish [OF inv assms(2), of "q_dlx Q" e q rk "m_Body m"] assms(8,10)
    by (simp add: eq newMessage_def)
qed

theorem nack_dead_letters_witness:
  "contents (HandleNack id_orders 0 (nackReq 1 (Some False)) (demoInflight ''x'')) 0 =
     contents (demoInflight ''x'') 0 - {#msg7#} +
     {#\<lparr>m_DeliveryTag = 3, m_Body = [7], m_Exchange = ''x'', m_RoutingKey = ''k''\<rparr>#}"
proof -
  let ?w = "demoInflight ''x''"
  have w: "c_queue (w_c ?w 0) = 0" "q_dlx (w_q ?w 0) = ''x''" "q_dlxRoutingKey (w_q ?w 0) = []" "0 < w_nq ?w"
    "gm_get (w_exchanges ?w) ''x'' = Some 0" "isBound ?w ''x'' ''k'' 0" "q_nextTag (w_q ?w 0) = 3"
    by (simp_all add: demoInflight_eq demoWorld_def isBound_def boundMap_def)
  show ?thesis
    using nack_dead_letters [OF broker_inv_demo(2) [of "''x''"] orders_ok_id demo_nack(3,1) demo_nack(2) refl _ _ refl w(4), of 0]
    by (simp add: w) (simp add: msg7_def w)
qed

section \<open>Declaring, binding and consuming\<close>

text \<open>
  C16. Bindings made in any order, repeated or not, route a key to exactly the queues bound under
  it, and to each of them once.
\<close>

theorem bindings_route:
  assumes "wf_world w" "e < w_ne w" "orders_ok \<pi>" "\<forall>(q, k) \<in> set bs. q < w_nq w"
  shows "set (getQueues \<pi> e rk (fold (\<lambda>(q, k). bind e q k) bs w)) =
      set (getQueues \<pi> e rk w) \<union> {q. (q, rk) \<in> set bs} \<and>
    distinct (getQueues \<pi> e rk (fold (\<lambda>(q, k). bind e q k) bs w))"
  using exch.routes_fold [of w e \<pi> bs rk] exch.routes_distinct assms by blast

theorem bindings_route_witness:
  "set (getQueues rev_orders 0 ''k2'' (fold (\<lambda>(q, k). bind 0 q k) [(0, ''k2''), (0, ''k2'')] (demoWaiting []))) = {0} \<and>
   distinct (getQueues rev_orders 0 ''k2'' (fold (\<lambda>(q, k). bind 0 q k) [(0, ''k2''), (0, ''k2'')] (demoWaiting [])))"
proof -
  have "0 < w_ne (demoWaiting [])" "0 < w_nq (demoWaiting [])" "getQueues rev_orders 0 ''k2'' (demoWaiting []) = []"
    by (simp_all add: demoWaiting_eq demoWorld_def getQueues_def)
  then show ?thesis
    using bindings_route [OF broker_invD(1) [OF broker_inv_demo(1)] _ orders_ok_rev,
        of 0 "[]" "[(0, ''k2''), (0, ''k2'')]" "''k2''"] by simp
qed

text \<open>
  Declaring is idempotent: the first declaration of a name fixes its dead-letter settings and
  later ones change nothing.
\<close>

lemma declare_idempotent:
  "DeclareQueue n dlx' rk' (DeclareQueue n dlx rk w) = DeclareQueue n dlx rk w \<and>
   DeclareExchange ex (DeclareExchange ex w) = DeclareExchange ex w \<and>
   gm_get (w_queues (DeclareQueue n dlx rk w)) n \<noteq> None \<and>
   gm_get (w_exchanges (DeclareExchange ex w)) ex \<noteq> None"
  by (auto simp: DeclareQueue_def DeclareExchange_def gm.get_put split: option.split)

lemma RegisterConsumer_parts:
  assumes "broker_inv w" "ch < w_nch w"
    and "tag = (if s = [] then ''ch.'' @ formatUint 10 (unat (ch_id (w_ch w ch))) @ ''.consumer.'' @
                  formatUint 10 (length (ch_consumers (w_ch w ch)) + 1) else s)"
    and "RegisterConsumer s n ch w = (r, w')"
  shows "(\<exists>e. r = Inl e) \<longleftrightarrow> gm_get (w_queues w) n = None \<or> gm_has tag (ch_consumers (w_ch w ch))"
    and "r = Inl e \<Longrightarrow> w' = w"
    and "r = Inr t \<Longrightarrow> t = tag \<and> gm_get (ch_consumers (w_ch w' ch)) tag = Some (w_nc w) \<and>
      gm_has (w_nc w) (q_consumers (w_q w' (the (gm_get (w_queues w) n)))) \<and>
      c_inflight (w_c w' (w_nc w)) = 0 \<and> c_pendingMessages (w_c w' (w_nc w)) = [] \<and>
      c_prefetch (w_c w' (w_nc w)) = 10 \<and> (\<forall>q < w_nq w. contents w' q = contents w q)"
proof -
  note wf = broker_invD(1) [OF assms(1)]
  have tag: "c_tag (NewConsumer s q ch (w_ch w ch)) = tag" for q by (simp add: NewConsumer_def assms(3) Let_def)
  show "(\<exists>e. r = Inl e) \<longleftrightarrow> gm_get (w_queues w) n = None \<or> gm_has tag (ch_consumers (w_ch w ch))"
    "r = Inl e \<Longrightarrow> w' = w"
    using assms(4) by (auto simp: RegisterConsumer_def Let_def tag split: option.splits if_splits)
  show "t = tag \<and> gm_get (ch_consumers (w_ch w' ch)) tag = Some (w_nc w) \<and>
      gm_has (w_nc w) (q_consumers (w_q w' (the (gm_get (w_queues w) n)))) \<and>
      c_inflight (w_c w' (w_nc w)) = 0 \<and> c_pendingMessages (w_c w' (w_nc w)) = [] \<and>
      c_prefetch (w_c w' (w_nc w)) = 10 \<and> (\<forall>q < w_nq w. contents w' q = contents w q)" if r: "r = Inr t"
  proof -
    have "\<forall>q < w_nq w. contents w' q = contents w q"
      using contents_RegisterConsumer [OF wf, of _ s n ch] assms(4) by simp
    with assms(4) r show ?thesis
    proof (cases rule: RegisterConsumer_cases)
      case (Registered q C)
      then show ?thesis
        using r \<open>\<forall>q < w_nq w. _\<close>
        by (auto simp: tag gm.get_put gm_has_def gm.keys_put withConsumer_def registerConsumer_def)
    qed simp
  qed
qed

text \<open>
  C17. A consumer is accepted exactly when its queue is declared and its tag is free on the channel.
  A new consumer is registered with the queue and the channel, starts with no message in flight and
  a prefetch of ten; a refused one leaves no trace. No message moves either way.
\<close>

theorem consume_registers:
  assumes "broker_inv w" "ch < w_nch w"
    and "tag = (if s = [] then ''ch.'' @ formatUint 10 (unat (ch_id (w_ch w ch))) @ ''.consumer.'' @
                  formatUint 10 (length (ch_consumers (w_ch w ch)) + 1) else s)"
    and "RegisterConsumer s n ch w = (r, w')"
  shows "((\<exists>e. r = Inl e) \<longleftrightarrow> gm_get (w_queues w) n = None \<or> gm_has tag (ch_consumers (w_ch w ch))) \<and>
    (\<forall>e. r = Inl e \<longrightarrow> w' = w) \<and>
    (\<forall>t. r = Inr t \<longrightarrow> t = tag \<and> gm_get (ch_consumers (w_ch w' ch)) tag = Some (w_nc w) \<and>
      gm_has (w_nc w) (q_consumers (w_q w' (the (gm_get (w_queues w) n)))) \<and>
      c_inflight (w_c w' (w_nc w)) = 0 \<and> c_pendingMessages (w_c w' (w_nc w)) = [] \<and>
      c_prefetch (w_c w' (w_nc w)) = 10 \<and> (\<forall>q < w_nq w. contents w' q = contents w q))"
  by (intro conjI allI impI)
    (rule RegisterConsumer_parts(1) [OF assms], erule RegisterConsumer_parts(2) [OF assms],
     (drule RegisterConsumer_parts(3) [OF assms], simp)+)

theorem consume_registers_witness:
  "(\<exists>w'. RegisterConsumer [] ''q'' 0 (demoWaiting []) = (Inr ''ch.1.consumer.2'', w')) \<and>
   (\<exists>e. RegisterConsumer ''t'' ''q'' 0 (demoWaiting []) = (Inl e, demoWaiting []))"
proof -
  let ?w = "demoWaiting []"
  have w: "gm_get (w_queues ?w) ''q'' = Some 0" "ch_consumers (w_ch ?w 0) = [(''t'', 0)]" "ch_id (w_ch ?w 0) = 1"
    "0 < w_nch ?w" by (simp_all add: demoWaiting_eq demoWorld_def)
  obtain r1 w1 where 1: "RegisterConsumer [] ''q'' 0 ?w = (r1, w1)" by force
  obtain r2 w2 where 2: "RegisterConsumer ''t'' ''q'' 0 ?w = (r2, w2)" by force
  have fmt: "formatUint 10 (Suc 0) = ''1''" "formatUint 10 (Suc (Suc 0)) = ''2''" by code_simp+
  show ?thesis
    using consume_registers [OF broker_inv_demo(1) w(4) refl 1] consume_registers [OF broker_inv_demo(1) w(4) refl 2]
    by (cases r1; cases r2) (simp_all add: 1 2 w gm_has_def fmt)
qed

section \<open>Connections\<close>

text \<open>
  C18. A connection that ends, for whatever reason, gives back everything: the consumers of its open
  channels are no longer registered and hold nothing, every queue still contains the same
  messages, and the server has forgotten the connection.
\<close>

theorem disconnect_returns_messages:
  assumes "broker_inv w" "orders_ok \<pi>" "cn < w_ncn w" "w' = closeConn \<pi> cn w"
  shows "(\<forall>q < w_nq w. contents w' q = contents w q) \<and>
    (\<forall>c \<in> connConsumers cn w. \<not> gm_has c (q_consumers (w_q w' (c_queue (w_c w c)))) \<and>
       c_pendingMessages (w_c w' c) = []) \<and>
    \<not> gm_has cn (w_connections w') \<and> cn_closed (w_cn w' cn)"
proof -
  define w2 where "w2 = shutdown cn (upd_m (\<lambda>M. M\<lparr>mt_ConnectionsClosed := Suc (mt_ConnectionsClosed M)\<rparr>) w)"
  define w3 where "w3 = connCleanup \<pi> cn w2"
  have w2: "w_q w2 = w_q w" "w_c w2 = w_c w" "w_nq w2 = w_nq w" "w_ncn w2 = w_ncn w" "w_ch w2 = w_ch w"
    "cn_channels (w_cn w2 cn) = cn_channels (w_cn w cn)" "cn_closed (w_cn w2 cn)"
    by (simp_all add: w2_def shutdown_def)
  have inv: "broker_inv w2"
    unfolding w2_def using broker_inv_metrics [OF assms(1)]
    by (intro broker_inv_same_links [OF same_links_shutdown]) simp
  have w': "w' = upd_cn cn (\<lambda>C. C\<lparr>cn_netok := False\<rparr>) (w3\<lparr>w_connections := gm_del cn (w_connections w3)\<rparr>)"
    by (simp add: assms(4) closeConn_def Let_def w3_def w2_def)
  have "contents w' q = contents w q" if "q < w_nq w" for q
  proof -
    have "contents w' q = contents w3 q" by (simp add: w' contents_def held_def)
    also have "\<dots> = contents w2 q"
      unfolding w3_def by (rule contents_connCleanup [OF inv assms(2)]) (use assms(3) that w2 in simp_all)
    finally show ?thesis by (simp add: contents_def held_def w2)
  qed
  moreover have "connConsumers cn w2 = connConsumers cn w" by (simp add: connConsumers_def w2)
  then have "\<not> gm_has c (q_consumers (w_q w3 (c_queue (w_c w c)))) \<and> c_pendingMessages (w_c w3 c) = []"
    if "c \<in> connConsumers cn w" for c
    using connCleanup_unregistered [OF inv assms(2), of cn c] assms(3) that w2 by (simp add: w3_def)
  ultimately show ?thesis using w2(7) by (simp add: w' gm_has_def gm.keys_del w3_def)
qed

theorem disconnect_returns_messages_witness:
  "contents (closeConn id_orders 0 (demoInflight [])) 0 = {#msg7, msg8#} \<and>
   c_pendingMessages (w_c (closeConn id_orders 0 (demoInflight [])) 0) = []"
proof -
  let ?w = "demoInflight []"
  have "0 < w_nq ?w" "0 < w_ncn ?w" "0 \<in> connConsumers 0 ?w" "contents ?w 0 = {#msg7, msg8#}"
    by (simp_all add: demoInflight_eq demoWorld_def connConsumers_def contents_def held_def pend_def)
  then show ?thesis using disconnect_returns_messages [OF broker_inv_demo(2) orders_ok_id _ refl, of 0 "[]"] by simp
qed

text \<open>
  C19. The handshake succeeds exactly for a client that sends the protocol header and then three
  lines that decode as the three client messages, over a socket that takes writes. The client then
  has received start, tune with the limits of the configuration, and open-ok, in this order, and
  the connection is open with the rest of its input unread.
\<close>

theorem handshake_succeeds_iff:
  "(fst (RunHandshake cn w) = None \<longleftrightarrow>
      clientHello (cn_in (w_cn w cn)) \<and> \<not> cn_closed (w_cn w cn) \<and> cn_netok (w_cn w cn)) \<and>
   (fst (RunHandshake cn w) = None \<longrightarrow>
      snd (RunHandshake cn w) = upd_cn cn (\<lambda>C. C\<lparr>cn_in := drop 4 (cn_in C),
        cn_out := cn_out C @ serverHello (w_config w), cn_state := StateOpen\<rparr>) w)"
proof (cases "clientHello (cn_in (w_cn w cn)) \<and> \<not> cn_closed (w_cn w cn) \<and> cn_netok (w_cn w cn)")
  case True
  with RunHandshake_accepts [of w cn] show ?thesis by simp
next
  case False
  with RunHandshake_None [of cn w] show ?thesis by blast
qed

theorem handshake_succeeds_iff_witness:
  "fst (RunHandshake 0 (snd (acceptConn hello True (NewServer demo_config)))) = None \<and>
   cn_state (w_cn (snd (RunHandshake 0 (snd (acceptConn hello True (NewServer demo_config))))) 0) = StateOpen"
  using handshake_succeeds_iff [of 0 "snd (acceptConn hello True (NewServer demo_config))"] clientHello_hello [of "[]"]
  by (simp add: acceptConn_def NewConnection_def NewServer_def)



end
