(* ===== verification/ExampleClients.thy ===== *)
theory ExampleClients
  imports BrokerProperties
begin

text \<open>
  The example programs \<^verbatim>\<open>exampleClients/publisher/main.go\<close> and \<^verbatim>\<open>exampleClients/consumer/main.go\<close>, and what
  they make the broker do.

  The programs are sequences of calls of the client SDK, which is not part of the repository: it is an argument of
  the definitions (\<open>'s sdk\<close>), over any state. What the broker relies on of it is \<open>speaks\<close>: a call sends the
  request it is named after. The log is the list of lines the program prints.
\<close>

section \<open>Calls of the SDK\<close>

record sdkConfig =
  sdk_ClientName :: string
  sdk_Username :: string
  sdk_Password :: string
  sdk_ChannelMax :: int
  sdk_FrameMax :: int
  sdk_HeartbeatSec :: int

datatype sdkCall =
    SdkConnect string sdkConfig
  | SdkOpenChannel
  | SdkDeclareExchange string
  | SdkDeclareQueue string string string
  | SdkBindQueue string string string
  | SdkPublish Publish
  | SdkConsume string
  | SdkAck u16
  | SdkNack u16 bool

type_synonym 's sdk = "sdkCall \<Rightarrow> 's \<Rightarrow> string option \<times> 's"

definition clientConfig :: "string \<Rightarrow> sdkConfig" where
  "clientConfig name =
     \<lparr>sdk_ClientName = name, sdk_Username = ''daniel'', sdk_Password = ''123456789'', sdk_ChannelMax = 10,
      sdk_FrameMax = 10372, sdk_HeartbeatSec = 10\<rparr>"

text \<open>Calls in sequence; the first error is logged under the label of its call and ends the program.\<close>

fun doCalls :: "'s sdk \<Rightarrow> (string \<times> sdkCall) list \<Rightarrow> 's \<Rightarrow> string option \<times> 's" where
  "doCalls sdk [] s = (None, s)"
| "doCalls sdk ((label, call) # rest) s =
     (case sdk call s of
        (Some err, s') \<Rightarrow> (Some (label @ err), s')
      | (None, s') \<Rightarrow> doCalls sdk rest s')"

section \<open>The publisher\<close>

definition publisherSetup :: "(string \<times> sdkCall) list" where
  "publisherSetup =
     [('''', SdkConnect ''localhost:5672'' (clientConfig ''publisher'')),
      (''open channel error: '', SdkOpenChannel),
      (''declare exchange error: '', SdkDeclareExchange ''dlx''),
      (''declare queue error: '', SdkDeclareQueue ''dlq'' [] []),
      (''bind queue error: '', SdkBindQueue ''dlq'' ''dlx'' ''dead_emails''),
      (''declare exchange error: '', SdkDeclareExchange ''emails''),
      (''declare queue error: '', SdkDeclareQueue ''email_queue'' ''dlx'' ''dead_emails''),
      (''bind queue error: '', SdkBindQueue ''email_queue'' ''emails'' ''email.sent'')]"

text \<open>The body is a JSON string: the text between quotes.\<close>

definition messageBody :: "nat \<Rightarrow> byte list" where
  "messageBody i =
     map (of_nat \<circ> of_char) (CHR 0x22 # ''message number '' @ [char_of (of_char CHR ''0'' + i), CHR 0x22])"

definition emailMessage :: "nat \<Rightarrow> Publish" where
  "emailMessage i = \<lparr>pub_Exchange = ''emails'', pub_RoutingKey = ''email.sent'', pub_Body = messageBody i\<rparr>"

fun publishAll :: "'s sdk \<Rightarrow> nat list \<Rightarrow> 's \<Rightarrow> string list \<times> 's" where
  "publishAll sdk [] s = ([], s)"
| "publishAll sdk (i # is) s =
     (case sdk (SdkPublish (emailMessage i)) s of
        (err, s') \<Rightarrow>
          (case publishAll sdk is s' of
             (log, s'') \<Rightarrow> ((case err of None \<Rightarrow> [] | Some e \<Rightarrow> [''publish error: '' @ e]) @ log, s'')))"

definition publisherMain :: "'s sdk \<Rightarrow> 's \<Rightarrow> string list \<times> 's" where
  "publisherMain sdk s =
     (case doCalls sdk publisherSetup s of
        (Some line, s') \<Rightarrow> ([line], s')
      | (None, s') \<Rightarrow>
          (case publishAll sdk [0, 1, 2] s' of (log, s'') \<Rightarrow> (log @ [''Published 3 messages''], s'')))"

section \<open>The consumer\<close>

definition answerTurn :: "'s sdk \<Rightarrow> sdkCall \<Rightarrow> 's \<Rightarrow> string list \<times> 's" where
  "answerTurn sdk call s =
     (case sdk call s of
        (None, s') \<Rightarrow> ([], s')
      | (Some err, s') \<Rightarrow> ([''ack error: '' @ err], s'))"

definition received :: "string \<Rightarrow> Deliver \<Rightarrow> string list" where
  "received name d =
     [name @ '', Received:'',
      name @ '', Tag:      '' @ formatUint 10 (unat (del_DeliveryTag d)),
      name @ '',  Body:     '' @ map (char_of \<circ> unat) (del_Body d)]"

text \<open>Worker A tests the tag twice; the second test is after the first has let only other tags pass.\<close>

definition turnA :: "'s sdk \<Rightarrow> Deliver \<Rightarrow> 's \<Rightarrow> string list \<times> 's" where
  "turnA sdk d s =
     (let tag = del_DeliveryTag d in
      if tag mod 3 = 0 then answerTurn sdk (SdkNack tag False) s
      else
        (case (if tag mod 3 = 0 then answerTurn sdk (SdkNack tag False) s else answerTurn sdk (SdkAck tag) s) of
           (log, s') \<Rightarrow> (received ''workerA'' d @ log, s')))"

definition turnB :: "'s sdk \<Rightarrow> Deliver \<Rightarrow> 's \<Rightarrow> string list \<times> 's" where
  "turnB sdk d s =
     (let tag = del_DeliveryTag d in
      if tag mod 3 = 0 then answerTurn sdk (SdkNack tag False) s
      else (case answerTurn sdk (SdkAck tag) s of (log, s') \<Rightarrow> (received ''workerB'' d @ log, s')))"

definition turnC :: "'s sdk \<Rightarrow> Deliver \<Rightarrow> 's \<Rightarrow> string list \<times> 's" where
  "turnC sdk d s =
     (case answerTurn sdk (SdkAck (del_DeliveryTag d)) s of (log, s') \<Rightarrow> (received ''workerC'' d @ log, s'))"

fun rangeIncoming :: "(Deliver \<Rightarrow> 's \<Rightarrow> string list \<times> 's) \<Rightarrow> Deliver list \<Rightarrow> 's \<Rightarrow> string list \<times> 's" where
  "rangeIncoming turn [] s = ([], s)"
| "rangeIncoming turn (d # ds) s =
     (case turn d s of
        (log, s') \<Rightarrow> (case rangeIncoming turn ds s' of (log', s'') \<Rightarrow> (log @ log', s'')))"

definition workerMain :: "string \<Rightarrow> ('s sdk \<Rightarrow> Deliver \<Rightarrow> 's \<Rightarrow> string list \<times> 's) \<Rightarrow> 's sdk \<Rightarrow> Deliver list \<Rightarrow> 's \<Rightarrow> string list \<times> 's" where
  "workerMain queue turn sdk incoming s =
     (case sdk SdkOpenChannel s of
        (Some err, s') \<Rightarrow> ([''open channel error: '' @ err], s')
      | (None, s') \<Rightarrow>
          (case sdk (SdkConsume queue) s' of
             (Some err, s'') \<Rightarrow> ([''Waiting for messages on '' @ queue @ ''...'', ''consume error: '' @ err], s'')
           | (None, s'') \<Rightarrow>
               (case rangeIncoming (turn sdk) incoming s'' of
                  (log, s''') \<Rightarrow> ((''Waiting for messages on '' @ queue @ ''...'') # log, s'''))))"

definition workerB :: "'s sdk \<Rightarrow> Deliver list \<Rightarrow> 's \<Rightarrow> string list \<times> 's" where
  "workerB = workerMain ''email_queue'' turnB"

definition workerC :: "'s sdk \<Rightarrow> Deliver list \<Rightarrow> 's \<Rightarrow> string list \<times> 's" where
  "workerC = workerMain ''dlq'' turnC"

text \<open>
  The consumer's \<^verbatim>\<open>main\<close> connects, starts the workers B and C as goroutines and goes on as worker A; the result is the
  goroutines that run then.
\<close>

datatype worker = WorkerA | WorkerB | WorkerC

fun workerOf :: "worker \<Rightarrow> 's sdk \<Rightarrow> Deliver list \<Rightarrow> 's \<Rightarrow> string list \<times> 's" where
  "workerOf WorkerA sdk = workerMain ''email_queue'' turnA sdk"
| "workerOf WorkerB sdk = workerB sdk"
| "workerOf WorkerC sdk = workerC sdk"

definition consumerMain :: "'s sdk \<Rightarrow> 's \<Rightarrow> (string + worker list) \<times> 's" where
  "consumerMain sdk s =
     (case sdk (SdkConnect ''localhost:5672'' (clientConfig ''consumer'')) s of
        (Some err, s') \<Rightarrow> (Inl err, s')
      | (None, s') \<Rightarrow> (Inr [WorkerB, WorkerC, WorkerA], s'))"

lemma turnB_answer: "snd (turnB sdk d s) =
    snd (sdk (if del_DeliveryTag d mod 3 = 0 then SdkNack (del_DeliveryTag d) False else SdkAck (del_DeliveryTag d)) s)"
  by (auto simp: turnB_def answerTurn_def Let_def split: prod.split option.split)

lemma turnA_answer: "snd (turnA sdk d s) = snd (turnB sdk d s)"
  by (auto simp: turnA_def turnB_def Let_def split: prod.split)

lemma turnC_answer: "snd (turnC sdk d s) = snd (sdk (SdkAck (del_DeliveryTag d)) s)"
  by (auto simp: turnC_def answerTurn_def split: prod.split option.split)

section \<open>On the broker\<close>

text \<open>What the SDK documents: a call on an open channel is the request of that name on that channel.\<close>

definition ackEnv :: "Envelope \<Rightarrow> u16 \<Rightarrow> bool" where
  "ackEnv env t \<longleftrightarrow> decode_Ack (env_Payload env) = (\<lparr>ack_DeliveryTag = t\<rparr>, None)"

definition speaks :: "orders \<Rightarrow> chref \<Rightarrow> world sdk \<Rightarrow> bool" where
  "speaks \<pi> ch sdk \<longleftrightarrow>
     (\<forall>t w. \<exists>env. ackEnv env t \<and> snd (sdk (SdkAck t) w) = HandleAck \<pi> ch env w) \<and>
     (\<forall>t rq w. \<exists>env. nackEnv env t (Some rq) \<and> snd (sdk (SdkNack t rq) w) = HandleNack \<pi> ch env w)"

lemma speaks_answers:
  assumes "speaks \<pi> ch sdk"
  shows "\<exists>env. ackEnv env t \<and> snd (sdk (SdkAck t) w) = HandleAck \<pi> ch env w"
    "\<exists>env. nackEnv env t (Some rq) \<and> snd (sdk (SdkNack t rq) w) = HandleNack \<pi> ch env w"
  using assms unfolding speaks_def by simp_all

text \<open>The message as the client's channel of deliveries yields it: what the frame decodes to.\<close>

definition delivery :: "Consumer \<Rightarrow> Message \<Rightarrow> Deliver" where
  "delivery C msg = fst (decode_Deliver (Some (deliverFrame C msg)))"

lemma delivery_eq: "delivery C msg = \<lparr>del_DeliveryTag = m_DeliveryTag msg, del_Body = m_Body msg,
    del_Exchange = m_Exchange msg, del_RoutingKey = m_RoutingKey msg, del_ConsumerTag = c_tag C\<rparr>"
  by (simp add: delivery_def deliverFrame_def deliver.decode_marshal)

text \<open>Turns of the dispatcher, each delivery answered by the worker before the next.\<close>

fun workerRounds :: "orders \<Rightarrow> qref \<Rightarrow> (Deliver \<Rightarrow> world \<Rightarrow> string list \<times> world) \<Rightarrow> nat \<Rightarrow> world \<Rightarrow> world" where
  "workerRounds \<pi> q turn 0 w = w"
| "workerRounds \<pi> q turn (Suc n) w =
     (case dispatchOnce \<pi> q w of
        (Delivers c msg, w') \<Rightarrow> workerRounds \<pi> q turn n (snd (turn (delivery (w_c w' c) msg) w'))
      | (_, w') \<Rightarrow> workerRounds \<pi> q turn n w')"

definition deadLetterTo :: "world \<Rightarrow> qref \<Rightarrow> qref \<Rightarrow> bool" where
  "deadLetterTo w q dq \<longleftrightarrow>
     q_dlx (w_q w q) = ''dlx'' \<and> q_dlxRoutingKey (w_q w q) = ''dead_emails'' \<and>
     isBound w ''dlx'' ''dead_emails'' dq \<and> \<not> isBound w ''dlx'' ''dead_emails'' q"

text \<open>One idle worker on the queue \<open>q\<close>, which dead-letters to \<open>dq\<close>.\<close>

definition emailSetup :: "world \<Rightarrow> chref \<Rightarrow> cref \<Rightarrow> qref \<Rightarrow> qref \<Rightarrow> bool" where
  "emailSetup w ch c q dq \<longleftrightarrow>
     broker_inv w \<and> ch < w_nch w \<and> q < w_nq w \<and> dq < w_nq w \<and>
     q_consumers (w_q w q) = [(c, ())] \<and> (\<exists>t. ch_consumers (w_ch w ch) = [(t, c)]) \<and>
     c_queue (w_c w c) = q \<and> hasRoom (w_c w c) \<and> c_pendingMessages (w_c w c) = [] \<and>
     writable w c \<and> deadLetterTo w q dq"

fun deadLetters :: "u16 \<Rightarrow> Message list \<Rightarrow> Message list" where
  "deadLetters t [] = []"
| "deadLetters t (m # ms) =
     \<lparr>m_DeliveryTag = t, m_Body = m_Body m, m_Exchange = ''dlx'', m_RoutingKey = ''dead_emails''\<rparr> # deadLetters (t + 1) ms"

definition third :: "Message \<Rightarrow> bool" where
  "third m \<longleftrightarrow> m_DeliveryTag m mod 3 = 0"

section \<open>One round\<close>

lemma emailSetupD:
  assumes "emailSetup w ch c q dq"
  shows "broker_inv w" "ch < w_nch w" "q < w_nq w" "dq < w_nq w" "q_consumers (w_q w q) = [(c, ())]"
    "c_queue (w_c w c) = q" "hasRoom (w_c w c)" "c_pendingMessages (w_c w c) = []" "writable w c" "deadLetterTo w q dq"
    "c \<in> snd ` set (ch_consumers (w_ch w ch))" "snd ` set (ch_consumers (w_ch w ch)) = {c}"
  using assms by (auto simp: emailSetup_def)

text \<open>The part of a state the setup depends on.\<close>

lemma emailSetup_frame:
  assumes "emailSetup w ch c q dq" "broker_inv w'" "w_nch w' = w_nch w" "w_nq w' = w_nq w" "w_ch w' = w_ch w" "w_c w' = w_c w"
    and "\<And>r. cn_closed (w_cn w' r) = cn_closed (w_cn w r) \<and> cn_netok (w_cn w' r) = cn_netok (w_cn w r)"
    and "w_exchanges w' = w_exchanges w" "w_e w' = w_e w"
    and "\<And>r. q_name (w_q w' r) = q_name (w_q w r)" "q_consumers (w_q w' q) = q_consumers (w_q w q)"
    and "q_dlx (w_q w' q) = q_dlx (w_q w q)" "q_dlxRoutingKey (w_q w' q) = q_dlxRoutingKey (w_q w q)"
  shows "emailSetup w' ch c q dq"
proof -
  have "isBound w' ex rk r = isBound w ex rk r" for ex rk r
    using assms(8-10) by (simp add: isBound_def boundMap_def cong: option.case_cong)
  moreover have "writable w' c = writable w c" using assms(5-7) by (simp add: writable_def Let_def)
  ultimately show ?thesis using assms by (simp add: emailSetup_def deadLetterTo_def)
qed

definition afterTake :: "qref \<Rightarrow> cref \<Rightarrow> Message \<Rightarrow> world \<Rightarrow> world \<Rightarrow> bool" where
  "afterTake q c m w w' \<longleftrightarrow>
     w_q w' = (w_q w)(q := (w_q w q)\<lparr>q_messages := tl (q_messages (w_q w q))\<rparr>) \<and>
     w_c w' = (w_c w)(c := holdMessage m (w_c w c)) \<and> w_ch w' = w_ch w \<and> w_nch w' = w_nch w \<and> w_nq w' = w_nq w \<and>
     w_e w' = w_e w \<and> w_exchanges w' = w_exchanges w \<and> w_queues w' = w_queues w \<and>
     (\<forall>r. cn_closed (w_cn w' r) = cn_closed (w_cn w r) \<and> cn_netok (w_cn w' r) = cn_netok (w_cn w r))"

lemma round_dispatch:
  assumes "emailSetup w ch c q dq" "orders_ok \<pi>" "q_messages (w_q w q) = m # rest"
  obtains w1 where "dispatchOnce \<pi> q w = (Delivers c m, w1)" "broker_inv w1" "afterTake q c m w w1"
proof -
  note S = emailSetupD [OF assms(1)]
  have "gm_has c (q_consumers (w_q w q))" using S(5) by (simp add: gm_has_def)
  then obtain c' where c': "selectConsumer \<pi> q w = Some c'" by (rule selectConsumer_some_room [OF assms(2) _ S(7)])
  have "c' = c" using selectConsumer_Some(1) [OF assms(2) c'] S(5) by (simp add: gm_has_def)
  with c' have sel: "selectConsumer \<pi> q w = Some c" by simp
  note D = dispatch_writable [OF assms(3) sel S(9)]
  show ?thesis
  proof (rule that [OF D])
    show "broker_inv (upd_m (\<lambda>M. M\<lparr>mt_Delivered := inc (q_name (w_q w q)) (mt_Delivered M)\<rparr>)
     (upd_cn (ch_conn (w_ch w (c_channel (w_c w c)))) (\<lambda>C. C\<lparr>cn_out := cn_out C @ [deliveryLine w c m]\<rparr>)
       (takeMessage q c m w)))"
      using broker_inv_ops(8) [OF S(1) assms(2) S(3)] by (simp add: D)
  qed (simp add: afterTake_def takeMessage_def)
qed

lemma holds_after:
  assumes "emailSetup w ch c q dq" "afterTake q c m w w1" "broker_inv w1"
  shows "holder w1 ch c m" "c_queue (w_c w1 c) = q" "releaseMessage (m_DeliveryTag m) (w_c w1 c) = w_c w c" "ch < w_nch w1"
    "gm_get (w_queues w1) (q_name (w_q w1 q)) = Some q" "q_consumers (w_q w1 q) = [(c, ())]"
    "gm_has (m_DeliveryTag m) (c_inflightTags (w_c w1 c))"
proof -
  note S = emailSetupD [OF assms(1)]
  have "consumer_ok (w_c w c)"
    using wf_consumer(1) [OF broker_invD(1) [OF S(1)] wf_registered(2) [OF broker_invD(1) [OF S(1)] S(3)]] S(5) by (simp add: gm_has_def)
  then show "releaseMessage (m_DeliveryTag m) (w_c w1 c) = w_c w c"
    using assms(2) S(8) hold_then_release [of "w_c w c" m] by (simp add: afterTake_def)
  show "holder w1 ch c m" using assms(2) S(11,12) by (auto simp: holder_def afterTake_def holdMessage_def gm.get_put)
  show "c_queue (w_c w1 c) = q" "ch < w_nch w1" "q_consumers (w_q w1 q) = [(c, ())]"
    "gm_has (m_DeliveryTag m) (c_inflightTags (w_c w1 c))"
    using assms(2) S by (simp_all add: afterTake_def holdMessage_def gm_has_def gm.keys_put)
  show "gm_get (w_queues w1) (q_name (w_q w1 q)) = Some q"
    using wf_queue_by_name [OF broker_invD(1) [OF assms(3)], of q] assms(2) S(3) by (simp add: afterTake_def)
qed

lemma find_only:
  assumes "set xs = {c}" "P c"
  shows "List.find P xs = Some c"
  using assms by (intro find_unique) auto

lemma round_ack:
  assumes "emailSetup w ch c q dq" "orders_ok \<pi>" "afterTake q c m w w1" "broker_inv w1" "ackEnv env (m_DeliveryTag m)"
  shows "emailSetup (HandleAck \<pi> ch env w1) ch c q dq" "w_q (HandleAck \<pi> ch env w1) = w_q w1"
proof -
  note S = emailSetupD [OF assms(1)] and H = holds_after [OF assms(1,3,4)]
  let ?t = "m_DeliveryTag m"
  have "set (channelConsumers \<pi> ch w1) = {c}"
    using set_channelConsumers [OF broker_invD(1) [OF assms(4)] H(4) assms(2)] S(12) assms(3) by (simp add: afterTake_def)
  then have f1: "List.find (\<lambda>c. gm_has ?t (c_inflightTags (w_c w1 c))) (channelConsumers \<pi> ch w1) = Some c"
    by (rule find_only) (rule H(7))
  have "set (o_consumers \<pi> q (gm_keys (q_consumers (w_q w1 q)))) = {c}" using orders_set(2) [OF assms(2)] H(6) by simp
  then have f2: "List.find (\<lambda>c. gm_has ?t (c_inflightTags (w_c w1 c))) (o_consumers \<pi> q (gm_keys (q_consumers (w_q w1 q)))) = Some c"
    by (rule find_only) (rule H(7))
  have e: "HandleAck \<pi> ch env w1 =
      upd_m (\<lambda>M. M\<lparr>mt_Acked := inc (q_name (w_q w1 q)) (mt_Acked M)\<rparr>) (upd_c c (releaseMessage ?t) w1)"
    using assms(5) by (simp add: HandleAck_def ackEnv_def f1 H(2) Ack_def H(5) f2)
  then show "w_q (HandleAck \<pi> ch env w1) = w_q w1" by simp
  have inv: "broker_inv (HandleAck \<pi> ch env w1)" by (rule broker_inv_HandleAck [OF assms(4,2)])
  have c: "(w_c w)(c := w_c w c) = w_c w" by simp
  show "emailSetup (HandleAck \<pi> ch env w1) ch c q dq"
  proof (rule emailSetup_frame [OF assms(1) inv])
  qed (use assms(3) H(3) in \<open>simp_all add: e afterTake_def\<close>)
qed

lemma isBound_cong:
  assumes "w_exchanges w' = w_exchanges w" "w_e w' = w_e w" "\<And>r. q_name (w_q w' r) = q_name (w_q w r)"
  shows "isBound w' ex rk r = isBound w ex rk r"
  using assms by (simp add: isBound_def boundMap_def cong: option.case_cong)

lemma Publish_frame:
  assumes "gm_get (w_exchanges w) ex = Some e"
  shows "w_c (snd (Publish \<pi> ex rk b w)) = w_c w" "w_ch (snd (Publish \<pi> ex rk b w)) = w_ch w"
    "w_nch (snd (Publish \<pi> ex rk b w)) = w_nch w" "w_nq (snd (Publish \<pi> ex rk b w)) = w_nq w"
    "w_cn (snd (Publish \<pi> ex rk b w)) = w_cn w" "w_e (snd (Publish \<pi> ex rk b w)) = w_e w"
    "w_exchanges (snd (Publish \<pi> ex rk b w)) = w_exchanges w"
    "q_name (w_q (snd (Publish \<pi> ex rk b w)) r) = q_name (w_q w r)"
  using assms by (simp_all add: Publish_def Let_def)

lemma round_nack:
  assumes "emailSetup w ch c q dq" "orders_ok \<pi>" "afterTake q c m w w1" "broker_inv w1" "nackEnv env (m_DeliveryTag m) (Some False)"
  shows "emailSetup (HandleNack \<pi> ch env w1) ch c q dq" "w_q (HandleNack \<pi> ch env w1) q = w_q w1 q"
    "w_q (HandleNack \<pi> ch env w1) dq = (w_q w1 dq)\<lparr>q_nextTag := q_nextTag (w_q w1 dq) + 1,
       q_messages := q_messages (w_q w1 dq) @ [newMessage ''dlx'' ''dead_emails'' (m_Body m) (w_q w1 dq)]\<rparr>"
proof -
  note S = emailSetupD [OF assms(1)] and H = holds_after [OF assms(1,3,4)]
  let ?n = "q_name (w_q w1 q)" and ?M = "w_metrics w1"
  let ?w = "(upd_c c (releaseMessage (m_DeliveryTag m)) w1)\<lparr>w_metrics :=
      ?M\<lparr>mt_Nacked := (mt_Nacked ?M)(?n := inc False (mt_Nacked ?M ?n)), mt_DeadLettered := inc ?n (mt_DeadLettered ?M)\<rparr>\<rparr>"
  have dl: "q_dlx (w_q w1 q) = ''dlx''" "q_dlxRoutingKey (w_q w1 q) = ''dead_emails''"
    using S(10) assms(3) by (simp_all add: deadLetterTo_def afterTake_def)
  have bound: "isBound ?w ex rk r = isBound w ex rk r" for ex rk r
    using assms(3) by (intro isBound_cong) (simp_all add: afterTake_def)
  have "isBound ?w ''dlx'' ''dead_emails'' dq" using S(10) bound by (simp add: deadLetterTo_def)
  then obtain e where e: "gm_get (w_exchanges ?w) ''dlx'' = Some e" by (auto simp: isBound_def split: option.splits)
  have m: "gm_get (c_pendingMessages (w_c w1 c)) (m_DeliveryTag m) = Some m" using H(1) by (simp add: holder_def)
  have inv: "broker_inv ?w"
    by (rule broker_inv_settle [OF assms(4) holder_valid(3,2) [OF assms(4) H(4,1)] m])
      (simp_all add: H(2) settled_def fun_eq_iff)
  have eq: "HandleNack \<pi> ch env w1 = snd (Publish \<pi> ''dlx'' ''dead_emails'' (m_Body m) ?w)"
    using HandleNack_holder [OF assms(4,2) H(4,1) assms(5)] by (simp add: nackMessage_def Let_def H(2) dl)
  note F = Publish_frame [OF e, of \<pi> "''dead_emails''" "m_Body m", folded eq] and P = Publish_queue [OF inv assms(2) e, folded eq]
  have nq: "w_nq ?w = w_nq w" using assms(3) by (simp add: afterTake_def)
  show q: "w_q (HandleNack \<pi> ch env w1) q = w_q w1 q"
    using Publish_queue [OF inv assms(2) e, of q "''dead_emails''" "m_Body m"] S(3,10) bound nq
    by (simp add: eq deadLetterTo_def)
  show "w_q (HandleNack \<pi> ch env w1) dq = (w_q w1 dq)\<lparr>q_nextTag := q_nextTag (w_q w1 dq) + 1,
       q_messages := q_messages (w_q w1 dq) @ [newMessage ''dlx'' ''dead_emails'' (m_Body m) (w_q w1 dq)]\<rparr>"
    using Publish_queue [OF inv assms(2) e, of dq "''dead_emails''" "m_Body m"] S(4,10) bound nq
    by (simp add: eq deadLetterTo_def)
  have inv': "broker_inv (HandleNack \<pi> ch env w1)" unfolding eq by (rule broker_inv_ops(1) [OF inv assms(2)])
  show "emailSetup (HandleNack \<pi> ch env w1) ch c q dq"
  proof (rule emailSetup_frame [OF assms(1) inv'])
    show "q_consumers (w_q (HandleNack \<pi> ch env w1) q) = q_consumers (w_q w q)"
      "q_dlx (w_q (HandleNack \<pi> ch env w1) q) = q_dlx (w_q w q)"
      "q_dlxRoutingKey (w_q (HandleNack \<pi> ch env w1) q) = q_dlxRoutingKey (w_q w q)"
      using assms(3) by (simp_all add: q afterTake_def)
  qed (use assms(3) H(3) in \<open>simp_all add: F afterTake_def\<close>)
qed

lemma round:
  assumes "emailSetup w ch c q dq" "orders_ok \<pi>" "speaks \<pi> ch sdk" "q_messages (w_q w q) = m # rest" "q \<noteq> dq"
  shows "\<exists>w'. workerRounds \<pi> q (turnB sdk) (Suc n) w = workerRounds \<pi> q (turnB sdk) n w' \<and> emailSetup w' ch c q dq \<and>
    q_messages (w_q w' q) = rest \<and>
    q_messages (w_q w' dq) = q_messages (w_q w dq) @ deadLetters (q_nextTag (w_q w dq)) (if third m then [m] else []) \<and>
    q_nextTag (w_q w' dq) = q_nextTag (w_q w dq) + (if third m then 1 else 0)"
proof -
  obtain w1 where D: "dispatchOnce \<pi> q w = (Delivers c m, w1)" "broker_inv w1" "afterTake q c m w w1"
    by (rule round_dispatch [OF assms(1,2,4)])
  have q1: "w_q w1 = (w_q w)(q := (w_q w q)\<lparr>q_messages := rest\<rparr>)" using D(3) assms(4) by (simp add: afterTake_def)
  let ?w' = "snd (turnB sdk (delivery (w_c w1 c) m) w1)"
  have step: "workerRounds \<pi> q (turnB sdk) (Suc n) w = workerRounds \<pi> q (turnB sdk) n ?w'" by (simp add: D(1))
  show ?thesis
  proof (cases "third m")
    case True
    then have "?w' = snd (sdk (SdkNack (m_DeliveryTag m) False) w1)" by (simp add: turnB_answer delivery_eq third_def)
    then obtain env where env: "nackEnv env (m_DeliveryTag m) (Some False)" "?w' = HandleNack \<pi> ch env w1"
      using speaks_answers(2) [OF assms(3)] by metis
    note N = round_nack [OF assms(1,2) D(3,2) env(1)]
    show ?thesis
      by (intro exI [of _ ?w'] conjI step) (use N True q1 assms(5) in \<open>simp_all add: env(2) newMessage_def\<close>)
  next
    case False
    then have "?w' = snd (sdk (SdkAck (m_DeliveryTag m)) w1)" by (simp add: turnB_answer delivery_eq third_def)
    then obtain env where env: "ackEnv env (m_DeliveryTag m)" "?w' = HandleAck \<pi> ch env w1"
      using speaks_answers(1) [OF assms(3)] by metis
    note A = round_ack [OF assms(1,2) D(3,2) env(1)]
    show ?thesis by (intro exI [of _ ?w'] conjI step) (use A False q1 assms(5) in \<open>simp_all add: env(2)\<close>)
  qed
qed

text \<open>
  C15. The examples do what the README says: every third message goes to the dead-letter queue. When a worker of the consumer program
  answers the deliveries of \<^verbatim>\<open>email_queue\<close> through an SDK that sends what it is asked to send, then after as many
  deliveries as messages waited the queue is empty, and the messages whose tag is a multiple of three, and only
  those, were appended to \<^verbatim>\<open>dlq\<close>, in order, with the body they were published with and tags of that queue.
\<close>

theorem every_third_dead_lettered:
  assumes "emailSetup w ch c q dq" "orders_ok \<pi>" "speaks \<pi> ch sdk" "q \<noteq> dq" "ms = q_messages (w_q w q)"
    and "w' = workerRounds \<pi> q (turnB sdk) (length ms) w"
  shows "q_messages (w_q w' q) = [] \<and>
    q_messages (w_q w' dq) = q_messages (w_q w dq) @ deadLetters (q_nextTag (w_q w dq)) (filter third ms) \<and>
    emailSetup w' ch c q dq"
  using assms(1,5,6)
proof (induction ms arbitrary: w)
  case (Cons m ms)
  from round [OF Cons.prems(1) assms(2,3) _ assms(4), of m ms "length ms"] Cons.prems(2) obtain w1 where
    1: "workerRounds \<pi> q (turnB sdk) (Suc (length ms)) w = workerRounds \<pi> q (turnB sdk) (length ms) w1"
      "emailSetup w1 ch c q dq" "q_messages (w_q w1 q) = ms"
      "q_messages (w_q w1 dq) = q_messages (w_q w dq) @ deadLetters (q_nextTag (w_q w dq)) (if third m then [m] else [])"
      "q_nextTag (w_q w1 dq) = q_nextTag (w_q w dq) + (if third m then 1 else 0)" by auto
  have "w' = workerRounds \<pi> q (turnB sdk) (length ms) w1" using Cons.prems(3) 1(1) by simp
  from Cons.IH [OF 1(2) _ this] 1 show ?case by simp
qed simp

section \<open>The two programs against a server\<close>

text \<open>The requests of the calls, sent by a client that has opened channel 1.\<close>

fun requestOf :: "sdkCall \<Rightarrow> Envelope list" where
  "requestOf (SdkConnect addr cfg) = []"
| "requestOf SdkOpenChannel = [openReq]"
| "requestOf (SdkDeclareExchange ex) = [exchangeReq ex]"
| "requestOf (SdkDeclareQueue queue dlx rk) = [frame 1 QueueDeclareType (marshal_QueueDeclare
     \<lparr>qd_Name = queue, qd_DeadLetterExchange = dlx, qd_DeadLetterRoutingKey = rk\<rparr>)]"
| "requestOf (SdkBindQueue queue ex rk) = [bindReq queue ex rk]"
| "requestOf (SdkPublish p) = [frame 1 BasicPublishType (marshal_Publish p)]"
| "requestOf (SdkConsume queue) = [consumeReq queue []]"
| "requestOf (SdkAck t) = [ackReq t]"
| "requestOf (SdkNack t rq) = [nackReq t (Some rq)]"

text \<open>An SDK that records the requests, and one that hands them to channel 0 of a server.\<close>

definition recordSdk :: "Envelope list sdk" where
  "recordSdk call sent = (None, sent @ requestOf call)"

definition channelSdk :: "world sdk" where
  "channelSdk call w = (None, fold (route id_orders 0) (requestOf call) w)"

lemma speaks_channelSdk: "speaks id_orders 0 channelSdk"
proof -
  have "ackEnv (ackReq t) t" "nackEnv (nackReq t (Some rq)) t (Some rq)" for t rq
    by (simp_all add: ackEnv_def nackEnv_def ackReq_def nackReq_def ack.decode_marshal nack.decode_marshal)
  moreover have "snd (channelSdk (SdkAck t) w) = HandleAck id_orders 0 (ackReq t) w"
    "snd (channelSdk (SdkNack t rq) w) = HandleNack id_orders 0 (nackReq t (Some rq)) w" for t rq w
    by (simp_all add: channelSdk_def route_def ackReq_def nackReq_def method_defs)
  ultimately show ?thesis unfolding speaks_def by blast
qed

definition exampleRequests :: "Envelope list" where
  "exampleRequests = snd (publisherMain recordSdk []) @ requestOf (SdkConsume ''email_queue'')"

definition exampleWorld :: world where
  "exampleWorld = client exampleRequests (NewServer demo_config)"

definition email :: "nat \<Rightarrow> Message" where
  "email i = \<lparr>m_DeliveryTag = of_nat i + 1, m_Body = messageBody i, m_Exchange = ''emails'', m_RoutingKey = ''email.sent''\<rparr>"

lemma exampleRequests_eq:
  "exampleRequests = concat (map (requestOf \<circ> snd) publisherSetup) @
     concat (map (requestOf \<circ> SdkPublish \<circ> emailMessage) [0, 1, 2]) @ [consumeReq ''email_queue'' []]"
  by (simp add: exampleRequests_def publisherMain_def publisherSetup_def recordSdk_def)

lemma broker_inv_example: "broker_inv exampleWorld"
proof -
  have "server_reachable (NewServer demo_config)" by (rule reachable.intros) (auto simp: server_start_def)
  then have "server_reachable exampleWorld"
    unfolding exampleWorld_def by (rule reachable_client) (simp add: exampleRequests_eq publisherSetup_def request_defs)
  then show ?thesis by (rule server.inv_reachable)
qed

lemmas example_defs = exampleWorld_def client_def exampleRequests_eq publisherSetup_def emailMessage_def start_defs run_defs

definition exampleTag :: string where
  "exampleTag = ''ch.'' @ formatUint 10 1 @ ''.consumer.'' @ formatUint 10 1"

definition afterExample :: "(connref \<Rightarrow> Connection) \<Rightarrow> Metrics \<Rightarrow> world" where
  "afterExample net M =
     \<lparr>w_q = (\<lambda>_. zeroQueue)
        (0 := \<lparr>q_name = ''dlq'', q_messages = [], q_consumers = [], q_nextTag = 1, q_dlx = [], q_dlxRoutingKey = []\<rparr>,
         1 := \<lparr>q_name = ''email_queue'', q_messages = [email 0, email 1, email 2], q_consumers = [(0, ())],
               q_nextTag = 4, q_dlx = ''dlx'', q_dlxRoutingKey = ''dead_emails''\<rparr>),
      w_nq = 2,
      w_e = (\<lambda>_. \<lparr>e_name = [], e_bindings = []\<rparr>)
        (0 := \<lparr>e_name = ''dlx'', e_bindings = [(''dead_emails'', [(''dlq'', 0)])]\<rparr>,
         1 := \<lparr>e_name = ''emails'', e_bindings = [(''email.sent'', [(''email_queue'', 1)])]\<rparr>),
      w_ne = 2,
      w_c = (\<lambda>_. zeroConsumer)(0 := \<lparr>c_tag = exampleTag, c_queue = 1, c_channel = 0, c_prefetch = 10,
              c_inflight = 0, c_inflightTags = [], c_pendingMessages = []\<rparr>),
      w_nc = 1,
      w_ch = (\<lambda>_. \<lparr>ch_id = 0, ch_conn = 0, ch_consumers = []\<rparr>)(0 := \<lparr>ch_id = 1, ch_conn = 0, ch_consumers = [(exampleTag, 0)]\<rparr>),
      w_nch = 1,
      w_cn = net,
      w_ncn = 1, w_queues = [(''dlq'', 0), (''email_queue'', 1)], w_exchanges = [(''dlx'', 0), (''emails'', 1)],
      w_metrics = M, w_connections = [(0, ())], w_config = demo_config\<rparr>"

lemma exampleWorld_eq: "\<exists>net M. exampleWorld = afterExample net M \<and> \<not> cn_closed (net 0) \<and> cn_netok (net 0)"
  by (simp add: example_defs afterExample_def exampleTag_def email_def)

lemma example_setup: "emailSetup exampleWorld 0 0 1 0"
proof -
  obtain net M where e: "exampleWorld = afterExample net M" and net: "\<not> cn_closed (net 0)" "cn_netok (net 0)" using exampleWorld_eq by blast
  show ?thesis using broker_inv_example net unfolding e
    by (simp add: emailSetup_def deadLetterTo_def afterExample_def hasRoom_def writable_def isBound_def boundMap_def)
qed

lemma example_queues:
  "[email 0, email 1, email 2] = q_messages (w_q exampleWorld 1)" "q_messages (w_q exampleWorld 0) = []"
  "q_nextTag (w_q exampleWorld 0) = 1"
proof -
  obtain net M where e: "exampleWorld = afterExample net M" and net: "\<not> cn_closed (net 0)" "cn_netok (net 0)" using exampleWorld_eq by blast
  show "[email 0, email 1, email 2] = q_messages (w_q exampleWorld 1)" "q_messages (w_q exampleWorld 0) = []"
    "q_nextTag (w_q exampleWorld 0) = 1" unfolding e by (simp_all add: afterExample_def)
qed

theorem every_third_dead_lettered_witness:
  "q_messages (w_q (workerRounds id_orders 1 (turnB channelSdk) 3 exampleWorld) 0) =
     [\<lparr>m_DeliveryTag = 1, m_Body = messageBody 2, m_Exchange = ''dlx'', m_RoutingKey = ''dead_emails''\<rparr>] \<and>
   q_messages (w_q (workerRounds id_orders 1 (turnB channelSdk) 3 exampleWorld) 1) = []"
proof -
  let ?ms = "[email 0, email 1, email 2]"
  have "third (email 2)" "\<not> third (email 0)" "\<not> third (email 1)" by (simp_all add: third_def email_def)
  then have f: "filter third ?ms = [email 2]" by simp
  have l: "length ?ms = 3" and d: "deadLetters 1 [email 2] =
      [\<lparr>m_DeliveryTag = 1, m_Body = messageBody 2, m_Exchange = ''dlx'', m_RoutingKey = ''dead_emails''\<rparr>]"
    by (simp_all add: email_def)
  have "(1 :: qref) \<noteq> 0" by simp
  from every_third_dead_lettered [OF example_setup orders_ok_id speaks_channelSdk this example_queues(1) refl]
  show ?thesis unfolding f l d [symmetric] example_queues(2,3) append_Nil by blast
qed

end
