(* ===== verification/QueueConcurrency.thy ===== *)
theory QueueConcurrency
  imports QueueOps
begin

text \<open>
  One queue at the granularity of its locks: \<^verbatim>\<open>broker/queue.go\<close> with the critical sections of
  \<^verbatim>\<open>Broker.Ack\<close> and \<^verbatim>\<open>Channel.HandleNack\<close>.

  The other theories take a handler as one step. Here a step is one critical section: what a goroutine does
  between taking \<^verbatim>\<open>q.mu\<close> and releasing it, or what it does under a consumer's \<^verbatim>\<open>c.mu\<close> alone.
  \<open>dispatchPc\<close> is where the dispatch goroutine stands; it keeps \<^verbatim>\<open>q.mu\<close> while it looks for a consumer, and
  \<^verbatim>\<open>c.mu\<close> sections of nacks run in between. What a handler still has to do after its section
  (take \<^verbatim>\<open>q.mu\<close> to put a nacked message back, signal the condition variable) is a pending task in
  \<open>qs_tasks\<close>. Only the dispatcher waits on the condition variable, so a signal wakes it if it waits and is
  lost otherwise.
\<close>

section \<open>The state and its steps\<close>

datatype dispatchPc =
    Top
  | WaitEmpty
  | Scanning "cref list"
  | WaitRoom
  | Chosen cref
  | Sending cref Message
  | SendFailed cref Message

datatype task = PutFront Message | SignalCond

record qstate =
  qs_queue :: Queue
  qs_cons :: "cref \<Rightarrow> Consumer option"
  qs_pc :: dispatchPc
  qs_tasks :: "task list"

datatype critical =
    Enqueue Message
  | Register cref string qref chref Channel
  | Unregister cref "Message list"
  | AckTag cref u16
  | NackTag cref u16 bool
  | RunTask task
  | Look "cref list"
  | Scan
  | Take
  | WriteDone bool
  | Reenqueue

definition qStart :: "string \<Rightarrow> string \<Rightarrow> string \<Rightarrow> qstate" where
  "qStart name dlx rk =
     \<lparr>qs_queue = NewQueue name dlx rk, qs_cons = (\<lambda>_. None), qs_pc = Top, qs_tasks = []\<rparr>"

text \<open>The dispatcher holds \<^verbatim>\<open>q.mu\<close> across other goroutines' steps only while it looks for a consumer.\<close>

fun holdsLock :: "dispatchPc \<Rightarrow> bool" where
  "holdsLock (Scanning cs) = True"
| "holdsLock (Chosen c) = True"
| "holdsLock pc = False"

fun wake :: "dispatchPc \<Rightarrow> dispatchPc" where
  "wake WaitEmpty = Top"
| "wake WaitRoom = Top"
| "wake pc = pc"

definition registered :: "qstate \<Rightarrow> cref list" where
  "registered s = gm_keys (q_consumers (qs_queue s))"

definition addTask :: "task \<Rightarrow> qstate \<Rightarrow> qstate" where
  "addTask t s = s\<lparr>qs_tasks := qs_tasks s @ [t]\<rparr>"

definition setCons :: "cref \<Rightarrow> Consumer \<Rightarrow> qstate \<Rightarrow> qstate" where
  "setCons c C s = s\<lparr>qs_cons := (qs_cons s)(c := Some C)\<rparr>"

definition updQueue :: "(Queue \<Rightarrow> Queue) \<Rightarrow> qstate \<Rightarrow> qstate" where
  "updQueue f s = s\<lparr>qs_queue := f (qs_queue s)\<rparr>"

text \<open>
  The sections of the handlers. Each returns \<open>None\<close> where it cannot run or has nothing to do. A consumer is
  registered once, as \<^verbatim>\<open>NewConsumer\<close> returned it.
\<close>

definition secEnqueue :: "Message \<Rightarrow> qstate \<Rightarrow> qstate option" where
  "secEnqueue msg s =
     (if holdsLock (qs_pc s) then None
      else Some (addTask SignalCond (updQueue (\<lambda>Q. Q\<lparr>q_messages := q_messages Q @ [msg]\<rparr>) s)))"

definition secRegister :: "cref \<Rightarrow> Consumer \<Rightarrow> qstate \<Rightarrow> qstate option" where
  "secRegister c C s =
     (if holdsLock (qs_pc s) \<or> qs_cons s c \<noteq> None \<or> c \<in> set (registered s) then None
      else Some (addTask SignalCond
             (updQueue (\<lambda>Q. Q\<lparr>q_consumers := gm_put c () (q_consumers Q)\<rparr>) (setCons c C s))))"

definition secUnregister :: "cref \<Rightarrow> Message list \<Rightarrow> qstate \<Rightarrow> qstate option" where
  "secUnregister c msgs s =
     (case qs_cons s c of
        None \<Rightarrow> None
      | Some C \<Rightarrow>
          if holdsLock (qs_pc s) \<or> c \<notin> set (registered s) \<or>
             mset msgs \<noteq> mset (map snd (c_pendingMessages C)) then None
          else case fold returnPending msgs
                      ((qs_queue s)\<lparr>q_consumers := gm_del c (q_consumers (qs_queue s))\<rparr>, C) of
                 (Q, C') \<Rightarrow> Some (addTask SignalCond (updQueue (\<lambda>_. Q) (setCons c (C'\<lparr>c_pendingMessages := []\<rparr>) s))))"

definition secAck :: "cref \<Rightarrow> u16 \<Rightarrow> qstate \<Rightarrow> qstate option" where
  "secAck c tag s =
     (case qs_cons s c of
        None \<Rightarrow> None
      | Some C \<Rightarrow>
          if holdsLock (qs_pc s) \<or> c \<notin> set (registered s) \<or> \<not> gm_has tag (c_inflightTags C) then None
          else Some (addTask SignalCond (setCons c (releaseMessage tag C) s)))"

text \<open>
  A nack releases the message under \<^verbatim>\<open>c.mu\<close>. With requeue it then takes \<^verbatim>\<open>q.mu\<close> and signals;
  without, it only signals (dead-lettering enqueues through \<^verbatim>\<open>Publish\<close>, a section of its own).
\<close>

definition secNack :: "cref \<Rightarrow> u16 \<Rightarrow> bool \<Rightarrow> qstate \<Rightarrow> qstate option" where
  "secNack c tag requeue s =
     (case qs_cons s c of
        None \<Rightarrow> None
      | Some C \<Rightarrow>
          (case gm_get (c_pendingMessages C) tag of
             None \<Rightarrow> None
           | Some msg \<Rightarrow>
               Some (addTask (if requeue then PutFront msg else SignalCond) (setCons c (releaseMessage tag C) s))))"

definition runTask :: "task \<Rightarrow> qstate \<Rightarrow> qstate option" where
  "runTask t s =
     (if t \<notin> set (qs_tasks s) then None
      else let s' = s\<lparr>qs_tasks := remove1 t (qs_tasks s)\<rparr> in
        case t of
          SignalCond \<Rightarrow> Some (s'\<lparr>qs_pc := wake (qs_pc s)\<rparr>)
        | PutFront msg \<Rightarrow>
            if holdsLock (qs_pc s) then None else Some (addTask SignalCond (updQueue (pushFront msg) s')))"

text \<open>The sections of the dispatcher, in the order of its loop.\<close>

definition dispLook :: "cref list \<Rightarrow> qstate \<Rightarrow> qstate option" where
  "dispLook order s =
     (if qs_pc s \<noteq> Top then None
      else if q_messages (qs_queue s) = [] then Some (s\<lparr>qs_pc := WaitEmpty\<rparr>)
      else if mset order = mset (registered s) then Some (s\<lparr>qs_pc := Scanning order\<rparr>) else None)"

definition dispScan :: "qstate \<Rightarrow> qstate option" where
  "dispScan s =
     (case qs_pc s of
        Scanning [] \<Rightarrow> Some (s\<lparr>qs_pc := WaitRoom\<rparr>)
      | Scanning (c # cs) \<Rightarrow>
          (case qs_cons s c of
             None \<Rightarrow> None
           | Some C \<Rightarrow> Some (s\<lparr>qs_pc := (if hasRoom C then Chosen c else Scanning cs)\<rparr>))
      | _ \<Rightarrow> None)"

definition dispTake :: "qstate \<Rightarrow> qstate option" where
  "dispTake s =
     (case (qs_pc s, q_messages (qs_queue s)) of
        (Chosen c, msg # rest) \<Rightarrow>
          (case qs_cons s c of
             None \<Rightarrow> None
           | Some C \<Rightarrow>
               Some ((updQueue (\<lambda>Q. Q\<lparr>q_messages := rest\<rparr>) (setCons c (holdMessage msg C) s))
                       \<lparr>qs_pc := Sending c msg\<rparr>))
      | _ \<Rightarrow> None)"

definition dispWritten :: "bool \<Rightarrow> qstate \<Rightarrow> qstate option" where
  "dispWritten ok s =
     (case qs_pc s of
        Sending c msg \<Rightarrow> Some (s\<lparr>qs_pc := (if ok then Top else SendFailed c msg)\<rparr>)
      | _ \<Rightarrow> None)"

definition dispReenqueue :: "qstate \<Rightarrow> qstate option" where
  "dispReenqueue s =
     (case qs_pc s of
        SendFailed c msg \<Rightarrow>
          (case qs_cons s c of
             None \<Rightarrow> None
           | Some C \<Rightarrow>
               Some ((updQueue (pushFront msg) (setCons c (releaseMessage (m_DeliveryTag msg) C) s))\<lparr>qs_pc := Top\<rparr>))
      | _ \<Rightarrow> None)"

fun qstep :: "critical \<Rightarrow> qstate \<Rightarrow> qstate option" where
  "qstep (Enqueue msg) s = secEnqueue msg s"
| "qstep (Register c tag q ch chan) s = secRegister c (NewConsumer tag q ch chan) s"
| "qstep (Unregister c msgs) s = secUnregister c msgs s"
| "qstep (AckTag c tag) s = secAck c tag s"
| "qstep (NackTag c tag requeue) s = secNack c tag requeue s"
| "qstep (RunTask t) s = runTask t s"
| "qstep (Look order) s = dispLook order s"
| "qstep Scan s = dispScan s"
| "qstep Take s = dispTake s"
| "qstep (WriteDone ok) s = dispWritten ok s"
| "qstep Reenqueue s = dispReenqueue s"

fun runSections :: "critical list \<Rightarrow> qstate \<Rightarrow> qstate option" where
  "runSections [] s = Some s"
| "runSections (a # as) s = (case qstep a s of None \<Rightarrow> None | Some s' \<Rightarrow> runSections as s')"

lemmas section_defs = secEnqueue_def secRegister_def secUnregister_def secAck_def secNack_def runTask_def
  dispLook_def dispScan_def dispTake_def dispWritten_def dispReenqueue_def

lemmas state_defs = addTask_def setCons_def updQueue_def registered_def

lemma runSections_append:
  "runSections (as @ bs) s = (case runSections as s of None \<Rightarrow> None | Some s' \<Rightarrow> runSections bs s')"
  by (induction as arbitrary: s) (auto split: option.split)

section \<open>Sleeping\<close>

text \<open>A nack that does not put its message back changes a consumer's room without \<^verbatim>\<open>q.mu\<close>.\<close>

fun discards :: "critical \<Rightarrow> bool" where
  "discards (NackTag c tag requeue) = (\<not> requeue)"
| "discards a = False"

definition roomy :: "qstate \<Rightarrow> cref set" where
  "roomy s = {c \<in> set (registered s). \<exists>C. qs_cons s c = Some C \<and> hasRoom C}"

definition requeueing :: "qstate \<Rightarrow> bool" where
  "requeueing s \<longleftrightarrow> (\<exists>msg. PutFront msg \<in> set (qs_tasks s))"

fun wake_inv :: "dispatchPc \<Rightarrow> qstate \<Rightarrow> bool" where
  "wake_inv WaitEmpty s = (q_messages (qs_queue s) = [] \<or> SignalCond \<in> set (qs_tasks s))"
| "wake_inv (Scanning cs) s = (roomy s \<subseteq> set cs \<or> requeueing s)"
| "wake_inv WaitRoom s = (roomy s = {} \<or> requeueing s \<or> SignalCond \<in> set (qs_tasks s))"
| "wake_inv pc s = True"

lemma wake_inv_signalled: "SignalCond \<in> set (qs_tasks s) \<Longrightarrow> \<not> holdsLock pc \<Longrightarrow> wake_inv pc s"
  by (cases pc) auto

lemma wake_inv_sections:
  "secEnqueue msg s = Some s' \<Longrightarrow> wake_inv (qs_pc s') s'"
  "secRegister c C s = Some s' \<Longrightarrow> wake_inv (qs_pc s') s'"
  "secUnregister c msgs s = Some s' \<Longrightarrow> wake_inv (qs_pc s') s'"
  "secAck c tag s = Some s' \<Longrightarrow> wake_inv (qs_pc s') s'"
  by (auto simp: section_defs addTask_def setCons_def updQueue_def intro!: wake_inv_signalled
      split: if_splits option.splits prod.splits)

lemma wake_inv_nack: "wake_inv (qs_pc s) s \<Longrightarrow> secNack c tag True s = Some s' \<Longrightarrow> wake_inv (qs_pc s') s'"
  by (cases "qs_pc s") (auto simp: secNack_def state_defs requeueing_def split: option.splits)

lemma wake_inv_runTask: "wake_inv (qs_pc s) s \<Longrightarrow> runTask t s = Some s' \<Longrightarrow> wake_inv (qs_pc s') s'"
proof (cases t)
  case (PutFront msg)
  then show "runTask t s = Some s' \<Longrightarrow> ?thesis"
    by (auto simp: runTask_def addTask_def updQueue_def intro!: wake_inv_signalled split: if_splits)
next
  case SignalCond
  then show "wake_inv (qs_pc s) s \<Longrightarrow> runTask t s = Some s' \<Longrightarrow> ?thesis"
    by (cases "qs_pc s") (auto simp: runTask_def roomy_def requeueing_def registered_def split: if_splits)
qed

lemma roomy_pc [simp]: "roomy (s\<lparr>qs_pc := pc\<rparr>) = roomy s" "requeueing (s\<lparr>qs_pc := pc\<rparr>) = requeueing s"
  by (simp_all add: roomy_def requeueing_def registered_def)

lemma roomy_full:
  assumes "qs_cons s c = Some C" "\<not> hasRoom C" "roomy s \<subseteq> insert c A"
  shows "roomy s \<subseteq> A"
proof -
  have "c \<notin> roomy s" using assms(1,2) by (simp add: roomy_def)
  with assms(3) show ?thesis by blast
qed

lemma wake_inv_dispatch:
  "dispLook order s = Some s' \<Longrightarrow> wake_inv (qs_pc s') s'"
  "wake_inv (qs_pc s) s \<Longrightarrow> dispScan s = Some s' \<Longrightarrow> wake_inv (qs_pc s') s'"
  "dispTake s = Some s' \<Longrightarrow> wake_inv (qs_pc s') s'"
  "dispWritten ok s = Some s' \<Longrightarrow> wake_inv (qs_pc s') s'"
  "dispReenqueue s = Some s' \<Longrightarrow> wake_inv (qs_pc s') s'"
  subgoal by (auto simp: dispLook_def roomy_def registered_def split: if_splits dest!: mset_eq_setD)
  subgoal by (auto simp: dispScan_def dest: roomy_full split: dispatchPc.splits list.splits option.splits if_splits)
  by (auto simp: section_defs split: dispatchPc.splits list.splits option.splits if_splits)

lemma wake_inv_qstep:
  assumes "wake_inv (qs_pc s) s" "\<not> discards a" "qstep a s = Some s'"
  shows "wake_inv (qs_pc s') s'"
  using assms by (cases a) (auto dest: wake_inv_sections wake_inv_nack wake_inv_runTask wake_inv_dispatch)

interpretation sleeping: transition_system "\<lambda>s. \<exists>name dlx rk. s = qStart name dlx rk"
  "\<lambda>s s'. \<exists>a. \<not> discards a \<and> qstep a s = Some s'" "\<lambda>s. wake_inv (qs_pc s) s"
  by unfold_locales (auto simp: qStart_def intro: wake_inv_qstep)

lemma reachable_run:
  assumes "reachable start (\<lambda>s s'. \<exists>a. P a \<and> qstep a s = Some s') s" "\<forall>a \<in> set as. P a" "runSections as s = Some s'"
  shows "reachable start (\<lambda>s s'. \<exists>a. P a \<and> qstep a s = Some s') s'"
  using assms
proof (induction as arbitrary: s)
  case (Cons a as)
  from Cons.prems obtain s1 where 1: "qstep a s = Some s1" "runSections as s1 = Some s'"
    by (auto split: option.splits)
  have "reachable start (\<lambda>s s'. \<exists>a. P a \<and> qstep a s = Some s') s1"
    using Cons.prems 1 by (intro reach_step [OF Cons.prems(1)]) auto
  from Cons.IH [OF this _ 1(2)] Cons.prems show ?case by simp
qed simp

text \<open>
  C5. The dispatcher sleeps only when there is nothing to do. However the critical sections of publishers,
  consumers, acks and requeueing nacks interleave with it, once the handlers have run to their end the
  dispatcher waits only on an empty buffer, or with every registered consumer at its prefetch limit.
\<close>

theorem sleeps_only_when_idle:
  assumes "runSections as (qStart name dlx rk) = Some s" "\<forall>a \<in> set as. \<not> discards a" "qs_tasks s = []"
  shows "(qs_pc s = WaitEmpty \<longrightarrow> q_messages (qs_queue s) = []) \<and>
         (qs_pc s = WaitRoom \<longrightarrow> (\<forall>c \<in> set (registered s). \<forall>C. qs_cons s c = Some C \<longrightarrow> \<not> hasRoom C))"
proof -
  have "wake_inv (qs_pc s) s"
    by (rule sleeping.inv_reachable, rule reachable_run [OF _ assms(2,1)]) (auto intro: reach_start)
  with assms(3) show ?thesis by (auto simp: roomy_def requeueing_def)
qed

definition smallMsg :: "u16 \<Rightarrow> Message" where
  "smallMsg tag = \<lparr>m_DeliveryTag = tag, m_Body = [], m_Exchange = ''e'', m_RoutingKey = ''k''\<rparr>"

definition smallChan :: Channel where
  "smallChan = \<lparr>ch_id = 1, ch_conn = 0, ch_consumers = []\<rparr>"

text \<open>A delivery to consumer 0, the only one registered.\<close>

definition deliverOne :: "critical list" where
  "deliverOne = [Look [0], Scan, Take, WriteDone True]"

definition oneConsumer :: "critical list" where
  "oneConsumer = [Register 0 ''c'' 0 0 smallChan, RunTask SignalCond]"

definition publishes :: "u16 list \<Rightarrow> critical list" where
  "publishes tags = concat (map (\<lambda>tag. [Enqueue (smallMsg tag), RunTask SignalCond]) tags)"

lemmas trace_defs = publishes_def oneConsumer_def deliverOne_def smallMsg_def smallChan_def qStart_def NewQueue_def
  section_defs state_defs NewConsumer_def holdMessage_def releaseMessage_def returnPending_def pushFront_def
  hasRoom_def gm_has_def

theorem sleeps_only_when_idle_witness:
  "\<exists>s. runSections (oneConsumer @ publishes [1] @ deliverOne @ [Look []]) (qStart ''q'' [] []) = Some s \<and>
     qs_pc s = WaitEmpty \<and> qs_tasks s = [] \<and> q_messages (qs_queue s) = []"
proof -
  let ?as = "oneConsumer @ publishes [1] @ deliverOne @ [Look []]"
  have "\<exists>s. runSections ?as (qStart ''q'' [] []) = Some s \<and> qs_pc s = WaitEmpty \<and> qs_tasks s = []"
    by (simp add: trace_defs)
  then obtain s where s: "runSections ?as (qStart ''q'' [] []) = Some s" "qs_pc s = WaitEmpty" "qs_tasks s = []" by blast
  moreover have "\<forall>a \<in> set ?as. \<not> discards a" by (simp add: trace_defs)
  ultimately show ?thesis using sleeps_only_when_idle [OF s(1) _ s(3)] by blast
qed

text \<open>
  C24. A nack that discards its message can leave the dispatcher asleep with work to do: its signal falls between the scan
  that found the consumer full and the wait, because it frees the consumer without taking \<^verbatim>\<open>q.mu\<close>. Every
  handler has finished, a message waits and the registered consumer has room, and nothing will wake the dispatcher until
  the next publish, ack or registration.
\<close>

theorem discarding_nack_loses_wakeup:
  "\<exists>as s C. runSections as (qStart ''q'' [] []) = Some s \<and> qs_tasks s = [] \<and> qs_pc s = WaitRoom \<and>
     q_messages (qs_queue s) \<noteq> [] \<and> 0 \<in> set (registered s) \<and> qs_cons s 0 = Some C \<and> hasRoom C"
proof -
  let ?as = "oneConsumer @ publishes [1,2,3,4,5,6,7,8,9,10,11] @ concat (map (\<lambda>_. deliverOne) [1,2,3,4,5,6,7,8,9,10::nat]) @
    [Look [0], Scan, NackTag 0 1 False, RunTask SignalCond, Scan]"
  have "\<exists>s C. runSections ?as (qStart ''q'' [] []) = Some s \<and> qs_tasks s = [] \<and> qs_pc s = WaitRoom \<and>
     q_messages (qs_queue s) \<noteq> [] \<and> 0 \<in> set (registered s) \<and> qs_cons s 0 = Some C \<and> hasRoom C"
    by (simp add: trace_defs)
  then show ?thesis by blast
qed

section \<open>Messages between the locks\<close>

definition pendOf :: "qstate \<Rightarrow> cref \<Rightarrow> Message multiset" where
  "pendOf s c = (case qs_cons s c of None \<Rightarrow> {#} | Some C \<Rightarrow> pend C)"

fun frontOf :: "task \<Rightarrow> Message multiset" where
  "frontOf (PutFront msg) = {#msg#}"
| "frontOf SignalCond = {#}"

text \<open>Every message the queue answers for: waiting, held by a registered consumer, or on its way back to the front.\<close>

definition live :: "qstate \<Rightarrow> Message multiset" where
  "live s = mset (q_messages (qs_queue s)) + (\<Sum>c \<in> set (registered s). pendOf s c) +
            sum_list (map frontOf (qs_tasks s))"

definition heldUnder :: "cref \<Rightarrow> u16 \<Rightarrow> qstate \<Rightarrow> Message multiset" where
  "heldUnder c tag s =
     (case qs_cons s c of
        None \<Rightarrow> {#}
      | Some C \<Rightarrow> (case gm_get (c_pendingMessages C) tag of None \<Rightarrow> {#} | Some msg \<Rightarrow> {#msg#}))"

fun enqueuedBy :: "critical \<Rightarrow> Message multiset" where
  "enqueuedBy (Enqueue msg) = {#msg#}"
| "enqueuedBy a = {#}"

fun settledBy :: "critical \<Rightarrow> qstate \<Rightarrow> Message multiset" where
  "settledBy (AckTag c tag) s = heldUnder c tag s"
| "settledBy (NackTag c tag requeue) s = (if requeue then {#} else heldUnder c tag s)"
| "settledBy a s = {#}"

fun settledIn :: "critical list \<Rightarrow> qstate \<Rightarrow> Message multiset" where
  "settledIn [] s = {#}"
| "settledIn (a # as) s = settledBy a s + (case qstep a s of None \<Rightarrow> {#} | Some s' \<Rightarrow> settledIn as s')"

text \<open>
  A run is calm when a failed write always finds its message still with the consumer it was sent to, and no
  tag comes round again while the consumer holds a message under it.
\<close>

fun calm :: "critical \<Rightarrow> qstate \<Rightarrow> bool" where
  "calm Reenqueue s = (case qs_pc s of SendFailed c msg \<Rightarrow> heldUnder c (m_DeliveryTag msg) s = {#msg#} | _ \<Rightarrow> True)"
| "calm Take s =
     (case (qs_pc s, q_messages (qs_queue s)) of
        (Chosen c, msg # _) \<Rightarrow> heldUnder c (m_DeliveryTag msg) s = {#}
      | _ \<Rightarrow> True)"
| "calm a s = True"

fun calmRun :: "critical list \<Rightarrow> qstate \<Rightarrow> bool" where
  "calmRun [] s = True"
| "calmRun (a # as) s = (calm a s \<and> (case qstep a s of None \<Rightarrow> True | Some s' \<Rightarrow> calmRun as s'))"

fun pc_ok :: "dispatchPc \<Rightarrow> qstate \<Rightarrow> bool" where
  "pc_ok (Scanning cs) s = (set cs \<subseteq> set (registered s))"
| "pc_ok (Chosen c) s = (c \<in> roomy s)"
| "pc_ok pc s = True"

definition holders_ok :: "(cref \<Rightarrow> Consumer option) \<Rightarrow> cref set \<Rightarrow> bool" where
  "holders_ok m R \<longleftrightarrow>
     (\<forall>c \<in> R. m c \<noteq> None) \<and>
     (\<forall>c C. m c = Some C \<longrightarrow> consumer_ok C \<and> consumer_exact C \<and> (c \<notin> R \<longrightarrow> c_pendingMessages C = []))"

definition lock_inv :: "qstate \<Rightarrow> bool" where
  "lock_inv s \<longleftrightarrow> holders_ok (qs_cons s) (set (registered s)) \<and> pc_ok (qs_pc s) s"

lemma holders_okD:
  assumes "holders_ok m R" "m c = Some C"
  shows "consumer_ok C" "consumer_exact C" "c_pendingMessages C \<noteq> [] \<Longrightarrow> c \<in> R"
  using assms unfolding holders_ok_def by blast+

lemma holders_ok_upd:
  "holders_ok m R \<Longrightarrow> consumer_ok C \<Longrightarrow> consumer_exact C \<Longrightarrow> c \<in> R \<Longrightarrow> holders_ok (m(c := Some C)) R"
  unfolding holders_ok_def by auto

text \<open>What the primitive updates do to the live messages.\<close>

lemma registered_upd [simp]:
  "registered (addTask t s) = registered s" "registered (setCons c C s) = registered s"
  "registered (s\<lparr>qs_pc := pc\<rparr>) = registered s" "registered (s\<lparr>qs_tasks := ts\<rparr>) = registered s"
  "registered (updQueue f s) = gm_keys (q_consumers (f (qs_queue s)))"
  by (simp_all add: state_defs)

lemma pendOf_upd [simp]:
  "pendOf (addTask t s) = pendOf s" "pendOf (s\<lparr>qs_pc := pc\<rparr>) = pendOf s" "pendOf (updQueue f s) = pendOf s"
  "pendOf (s\<lparr>qs_tasks := ts\<rparr>) = pendOf s" "pendOf (setCons c C s) = (pendOf s)(c := pend C)"
  by (auto simp: pendOf_def state_defs fun_eq_iff)

lemma live_pc [simp]: "live (s\<lparr>qs_pc := pc\<rparr>) = live s"
  by (simp add: live_def)

lemma live_addTask [simp]: "live (addTask t s) = live s + frontOf t"
  by (simp add: live_def) (simp add: addTask_def)

lemma live_setCons:
  assumes "c \<in> set (registered s)"
  shows "live (setCons c C s) + pendOf s c = live s + pend C"
proof -
  have "(\<Sum>x \<in> R. ((pendOf s)(c := pend C)) x) + pendOf s c = (\<Sum>x \<in> R. pendOf s x) + pend C"
    if "finite R" "c \<in> R" for R
  proof -
    have "(\<Sum>x \<in> R - {c}. ((pendOf s)(c := pend C)) x) = (\<Sum>x \<in> R - {c}. pendOf s x)"
      by (rule sum.cong) auto
    with that show ?thesis by (simp add: sum.remove [of R c])
  qed
  from this [OF finite_set assms] show ?thesis
    by (simp add: live_def del: fun_upd_apply) (simp add: setCons_def)
qed

lemma live_messages:
  assumes "\<And>Q. q_consumers (f Q) = q_consumers Q"
  shows "live (updQueue f s) + mset (q_messages (qs_queue s)) = live s + mset (q_messages (f (qs_queue s)))"
  using assms by (simp add: live_def registered_def) (simp add: updQueue_def)

lemma live_remove_task: "t \<in> set (qs_tasks s) \<Longrightarrow> live (s\<lparr>qs_tasks := remove1 t (qs_tasks s)\<rparr>) + frontOf t = live s"
  by (simp add: live_def sum_list_map_remove1 [of t])

lemma live_release:
  assumes "holders_ok (qs_cons s) (set (registered s))" "qs_cons s c = Some C" "gm_get (c_pendingMessages C) tag = Some msg"
  shows "live s = add_mset msg (live (setCons c (releaseMessage tag C) s))"
proof -
  have "c \<in> set (registered s)" using holders_okD [OF assms(1,2)] assms(3) by (cases "c_pendingMessages C") auto
  from live_setCons [OF this, of "releaseMessage tag C"] pend_release [OF _ assms(3)] holders_okD [OF assms(1,2)] assms(2)
  show ?thesis by (simp add: pendOf_def)
qed

lemma holders_ok_release:
  assumes "holders_ok (qs_cons s) (set (registered s))" "qs_cons s c = Some C" "gm_get (c_pendingMessages C) tag = Some msg"
  shows "holders_ok (qs_cons (setCons c (releaseMessage tag C) s)) (set (registered s))"
proof -
  have has: "gm_has tag (c_pendingMessages C)" using assms(3) by (simp add: gm_has_get)
  then have "c \<in> set (registered s)" using holders_okD(3) [OF assms(1,2)] by (cases "c_pendingMessages C") auto
  then show ?thesis using assms has holders_okD [OF assms(1,2)]
    by (simp add: setCons_def holders_ok_upd consumer_ok_release consumer_exact_release)
qed

lemma qs_upd [simp]:
  "qs_cons (addTask t s) = qs_cons s" "qs_cons (updQueue f s) = qs_cons s" "qs_pc (addTask t s) = qs_pc s"
  "qs_pc (updQueue f s) = qs_pc s" "qs_pc (setCons c C s) = qs_pc s" "qs_queue (addTask t s) = qs_queue s"
  "qs_queue (setCons c C s) = qs_queue s" "qs_cons (setCons c C s) = (qs_cons s)(c := Some C)"
  "qs_queue (updQueue f s) = f (qs_queue s)" "qs_tasks (addTask t s) = qs_tasks s @ [t]"
  "qs_tasks (updQueue f s) = qs_tasks s" "qs_tasks (setCons c C s) = qs_tasks s"
  by (simp_all add: state_defs)

lemma pc_ok_unlocked: "\<not> holdsLock pc \<Longrightarrow> pc_ok pc s"
  by (cases pc) auto

lemma lock_inv_Enqueue:
  assumes "lock_inv s" "secEnqueue msg s = Some s'"
  shows "lock_inv s'" "live s' = add_mset msg (live s)"
proof -
  from assms(2) have u: "\<not> holdsLock (qs_pc s)" and
    s': "s' = addTask SignalCond (updQueue (\<lambda>Q. Q\<lparr>q_messages := q_messages Q @ [msg]\<rparr>) s)"
    by (auto simp: secEnqueue_def split: if_splits)
  show "lock_inv s'" using assms(1) u by (simp add: s' lock_inv_def pc_ok_unlocked registered_def)
  show "live s' = add_mset msg (live s)"
    using live_messages [of "\<lambda>Q. Q\<lparr>q_messages := q_messages Q @ [msg]\<rparr>" s] by (simp add: s')
qed

lemma lock_inv_Register:
  assumes "lock_inv s" "secRegister c (NewConsumer tag q ch chan) s = Some s'"
  shows "lock_inv s'" "live s' = live s"
proof -
  let ?C = "NewConsumer tag q ch chan" and ?f = "\<lambda>Q. Q\<lparr>q_consumers := gm_put c () (q_consumers Q)\<rparr>"
  from assms(2) have u: "\<not> holdsLock (qs_pc s)" "qs_cons s c = None" "c \<notin> set (registered s)"
    and s': "s' = addTask SignalCond (updQueue ?f (setCons c ?C s))"
    by (auto simp: secRegister_def split: if_splits)
  have r: "set (registered s') = insert c (set (registered s))"
    by (simp add: s') (simp add: registered_def gm.keys_put)
  have "holders_ok ((qs_cons s)(c := Some ?C)) (insert c (set (registered s)))"
    using assms(1) unfolding lock_inv_def holders_ok_def by (auto simp: consumer_exact_def)
  then show "lock_inv s'" using u r by (simp add: s' lock_inv_def pc_ok_unlocked)
  have "(\<Sum>x \<in> set (registered s). ((pendOf s)(c := pend ?C)) x) = (\<Sum>x \<in> set (registered s). pendOf s x)"
    by (rule sum.cong) (use u in auto)
  then show "live s' = live s" using u r
    by (simp add: live_def [of s'] live_def [of s] del: fun_upd_apply) (simp add: s' pend_def)
qed

lemma lock_inv_Unregister:
  assumes "lock_inv s" "secUnregister c msgs s = Some s'"
  shows "lock_inv s'" "live s' = live s"
proof -
  let ?Q = "(qs_queue s)\<lparr>q_consumers := gm_del c (q_consumers (qs_queue s)), q_messages := rev msgs @ q_messages (qs_queue s)\<rparr>"
  from assms(2) obtain C where C: "qs_cons s c = Some C" "\<not> holdsLock (qs_pc s)" "c \<in> set (registered s)" "mset msgs = pend C"
    by (auto simp: secUnregister_def pend_def split: if_splits option.splits)
  have ok: "holders_ok (qs_cons s) (set (registered s))" using assms(1) by (simp add: lock_inv_def)
  note c_ok = holders_okD [OF ok C(1)]
  have s': "s' = addTask SignalCond (updQueue (\<lambda>_. ?Q) (setCons c (emptied C) s))"
    using assms(2) C fold_returnPending_pend [OF c_ok(1) C(4)]
    by (simp add: secUnregister_def pend_def emptied_def split: if_splits)
  have r: "set (registered s') = set (registered s) - {c}"
    by (simp add: s') (simp add: registered_def gm.keys_del)
  have "holders_ok ((qs_cons s)(c := Some (emptied C))) (set (registered s) - {c})"
    using ok consumer_ok_emptied [OF c_ok(1)] c_ok(2) unfolding holders_ok_def by (auto simp: emptied_def consumer_exact_def)
  then show "lock_inv s'" using C(2) r by (simp add: s' lock_inv_def pc_ok_unlocked)
  have "(\<Sum>x \<in> set (registered s) - {c}. ((pendOf s)(c := pend (emptied C))) x) = (\<Sum>x \<in> set (registered s) - {c}. pendOf s x)"
    by (rule sum.cong) auto
  moreover have "pendOf s c = mset msgs" using C by (simp add: pendOf_def)
  ultimately show "live s' = live s" using C(3) r
    by (simp add: live_def [of s'] live_def [of s] sum.remove [of "set (registered s)" c] del: fun_upd_apply) (simp add: s')
qed

lemma lock_inv_Ack:
  assumes "lock_inv s" "secAck c tag s = Some s'"
  shows "lock_inv s'" "live s = live s' + heldUnder c tag s"
proof -
  from assms(2) obtain C where C: "qs_cons s c = Some C" "\<not> holdsLock (qs_pc s)" "gm_has tag (c_inflightTags C)"
    and s': "s' = addTask SignalCond (setCons c (releaseMessage tag C) s)"
    by (auto simp: secAck_def split: if_splits option.splits)
  have ok: "holders_ok (qs_cons s) (set (registered s))" using assms(1) by (simp add: lock_inv_def)
  obtain msg where m: "gm_get (c_pendingMessages C) tag = Some msg"
    using C(3) inflight_iff_pending [OF holders_okD(1) [OF ok C(1)]] by (auto simp: gm_has_get)
  show "lock_inv s'" using holders_ok_release [OF ok C(1) m] C(2) by (simp add: s' lock_inv_def pc_ok_unlocked)
  show "live s = live s' + heldUnder c tag s" using live_release [OF ok C(1) m] by (simp add: s' heldUnder_def C m)
qed

lemma roomy_release: "qs_cons s c = Some C \<Longrightarrow> roomy s \<subseteq> roomy (addTask t (setCons c (releaseMessage tag C) s))"
  by (auto simp: roomy_def hasRoom_def)

lemma lock_inv_Nack:
  assumes "lock_inv s" "secNack c tag requeue s = Some s'"
  shows "lock_inv s'" "live s = live s' + (if requeue then {#} else heldUnder c tag s)"
proof -
  from assms(2) obtain C msg where C: "qs_cons s c = Some C" and m: "gm_get (c_pendingMessages C) tag = Some msg"
    and s': "s' = addTask (if requeue then PutFront msg else SignalCond) (setCons c (releaseMessage tag C) s)"
    by (auto simp: secNack_def split: option.splits)
  have ok: "holders_ok (qs_cons s) (set (registered s))" using assms(1) by (simp add: lock_inv_def)
  have "pc_ok (qs_pc s') s'" using assms(1) roomy_release [OF C] s'
    by (cases "qs_pc s") (auto simp: lock_inv_def)
  with holders_ok_release [OF ok C m] show "lock_inv s'" by (simp add: s' lock_inv_def)
  show "live s = live s' + (if requeue then {#} else heldUnder c tag s)"
    using live_release [OF ok C m] by (simp add: s' heldUnder_def C m)
qed

lemma lock_inv_runTask:
  assumes "lock_inv s" "runTask t s = Some s'"
  shows "lock_inv s'" "live s' = live s"
proof -
  have t: "t \<in> set (qs_tasks s)" using assms(2) by (auto simp: runTask_def split: if_splits)
  note L = live_remove_task [OF t]
  have roomy: "roomy (s\<lparr>qs_tasks := ts\<rparr>) = roomy s" for ts by (simp add: roomy_def)
  have "lock_inv s' \<and> live s' = live s"
  proof (cases t)
    case (PutFront msg)
    with assms t L live_messages [of "pushFront msg" "s\<lparr>qs_tasks := remove1 t (qs_tasks s)\<rparr>"]
    show ?thesis by (auto simp: runTask_def lock_inv_def pc_ok_unlocked pushFront_def registered_def split: if_splits)
  next
    case SignalCond
    with assms t L show ?thesis by (cases "qs_pc s") (auto simp: runTask_def lock_inv_def roomy)
  qed
  then show "lock_inv s'" "live s' = live s" by blast+
qed

lemma lock_inv_Look:
  assumes "lock_inv s" "dispLook order s = Some s'"
  shows "lock_inv s'" "live s' = live s"
  using assms by (auto simp: dispLook_def lock_inv_def split: if_splits dest!: mset_eq_setD)

lemma lock_inv_Scan:
  assumes "lock_inv s" "dispScan s = Some s'"
  shows "lock_inv s'" "live s' = live s"
  using assms
  by (auto simp: dispScan_def lock_inv_def roomy_def split: if_splits dispatchPc.splits list.splits option.splits)

lemma lock_inv_Take:
  assumes "lock_inv s" "calm Take s" "dispTake s = Some s'"
  shows "lock_inv s'" "live s' = live s"
proof -
  from assms(3) obtain c msg rest C where pc: "qs_pc s = Chosen c" "q_messages (qs_queue s) = msg # rest" "qs_cons s c = Some C"
    and s': "s' = (updQueue (\<lambda>Q. Q\<lparr>q_messages := rest\<rparr>) (setCons c (holdMessage msg C) s))\<lparr>qs_pc := Sending c msg\<rparr>"
    by (auto simp: dispTake_def split: dispatchPc.splits list.splits option.splits)
  have ok: "holders_ok (qs_cons s) (set (registered s))" and c: "c \<in> set (registered s)" "hasRoom C"
    using assms(1) pc by (auto simp: lock_inv_def roomy_def)
  have new: "\<not> gm_has (m_DeliveryTag msg) (c_pendingMessages C)"
    using assms(2) pc by (auto simp: heldUnder_def gm_has_get split: option.splits)
  note c_ok = holders_okD [OF ok pc(3)]
  show "lock_inv s'"
    using holders_ok_upd [OF ok consumer_ok_hold [OF c_ok(1) c(2)] consumer_exact_hold [OF c_ok(1,2) new] c(1)]
    by (simp add: s' lock_inv_def registered_def)
  show "live s' = live s"
    using live_messages [of "\<lambda>Q. Q\<lparr>q_messages := rest\<rparr>" "setCons c (holdMessage msg C) s"]
      live_setCons [OF c(1), of "holdMessage msg C"] pc
    by (simp add: s' pend_hold [OF new] pendOf_def)
qed

lemma lock_inv_Written:
  assumes "lock_inv s" "dispWritten b s = Some s'"
  shows "lock_inv s'" "live s' = live s"
  using assms by (auto simp: dispWritten_def lock_inv_def split: if_splits dispatchPc.splits)

lemma lock_inv_Reenqueue:
  assumes "lock_inv s" "calm Reenqueue s" "dispReenqueue s = Some s'"
  shows "lock_inv s'" "live s' = live s"
proof -
  from assms(3) obtain c msg C where pc: "qs_pc s = SendFailed c msg" "qs_cons s c = Some C"
    and s': "s' = (updQueue (pushFront msg) (setCons c (releaseMessage (m_DeliveryTag msg) C) s))\<lparr>qs_pc := Top\<rparr>"
    by (auto simp: dispReenqueue_def split: dispatchPc.splits option.splits)
  have ok: "holders_ok (qs_cons s) (set (registered s))" using assms(1) by (simp add: lock_inv_def)
  have m: "gm_get (c_pendingMessages C) (m_DeliveryTag msg) = Some msg"
    using assms(2) pc by (auto simp: heldUnder_def split: option.splits)
  show "lock_inv s'" using holders_ok_release [OF ok pc(2) m] by (simp add: s' lock_inv_def pushFront_def registered_def)
  show "live s' = live s"
    using live_release [OF ok pc(2) m] live_messages [of "pushFront msg" "setCons c (releaseMessage (m_DeliveryTag msg) C) s"]
    by (simp add: s' pushFront_def)
qed

lemma lock_inv_qstep:
  assumes "lock_inv s" "calm a s" "qstep a s = Some s'"
  shows "lock_inv s' \<and> live s + enqueuedBy a = live s' + settledBy a s"
proof (cases a)
  case (Enqueue msg)
  with assms(3) show ?thesis using lock_inv_Enqueue [OF assms(1)] by simp
next
  case (Register c tag q ch chan)
  with assms(3) show ?thesis using lock_inv_Register [OF assms(1)] by simp
next
  case (Unregister c msgs)
  with assms(3) show ?thesis using lock_inv_Unregister [OF assms(1)] by simp
next
  case (AckTag c tag)
  with assms(3) show ?thesis using lock_inv_Ack [OF assms(1)] by simp
next
  case (NackTag c tag requeue)
  with assms(3) show ?thesis using lock_inv_Nack [OF assms(1)] by simp
next
  case (RunTask t)
  with assms(3) show ?thesis using lock_inv_runTask [OF assms(1)] by simp
next
  case (Look order)
  with assms(3) show ?thesis using lock_inv_Look [OF assms(1)] by simp
next
  case Scan
  with assms(3) show ?thesis using lock_inv_Scan [OF assms(1)] by simp
next
  case Take
  with assms have "calm Take s" "dispTake s = Some s'" by (simp_all del: calm.simps)
  with Take show ?thesis using lock_inv_Take [OF assms(1)] by simp
next
  case (WriteDone ok)
  with assms(3) show ?thesis using lock_inv_Written [OF assms(1)] by simp
next
  case Reenqueue
  with assms have "calm Reenqueue s" "dispReenqueue s = Some s'" by (simp_all del: calm.simps)
  with Reenqueue show ?thesis using lock_inv_Reenqueue [OF assms(1)] by simp
qed

lemma lock_inv_run:
  assumes "lock_inv s" "calmRun as s" "runSections as s = Some s'"
  shows "lock_inv s' \<and> live s + sum_list (map enqueuedBy as) = live s' + settledIn as s"
  using assms
proof (induction as arbitrary: s)
  case (Cons a as)
  from Cons.prems obtain s1 where 1: "qstep a s = Some s1" "runSections as s1 = Some s'" "calm a s" "calmRun as s1"
    by (auto split: option.splits)
  from lock_inv_qstep [OF Cons.prems(1) 1(3,1)]
  have 2: "lock_inv s1" "live s + enqueuedBy a = live s1 + settledBy a s" by auto
  from Cons.IH [OF 2(1) 1(4,2)] have 3: "lock_inv s'" "live s1 + sum_list (map enqueuedBy as) = live s' + settledIn as s1" by auto
  let ?E = "sum_list (map enqueuedBy as)"
  have "live s + (enqueuedBy a + ?E) = (live s + enqueuedBy a) + ?E" by (rule add.assoc [symmetric])
  also have "\<dots> = (live s1 + ?E) + settledBy a s" unfolding 2(2) by (rule add.assoc [THEN trans]) (simp add: add.commute)
  also have "\<dots> = live s' + (settledBy a s + settledIn as s1)" unfolding 3(2) by (simp add: add.assoc add.commute)
  finally show ?case using 1 3(1) by simp
qed simp

lemma lock_inv_qStart: "lock_inv (qStart name dlx rk)" "live (qStart name dlx rk) = {#}"
  by (simp_all add: qStart_def lock_inv_def holders_ok_def live_def registered_def NewQueue_def)

text \<open>
  C4. No message is lost or doubled between the locks. In every calm interleaving of the critical sections, what was
  enqueued is what waits, is held by a registered consumer or is on its way back, together with what acks and discarding
  nacks settled; and the counter of every consumer is the number of messages it holds, within its prefetch limit.
\<close>

theorem lock_conservation:
  assumes "runSections as (qStart name dlx rk) = Some s" "calmRun as (qStart name dlx rk)"
  shows "sum_list (map enqueuedBy as) = live s + settledIn as (qStart name dlx rk) \<and>
    (\<forall>c C. qs_cons s c = Some C \<longrightarrow> c_inflight C = int (length (c_pendingMessages C)) \<and> c_inflight C \<le> c_prefetch C)"
proof -
  from lock_inv_run [OF lock_inv_qStart(1) assms(2,1)]
  have L: "lock_inv s" "sum_list (map enqueuedBy as) = live s + settledIn as (qStart name dlx rk)"
    by (simp_all add: lock_inv_qStart)
  have "c_inflight C = int (length (c_pendingMessages C)) \<and> c_inflight C \<le> c_prefetch C" if "qs_cons s c = Some C" for c C
    using holders_okD(1,2) [of "qs_cons s" _ c C] that L(1) unfolding lock_inv_def consumer_ok_def consumer_exact_def by blast
  with L(2) show ?thesis by blast
qed

definition failedDelivery :: "critical list" where
  "failedDelivery = oneConsumer @ publishes [1, 2] @ [Look [0], Scan, Take, WriteDone False, Reenqueue] @ deliverOne @
     [AckTag 0 1, RunTask SignalCond]"

theorem lock_conservation_witness:
  "\<exists>s. runSections failedDelivery (qStart ''q'' [] []) = Some s \<and> calmRun failedDelivery (qStart ''q'' [] []) \<and>
     live s + settledIn failedDelivery (qStart ''q'' [] []) = {#smallMsg 1, smallMsg 2#}"
proof -
  have "\<exists>s. runSections failedDelivery (qStart ''q'' [] []) = Some s"
    by (simp add: failedDelivery_def trace_defs)
  then obtain s where s: "runSections failedDelivery (qStart ''q'' [] []) = Some s" by blast
  have c: "calmRun failedDelivery (qStart ''q'' [] [])"
    by (simp add: failedDelivery_def trace_defs heldUnder_def)
  have "sum_list (map enqueuedBy failedDelivery) = {#smallMsg 1, smallMsg 2#}"
    by (simp add: failedDelivery_def publishes_def oneConsumer_def deliverOne_def)
  with lock_conservation [OF s c] s c show ?thesis by auto
qed

text \<open>
  C23. A failing write races with the consumer's departure. While the dispatcher writes a delivery without a lock,
  unregistering the consumer already returns the message to the queue; when the write then fails, the dispatcher puts it
  back a second time: one message was enqueued, two wait, and the consumer's counter is minus one.
\<close>

theorem write_failure_race:
  "\<exists>as s C. runSections as (qStart ''q'' [] []) = Some s \<and> sum_list (map enqueuedBy as) = {#smallMsg 1#} \<and>
     q_messages (qs_queue s) = [smallMsg 1, smallMsg 1] \<and> qs_cons s 0 = Some C \<and> c_inflight C = - 1"
proof -
  let ?as = "oneConsumer @ publishes [1] @
    [Look [0], Scan, Take, Unregister 0 [smallMsg 1], RunTask SignalCond, WriteDone False, Reenqueue]"
  have "\<exists>s C. runSections ?as (qStart ''q'' [] []) = Some s \<and> sum_list (map enqueuedBy ?as) = {#smallMsg 1#} \<and>
     q_messages (qs_queue s) = [smallMsg 1, smallMsg 1] \<and> qs_cons s 0 = Some C \<and> c_inflight C = - 1"
    by (simp add: trace_defs)
  then show ?thesis by blast
qed

end
