(* ===== verification/LockOrder.thy ===== *)
theory LockOrder
  imports BrokerState
begin

text \<open>
  The mutexes of the broker. Every goroutine is seen as the sequence of mutex operations and waits that its code
  performs: one definition per function of the code, whose arguments are what the path depends on (which lookups succeed,
  which consumers a loop visits, whether a write fails), so that all paths are covered. A call of \<^verbatim>\<open>cond.Wait\<close>
  releases the queue's mutex, waits and takes it again. Reads from the socket, \<^verbatim>\<open>send\<close> (which waits for the write pump)
  and waits for a signal are \<open>Park\<close>; handing a metric to the Prometheus registry is \<open>Emit\<close>, which the registry's
  gathering goroutine always takes. The goroutines interleave operation by operation. The write pump takes no mutex, and the
  mutexes inside the packages \<^verbatim>\<open>log\<close> and \<^verbatim>\<open>prometheus\<close>, under which no code of the broker runs, are left out.
\<close>

section \<open>Mutexes and their operations\<close>

datatype mutex = ServerMu | ConnMu connref | BrokerMu | ExchangeMu eref | QueueMu qref | ConsumerMu cref

datatype lockAct = Acquire mutex | Release mutex | Park | Emit

definition underLock :: "mutex \<Rightarrow> lockAct list \<Rightarrow> lockAct list" where
  "underLock m body = Acquire m # body @ [Release m]"

abbreviation visit :: "mutex \<Rightarrow> lockAct list" where
  "visit m \<equiv> underLock m []"

definition condWait :: "qref \<Rightarrow> lockAct list" where
  "condWait q = [Release (QueueMu q), Park, Acquire (QueueMu q)]"

section \<open>Queues and exchanges\<close>

definition locks_registerConsumer :: "qref \<Rightarrow> lockAct list" where
  "locks_registerConsumer q = visit (QueueMu q)"

definition locks_unregisterConsumer :: "qref \<times> cref \<times> bool \<Rightarrow> lockAct list" where
  "locks_unregisterConsumer = (\<lambda>(q, c, registered). underLock (QueueMu q) (if registered then visit (ConsumerMu c) else []))"

definition locks_selectConsumer :: "cref list \<Rightarrow> lockAct list" where
  "locks_selectConsumer scanned = concat (map (\<lambda>c. visit (ConsumerMu c)) scanned)"

text \<open>
  One turn of \<^verbatim>\<open>dispatchLoop\<close>: how often it waits for a message, the consumers it looks at, and the consumer it chose,
  if any, with the outcome of the write.
\<close>

definition locks_dispatchTurn :: "qref \<Rightarrow> nat \<times> cref list \<times> (cref \<times> bool) option \<Rightarrow> lockAct list" where
  "locks_dispatchTurn q = (\<lambda>(waits, scanned, chosen).
     Acquire (QueueMu q) # concat (replicate waits (condWait q)) @ locks_selectConsumer scanned @
     (case chosen of
        None \<Rightarrow> condWait q @ [Release (QueueMu q)]
      | Some (c, failed) \<Rightarrow>
          visit (ConsumerMu c) @ [Release (QueueMu q), Park] @
          (if failed then underLock (QueueMu q) (visit (ConsumerMu c)) else [])))"

definition locks_enqueue :: "qref \<Rightarrow> lockAct list" where
  "locks_enqueue q = visit (QueueMu q)"

definition locks_bind :: "eref \<Rightarrow> lockAct list" where
  "locks_bind e = visit (ExchangeMu e)"

definition locks_getQueues :: "eref \<Rightarrow> lockAct list" where
  "locks_getQueues e = visit (ExchangeMu e)"

section \<open>The broker\<close>

definition locks_DeclareQueue :: "lockAct list" where
  "locks_DeclareQueue = visit BrokerMu"

definition locks_DeclareExchange :: "lockAct list" where
  "locks_DeclareExchange = visit BrokerMu"

definition locks_BindQueue :: "eref option \<Rightarrow> lockAct list" where
  "locks_BindQueue found = visit BrokerMu @ (case found of None \<Rightarrow> [] | Some e \<Rightarrow> locks_bind e)"

definition locks_Publish :: "(eref \<times> qref list) option \<Rightarrow> lockAct list" where
  "locks_Publish found = visit BrokerMu @
     (case found of
        None \<Rightarrow> []
      | Some (e, qs) \<Rightarrow> locks_getQueues e @ concat (map (\<lambda>q. visit (QueueMu q) @ locks_enqueue q) qs))"

definition locks_RegisterConsumer :: "(qref \<times> bool) option \<Rightarrow> lockAct list" where
  "locks_RegisterConsumer found = visit BrokerMu @
     (case found of None \<Rightarrow> [] | Some (q, dup) \<Rightarrow> if dup then [] else locks_registerConsumer q)"

definition locks_Ack :: "(qref \<times> cref list) option \<Rightarrow> lockAct list" where
  "locks_Ack found = visit BrokerMu @
     (case found of
        None \<Rightarrow> []
      | Some (q, scanned) \<Rightarrow> underLock (QueueMu q) (concat (map (\<lambda>c. visit (ConsumerMu c)) scanned)))"

section \<open>Channels\<close>

definition locks_chanCleanup :: "(qref \<times> cref \<times> bool) list \<Rightarrow> lockAct list" where
  "locks_chanCleanup consumers = concat (map locks_unregisterConsumer consumers)"

datatype nackPath = NackRequeue qref | NackDeadLetter "(eref \<times> qref list) option" | NackDrop

text \<open>
  A request to a channel with what decides its path: \<open>None\<close> where its payload does not decode, otherwise the outcome of
  the lookups and the consumers visited.
\<close>

datatype request =
    PublishRq "(eref \<times> qref list) option option"
  | ConsumeRq "(qref \<times> bool) option option"
  | AckRq "(cref list \<times> (qref \<times> cref list) option option) option"
  | NackRq "(cref list \<times> nackPath option) option"
  | QueueDeclareRq
  | ExchangeDeclareRq
  | QueueBindRq "eref option option"
  | UnknownRq

definition locks_HandlePublish :: "(eref \<times> qref list) option option \<Rightarrow> lockAct list" where
  "locks_HandlePublish event =
     (case event of None \<Rightarrow> [] | Some found \<Rightarrow> locks_Publish found @ (if found = None then [Park] else []))"

definition locks_HandleConsume :: "(qref \<times> bool) option option \<Rightarrow> lockAct list" where
  "locks_HandleConsume event =
     (case event of None \<Rightarrow> [Park] | Some found \<Rightarrow> locks_RegisterConsumer found @ [Park])"

definition locks_HandleAck :: "(cref list \<times> (qref \<times> cref list) option option) option \<Rightarrow> lockAct list" where
  "locks_HandleAck event =
     (case event of
        None \<Rightarrow> [Park]
      | Some (scanned, hit) \<Rightarrow>
          concat (map (\<lambda>c. visit (ConsumerMu c)) scanned) @ (case hit of None \<Rightarrow> [] | Some found \<Rightarrow> locks_Ack found))"

fun locks_nackMessage :: "nackPath \<Rightarrow> lockAct list" where
  "locks_nackMessage (NackRequeue q) = visit (QueueMu q)"
| "locks_nackMessage (NackDeadLetter found) = locks_Publish found"
| "locks_nackMessage NackDrop = []"

definition locks_HandleNack :: "(cref list \<times> nackPath option) option \<Rightarrow> lockAct list" where
  "locks_HandleNack event =
     (case event of
        None \<Rightarrow> [Park]
      | Some (scanned, hit) \<Rightarrow>
          concat (map (\<lambda>c. visit (ConsumerMu c)) scanned) @ (case hit of None \<Rightarrow> [] | Some path \<Rightarrow> locks_nackMessage path))"

definition locks_HandleQueueBind :: "eref option option \<Rightarrow> lockAct list" where
  "locks_HandleQueueBind event = (case event of None \<Rightarrow> [Park] | Some found \<Rightarrow> locks_BindQueue found @ [Park])"

fun locks_route :: "request \<Rightarrow> lockAct list" where
  "locks_route (PublishRq event) = locks_HandlePublish event"
| "locks_route (ConsumeRq event) = locks_HandleConsume event"
| "locks_route (AckRq event) = locks_HandleAck event"
| "locks_route (NackRq event) = locks_HandleNack event"
| "locks_route QueueDeclareRq = locks_DeclareQueue @ [Park]"
| "locks_route ExchangeDeclareRq = locks_DeclareExchange @ [Park]"
| "locks_route (QueueBindRq event) = locks_HandleQueueBind event"
| "locks_route UnknownRq = []"

section \<open>Connections, the scrape and the goroutines\<close>

datatype envelopeRq =
    OpenRq
  | CloseRq "(qref \<times> cref \<times> bool) list option"
  | RouteRq "request option"

fun locks_Handle :: "connref \<Rightarrow> envelopeRq \<Rightarrow> lockAct list" where
  "locks_Handle k OpenRq = visit (ConnMu k) @ [Park]"
| "locks_Handle k (CloseRq found) =
     visit (ConnMu k) @ (case found of None \<Rightarrow> [] | Some consumers \<Rightarrow> locks_chanCleanup consumers) @ [Park]"
| "locks_Handle k (RouteRq found) =
     visit (ConnMu k) @ (case found of None \<Rightarrow> [Park] | Some r \<Rightarrow> locks_route r)"

definition locks_Serve :: "connref \<Rightarrow> envelopeRq list \<Rightarrow> lockAct list" where
  "locks_Serve k envs = concat (map (\<lambda>env. Park # locks_Handle k env) envs) @ [Park]"

definition locks_connCleanup :: "connref \<Rightarrow> (qref \<times> cref \<times> bool) list list \<Rightarrow> lockAct list" where
  "locks_connCleanup k channels = underLock (ConnMu k) (concat (map locks_chanCleanup channels))"

text \<open>The reads and writes of the handshake are counted by \<open>talk\<close>; \<open>served\<close> is \<open>None\<close> when it fails.\<close>

definition locks_HandleConnection ::
    "connref \<Rightarrow> nat \<Rightarrow> envelopeRq list option \<Rightarrow> (qref \<times> cref \<times> bool) list list \<Rightarrow> lockAct list" where
  "locks_HandleConnection k talk served channels =
     visit ServerMu @ replicate talk Park @ (case served of None \<Rightarrow> [] | Some envs \<Rightarrow> locks_Serve k envs) @
     locks_connCleanup k channels @ visit ServerMu"

definition locks_collectQueue :: "qref \<times> cref list \<Rightarrow> lockAct list" where
  "locks_collectQueue = (\<lambda>(q, consumers).
     underLock (QueueMu q) ([Emit, Emit] @ concat (map (\<lambda>c. underLock (ConsumerMu c) [Emit]) consumers)))"

definition locks_Collect :: "(qref \<times> cref list) list \<Rightarrow> lockAct list" where
  "locks_Collect queues =
     underLock ServerMu [Emit] @ underLock BrokerMu ([Emit, Emit] @ concat (map locks_collectQueue queues))"

datatype goroutine =
    ConnectionOf connref nat "envelopeRq list option" "(qref \<times> cref \<times> bool) list list"
  | DispatcherOf qref "(nat \<times> cref list \<times> (cref \<times> bool) option) list"
  | Scrape "(qref \<times> cref list) list"

fun locks_of :: "goroutine \<Rightarrow> lockAct list" where
  "locks_of (ConnectionOf k talk served channels) = locks_HandleConnection k talk served channels"
| "locks_of (DispatcherOf q turns) = concat (map (locks_dispatchTurn q) turns)"
| "locks_of (Scrape queues) = locks_Collect queues"

section \<open>The lock order\<close>

text \<open>
  A mutex is only taken by a goroutine whose other mutexes have a smaller rank: server, connection, broker and exchange
  before queue, queue before consumer.
\<close>

fun mutexRank :: "mutex \<Rightarrow> nat" where
  "mutexRank (QueueMu q) = 2"
| "mutexRank (ConsumerMu c) = 3"
| "mutexRank m = 1"

text \<open>
  The mutexes a goroutine holds after its operations, \<open>None\<close> if it takes one against the order, releases one it does
  not hold, or waits while it holds one.
\<close>

fun runLocks :: "mutex list \<Rightarrow> lockAct list \<Rightarrow> mutex list option" where
  "runLocks held [] = Some held"
| "runLocks held (Acquire m # as) = (if list_all (\<lambda>h. mutexRank h < mutexRank m) held then runLocks (m # held) as else None)"
| "runLocks held (Release m # as) = (if m \<in> set held then runLocks (remove1 m held) as else None)"
| "runLocks held (Park # as) = (if held = [] then runLocks held as else None)"
| "runLocks held (Emit # as) = runLocks held as"

lemma runLocks_append: "runLocks held (as @ bs) = Option.bind (runLocks held as) (\<lambda>h. runLocks h bs)"
  by (induction held as rule: runLocks.induct) auto

text \<open>Operations that leave every set of mutexes of rank below \<open>r\<close> as it was; below 1 there is only the empty one.\<close>

definition neutral :: "nat \<Rightarrow> lockAct list \<Rightarrow> bool" where
  "neutral r as \<longleftrightarrow> (\<forall>held. list_all (\<lambda>h. mutexRank h < r) held \<longrightarrow> runLocks held as = Some held)"

named_theorems neutral_intros

lemma neutral_Nil [neutral_intros]: "neutral r []"
  by (simp add: neutral_def)

lemma neutral_append [neutral_intros]: "neutral r as \<Longrightarrow> neutral r bs \<Longrightarrow> neutral r (as @ bs)"
  by (simp add: neutral_def runLocks_append)

lemma neutral_concat [neutral_intros]: "(\<And>x. x \<in> set xs \<Longrightarrow> neutral r (f x)) \<Longrightarrow> neutral r (concat (map f xs))"
  by (induction xs) (auto intro!: neutral_intros)

lemma neutral_Emit [neutral_intros]: "neutral r as \<Longrightarrow> neutral r (Emit # as)"
  by (simp add: neutral_def)

lemma rank_pos: "0 < mutexRank m"
  by (cases m) auto

lemma below_one: "list_all (\<lambda>h. mutexRank h < Suc 0) held \<Longrightarrow> held = []"
proof (cases held)
  case (Cons m ms)
  then show "list_all (\<lambda>h. mutexRank h < Suc 0) held \<Longrightarrow> held = []" using rank_pos [of m] by simp
qed simp

lemma neutral_Park [neutral_intros]: "neutral (Suc 0) as \<Longrightarrow> neutral (Suc 0) (Park # as)"
  unfolding neutral_def using below_one by fastforce

lemma neutral_underLock [neutral_intros]:
  assumes "r \<le> mutexRank m" "neutral (Suc (mutexRank m)) body"
  shows "neutral r (underLock m body)"
  unfolding neutral_def
proof (intro allI impI)
  fix held assume held: "list_all (\<lambda>h. mutexRank h < r) held"
  then have "list_all (\<lambda>h. mutexRank h < mutexRank m) held" using assms(1) by (auto simp: list_all_iff)
  moreover from this have "list_all (\<lambda>h. mutexRank h < Suc (mutexRank m)) (m # held)" by (auto simp: list_all_iff)
  ultimately show "runLocks held (underLock m body) = Some held"
    using assms(2) by (simp add: underLock_def neutral_def runLocks_append)
qed

lemma neutral_if [neutral_intros]: "(b \<Longrightarrow> neutral r as) \<Longrightarrow> (\<not> b \<Longrightarrow> neutral r bs) \<Longrightarrow> neutral r (if b then as else bs)"
  by simp

lemma neutral_option [neutral_intros]:
  "neutral r as \<Longrightarrow> (\<And>x. v = Some x \<Longrightarrow> neutral r (f x)) \<Longrightarrow> neutral r (case v of None \<Rightarrow> as | Some x \<Rightarrow> f x)"
  by (cases v) auto

lemma neutral_pair [neutral_intros]: "(\<And>x y. v = (x, y) \<Longrightarrow> neutral r (f x y)) \<Longrightarrow> neutral r (case v of (x, y) \<Rightarrow> f x y)"
  by (cases v) auto

lemma neutral_mono: "neutral r' as \<Longrightarrow> r \<le> r' \<Longrightarrow> neutral r as"
  by (force simp: neutral_def list_all_iff)

subsection \<open>Every function keeps to it\<close>

lemmas leaf_defs = locks_registerConsumer_def locks_unregisterConsumer_def locks_selectConsumer_def locks_enqueue_def
  locks_bind_def locks_getQueues_def locks_DeclareQueue_def locks_DeclareExchange_def locks_BindQueue_def
  locks_RegisterConsumer_def locks_Ack_def locks_chanCleanup_def

lemma neutral_unregister [neutral_intros]: "r \<le> 2 \<Longrightarrow> neutral r (locks_unregisterConsumer x)"
  unfolding locks_unregisterConsumer_def by (intro neutral_intros) auto

lemma neutral_Publish [neutral_intros]: "neutral (Suc 0) (locks_Publish found)"
  unfolding locks_Publish_def leaf_defs by (intro neutral_intros) auto

lemma neutral_nackMessage [neutral_intros]: "neutral (Suc 0) (locks_nackMessage path)"
  by (cases path) (auto intro!: neutral_intros)

lemma neutral_route [neutral_intros]: "neutral (Suc 0) (locks_route r)"
  by (cases r) (auto simp: locks_HandlePublish_def locks_HandleConsume_def locks_HandleAck_def locks_HandleNack_def
      locks_HandleQueueBind_def leaf_defs intro!: neutral_intros)

lemma neutral_Handle [neutral_intros]: "neutral (Suc 0) (locks_Handle k env)"
  by (cases env) (auto simp: locks_chanCleanup_def intro!: neutral_intros)

lemma neutral_parks [neutral_intros]: "neutral (Suc 0) (replicate n Park)"
  by (induction n) (auto intro!: neutral_intros)

lemma neutral_HandleConnection: "neutral (Suc 0) (locks_HandleConnection k talk served channels)"
  unfolding locks_HandleConnection_def locks_Serve_def locks_connCleanup_def locks_chanCleanup_def
  by (intro neutral_intros) auto

lemma neutral_Collect: "neutral (Suc 0) (locks_Collect queues)"
  unfolding locks_Collect_def locks_collectQueue_def by (intro neutral_intros) auto

text \<open>The dispatcher gives its mutex back to wait, and before it writes.\<close>

lemma runLocks_waits: "runLocks [QueueMu q] (concat (replicate n (condWait q))) = Some [QueueMu q]"
  by (induction n) (auto simp: condWait_def)

lemma neutral_runLocks: "neutral r as \<Longrightarrow> list_all (\<lambda>h. mutexRank h < r) held \<Longrightarrow> runLocks held as = Some held"
  by (simp add: neutral_def)

lemma neutral_dispatchTurn: "neutral (Suc 0) (locks_dispatchTurn q turn)"
proof -
  obtain n scanned chosen where turn: "turn = (n, scanned, chosen)" by (cases turn)
  have "neutral 3 (locks_selectConsumer scanned)" "neutral 3 (visit (ConsumerMu c))" for c
    unfolding locks_selectConsumer_def by (intro neutral_intros; simp)+
  then have visits: "runLocks [QueueMu q] (locks_selectConsumer scanned) = Some [QueueMu q]"
    "runLocks [QueueMu q] (visit (ConsumerMu c)) = Some [QueueMu q]" for c
    by (simp_all add: neutral_def)
  have fail: "neutral (Suc 0) (underLock (QueueMu q) (visit (ConsumerMu c)))" for c
    by (intro neutral_intros) auto
  have wait: "runLocks [QueueMu q] (condWait q @ [Release (QueueMu q)]) = Some []" by (simp add: condWait_def)
  have "runLocks [] (locks_dispatchTurn q turn) = Some []"
    using neutral_runLocks [OF fail, of "[]"] wait
    by (cases chosen) (auto simp: turn locks_dispatchTurn_def runLocks_append runLocks_waits visits)
  then show ?thesis unfolding neutral_def using below_one by blast
qed

lemma goroutine_ordered: "runLocks [] (locks_of g) = Some []"
proof -
  have "neutral (Suc 0) (locks_of g)"
    by (cases g) (auto intro!: neutral_HandleConnection neutral_Collect neutral_concat neutral_dispatchTurn)
  then show ?thesis by (simp add: neutral_def)
qed

section \<open>Goroutines interleaved\<close>

text \<open>A goroutine with the mutexes it holds and what it has still to do; a system of them.\<close>

type_synonym thread = "mutex list \<times> lockAct list"

definition busy :: "thread list \<Rightarrow> mutex list" where
  "busy s = concat (map fst s)"

fun advance :: "mutex list \<Rightarrow> thread \<Rightarrow> thread option" where
  "advance taken (held, []) = None"
| "advance taken (held, Acquire m # as) = (if m \<in> set taken then None else Some (m # held, as))"
| "advance taken (held, Release m # as) = (if m \<in> set held then Some (remove1 m held, as) else None)"
| "advance taken (held, Park # as) = Some (held, as)"
| "advance taken (held, Emit # as) = Some (held, as)"

definition threadStep :: "nat \<Rightarrow> thread list \<Rightarrow> thread list option" where
  "threadStep i s = (if i < length s then map_option (\<lambda>t. s[i := t]) (advance (busy s) (s ! i)) else None)"

fun runThreads :: "nat list \<Rightarrow> thread list \<Rightarrow> thread list option" where
  "runThreads [] s = Some s"
| "runThreads (i # is) s = Option.bind (threadStep i s) (runThreads is)"

definition startThreads :: "goroutine list \<Rightarrow> thread list" where
  "startThreads gs = map (\<lambda>g. ([], locks_of g)) gs"

definition threadOrdered :: "thread \<Rightarrow> bool" where
  "threadOrdered t \<longleftrightarrow> runLocks (fst t) (snd t) = Some [] \<and> sorted_wrt (\<lambda>a b. mutexRank b < mutexRank a) (fst t)"

definition locks_inv :: "thread list \<Rightarrow> bool" where
  "locks_inv s \<longleftrightarrow> list_all threadOrdered s \<and> distinct (busy s)"

lemma sorted_remove1: "sorted_wrt P xs \<Longrightarrow> sorted_wrt P (remove1 x xs)"
  by (induction xs) (auto dest: notin_set_remove1 simp: in_set_remove1 split: if_splits dest!: set_remove1_subset [THEN subsetD])

lemma advance_ordered: "threadOrdered t \<Longrightarrow> advance taken t = Some t' \<Longrightarrow> threadOrdered t'"
  by (cases "(taken, t)" rule: advance.cases)
    (auto simp: threadOrdered_def sorted_remove1 list_all_iff split: if_splits)

lemma busy_update: "i < length s \<Longrightarrow> mset (busy (s[i := t])) + mset (fst (s ! i)) = mset (busy s) + mset (fst t)"
proof (induction s arbitrary: i)
  case (Cons a s)
  then show ?case by (cases i) (auto simp: busy_def)
qed simp

lemma busy_advance:
  assumes "i < length s" "advance (busy s) (s ! i) = Some t" "distinct (busy s)"
  shows "distinct (busy (s[i := t]))"
proof -
  obtain held as where t: "s ! i = (held, as)" by fastforce
  note upd = busy_update [OF assms(1), of t]
  consider (acquire) m as' where "as = Acquire m # as'" | (release) m as' where "as = Release m # as'"
    | (other) "fst t = held" using assms(2) by (cases "(busy s, held, as)" rule: advance.cases) (auto simp: t)
  then show ?thesis
  proof cases
    case acquire
    then have "m \<notin> set (busy s)" "mset (busy (s[i := t])) = mset (m # busy s)"
      using assms(2) upd by (auto simp: t split: if_splits)
    moreover from this have "distinct (busy (s[i := t])) \<longleftrightarrow> distinct (m # busy s)" using mset_eq_imp_distinct_iff by blast
    ultimately show ?thesis using assms(3) by simp
  next
    case release
    then have m: "m \<in> set held" "fst t = remove1 m held" using assms(2) by (auto simp: t split: if_splits)
    then have "mset held = add_mset m (mset (fst t))" by simp
    then have "mset (busy s) = mset (m # busy (s[i := t]))" using upd by (simp add: t)
    then have "distinct (m # busy (s[i := t]))" using assms(3) mset_eq_imp_distinct_iff by blast
    then show ?thesis by simp
  next
    case other
    then have "mset (busy (s[i := t])) = mset (busy s)" using upd by (simp add: t)
    then have "distinct (busy (s[i := t])) \<longleftrightarrow> distinct (busy s)" by (rule mset_eq_imp_distinct_iff)
    then show ?thesis using assms(3) by simp
  qed
qed

lemma threadStep_inv: "locks_inv s \<Longrightarrow> threadStep i s = Some s' \<Longrightarrow> locks_inv s'"
  using advance_ordered [of "s ! i" "busy s"] busy_advance [of i s]
  by (auto simp: locks_inv_def threadStep_def list_all_length nth_list_update split: if_splits)

lemma runThreads_inv: "locks_inv s \<Longrightarrow> runThreads is s = Some s' \<Longrightarrow> locks_inv s'"
  by (induction "is" arbitrary: s) (auto simp: bind_eq_Some_conv dest: threadStep_inv)

lemma startThreads_inv: "locks_inv (startThreads gs)"
proof -
  have "busy (startThreads gs) = []" by (simp add: busy_def startThreads_def)
  then show ?thesis using goroutine_ordered
    by (simp add: locks_inv_def startThreads_def list_all_iff threadOrdered_def)
qed

section \<open>Mutexes are released\<close>

text \<open>A schedule in which only goroutines move that hold a mutex, so that none of its steps waits for anything.\<close>

fun runHolders :: "nat list \<Rightarrow> thread list \<Rightarrow> thread list option" where
  "runHolders [] s = Some s"
| "runHolders (i # is) s = (if i < length s \<and> fst (s ! i) \<noteq> [] then Option.bind (threadStep i s) (runHolders is) else None)"

lemma holder_moves:
  assumes "threadOrdered (held, as)" "m \<in> set held" "\<And>m'. m' \<in> set taken \<Longrightarrow> mutexRank m' \<le> mutexRank m"
  shows "\<exists>held' a as'. as = a # as' \<and> advance taken (held, as) = Some (held', as')"
proof (cases as)
  case (Cons a as')
  have run: "runLocks held (a # as') = Some []" using assms(1) by (simp add: threadOrdered_def Cons)
  show ?thesis
  proof (cases a)
    case (Acquire m')
    then have "mutexRank m < mutexRank m'" using run assms(2) by (auto simp: list_all_iff split: if_splits)
    then have "m' \<notin> set taken" using assms(3) [of m'] by auto
    then show ?thesis by (simp add: Cons Acquire)
  qed (use run assms(2) in \<open>auto simp: Cons split: if_splits\<close>)
qed (use assms in \<open>auto simp: threadOrdered_def\<close>)

definition todo :: "thread list \<Rightarrow> nat" where
  "todo s = sum_list (map (length \<circ> snd) s)"

lemma some_holder_moves:
  assumes "locks_inv s" "busy s \<noteq> []"
  obtains i s' where "i < length s" "fst (s ! i) \<noteq> []" "threadStep i s = Some s'" "todo s' < todo s"
proof -
  let ?ranks = "mutexRank ` set (busy s)"
  have "Max ?ranks \<in> ?ranks" by (rule Max_in) (use assms(2) in auto)
  then obtain m where m: "m \<in> set (busy s)" "mutexRank m = Max ?ranks" by auto
  have top: "mutexRank m' \<le> mutexRank m" if "m' \<in> set (busy s)" for m' using that m(2) by simp
  from m(1) obtain t where "t \<in> set s" "m \<in> set (fst t)" unfolding busy_def by auto
  then obtain i where i: "i < length s" "m \<in> set (fst (s ! i))" unfolding in_set_conv_nth [of t] by blast
  obtain held as where t: "s ! i = (held, as)" by fastforce
  have "threadOrdered (held, as)" using assms(1) i(1) by (auto simp: locks_inv_def list_all_length simp flip: t)
  from holder_moves [of held as m "busy s", OF this _ top] i(2) obtain held' a as' where
    a: "as = a # as'" "advance (busy s) (held, as) = Some (held', as')" by (auto simp: t)
  then have "threadStep i s = Some (s[i := (held', as')])" using i(1) by (simp add: threadStep_def t)
  moreover have "todo (s[i := (held', as')]) < todo s"
    using i(1) a(1) t elem_le_sum_list [of i "map (length \<circ> snd) s"] by (simp add: todo_def map_update sum_list_update)
  moreover have "fst (s ! i) \<noteq> []" using i(2) by auto
  ultimately show ?thesis using that i(1) by blast
qed

lemma all_released: "locks_inv s \<Longrightarrow> \<exists>js s'. runHolders js s = Some s' \<and> busy s' = []"
proof (induction "todo s" arbitrary: s rule: less_induct)
  case less
  show ?case
  proof (cases "busy s = []")
    case True
    then show ?thesis by (intro exI [of _ "[]"] exI [of _ s]) simp
  next
    case False
    from some_holder_moves [OF less.prems False] obtain i s1 where
      i: "i < length s" "fst (s ! i) \<noteq> []" "threadStep i s = Some s1" "todo s1 < todo s" .
    from less.hyps [OF i(4) threadStep_inv [OF less.prems i(3)]] obtain js s' where
      "runHolders js s1 = Some s'" "busy s' = []" by blast
    then show ?thesis using i by (intro exI [of _ "i # js"]) simp
  qed
qed

lemma ordered_park: "threadOrdered t \<Longrightarrow> snd t = Park # as \<Longrightarrow> fst t = []"
  by (cases t) (auto simp: threadOrdered_def split: if_splits)

text \<open>
  C6. The broker's mutexes cannot deadlock. In every interleaving of any number of connections, dispatchers and
  scrapes, no mutex is held by two goroutines; a goroutine that waits for its socket, for the write pump or for a signal
  holds no mutex; and from every state the goroutines that hold mutexes can, by themselves, without any wait and without
  taking a mutex that is held, run on until no mutex is held at all. (A scrape hands its metrics to the registry under
  mutexes; the registry takes them.)
\<close>

theorem mutexes_never_deadlock:
  assumes "runThreads is (startThreads gs) = Some s"
  shows "distinct (busy s) \<and> (\<forall>i < length s. \<forall>as. snd (s ! i) = Park # as \<longrightarrow> fst (s ! i) = []) \<and>
    (\<exists>js s'. runHolders js s = Some s' \<and> busy s' = [])"
proof -
  have inv: "locks_inv s" using runThreads_inv [OF startThreads_inv assms] .
  then have "distinct (busy s)" "\<forall>i < length s. \<forall>as. snd (s ! i) = Park # as \<longrightarrow> fst (s ! i) = []"
    using ordered_park by (auto simp: locks_inv_def list_all_length)
  then show ?thesis using all_released [OF inv] by blast
qed

text \<open>A connection that closes while the dispatcher waits for its queue's mutex and a scrape holds the broker's.\<close>

definition exampleGoroutines :: "goroutine list" where
  "exampleGoroutines =
     [ConnectionOf 0 6 None [[(0, 0, True)]], DispatcherOf 0 [(0, [0], Some (0, True))], Scrape [(0, [0])]]"

theorem mutexes_never_deadlock_witness:
  "\<exists>s. runThreads ([2, 2, 2, 2] @ replicate 11 0) (startThreads exampleGoroutines) = Some s \<and> length (busy s) = 4 \<and>
     (\<exists>js s'. runHolders js s = Some s' \<and> busy s' = [])"
proof -
  define r where "r = runThreads ([2, 2, 2, 2] @ replicate 11 0) (startThreads exampleGoroutines)"
  have "map_option (length \<circ> busy) r = Some 4" unfolding r_def by code_simp
  then obtain s where s: "r = Some s" "length (busy s) = 4" by auto
  then show ?thesis using mutexes_never_deadlock [OF s(1) [unfolded r_def]] by (auto simp: r_def)
qed

end
