(* ===== verification/Exposition.thy ===== *)
theory Exposition
  imports Scenarios
begin

text \<open>
  What the broker exposes to Prometheus: the descriptors of its counters (\<^verbatim>\<open>NewMetrics\<close>) and gauges
  (\<^verbatim>\<open>Describe\<close>), and the series of a scrape (\<^verbatim>\<open>Collect\<close>, modelled in \<open>ServerOps\<close>). The registry is outside; it refuses
  descriptors of the same name, a constant metric whose label values do not match its descriptor, and a scrape in
  which two metrics have the same name and label values. The facts say when the broker meets these conditions: always for
  the first two, and for the third exactly while the consumers of each queue have different tags, which default
  tags do not ensure.
\<close>

section \<open>Descriptors\<close>

record desc =
  d_name :: string
  d_help :: string
  d_labels :: "string list"

definition newCounterVec :: "string \<Rightarrow> string \<Rightarrow> string list \<Rightarrow> desc" where
  "newCounterVec name help labels = \<lparr>d_name = name, d_help = help, d_labels = labels\<rparr>"

definition newCounter :: "string \<Rightarrow> string \<Rightarrow> desc" where
  "newCounter name help = \<lparr>d_name = name, d_help = help, d_labels = []\<rparr>"

text \<open>The counters in the order in which they are registered.\<close>

definition counterDescs :: "desc list" where
  "counterDescs =
     [newCounterVec ''golangmq_publish_total'' ''Publish calls accepted for a known exchange'' [''exchange''],
      newCounterVec ''golangmq_publish_unroutable_total'' ''Publish calls that matched 0 queues (silent drop)'' [''exchange''],
      newCounter ''golangmq_publish_errors_total'' ''Publish calls rejected (exchange not found)'',
      newCounterVec ''golangmq_enqueue_total'' ''Messages appended to a queue buffer'' [''queue''],
      newCounterVec ''golangmq_deliver_total'' ''basic.deliver written to a consumer successfully'' [''queue''],
      newCounterVec ''golangmq_deliver_errors_total'' ''Deliver writes that failed (message re-enqueued)'' [''queue''],
      newCounterVec ''golangmq_ack_total'' ''Acks processed'' [''queue''],
      newCounterVec ''golangmq_nack_total'' ''Nacks processed'' [''queue'', ''requeue''],
      newCounterVec ''golangmq_dead_letter_total'' ''Nack without requeue, DLX republish executed'' [''queue''],
      newCounterVec ''golangmq_drop_total'' ''Nack without requeue and no DLX, message discarded'' [''queue''],
      newCounter ''golangmq_connections_opened_total'' ''Connections accepted and registered'',
      newCounter ''golangmq_connections_closed_total'' ''Connections cleaned up'',
      newCounter ''golangmq_handshake_failures_total'' ''Handshakes that failed'',
      newCounterVec ''golangmq_consumers_registered_total'' ''Consumers registered'' [''queue''],
      newCounterVec ''golangmq_consumers_unregistered_total'' ''Consumers removed'' [''queue'']]"

definition queueMessagesDesc :: desc where
  "queueMessagesDesc = \<lparr>d_name = ''golangmq_queue_messages'', d_help = ''Current depth of a queue'', d_labels = [''queue'']\<rparr>"

definition queueConsumersDesc :: desc where
  "queueConsumersDesc = \<lparr>d_name = ''golangmq_queue_consumers'', d_help = ''Current number of consumers on a queue'',
     d_labels = [''queue'']\<rparr>"

definition consumerInflightDesc :: desc where
  "consumerInflightDesc = \<lparr>d_name = ''golangmq_consumer_inflight'', d_help = ''Messages currently inflight for a consumer'',
     d_labels = [''queue'', ''consumer'']\<rparr>"

definition queuesDesc :: desc where
  "queuesDesc = \<lparr>d_name = ''golangmq_queues'', d_help = ''Current number of declared queues'', d_labels = []\<rparr>"

definition exchangesDesc :: desc where
  "exchangesDesc = \<lparr>d_name = ''golangmq_exchanges'', d_help = ''Current number of declared exchanges'', d_labels = []\<rparr>"

definition connectionsDesc :: desc where
  "connectionsDesc = \<lparr>d_name = ''golangmq_connections'', d_help = ''Current number of open connections'', d_labels = []\<rparr>"

definition Describe :: "desc list" where
  "Describe = [queueMessagesDesc, queueConsumersDesc, consumerInflightDesc, queuesDesc, exchangesDesc, connectionsDesc]"

lemmas desc_defs = queueMessagesDesc_def queueConsumersDesc_def consumerInflightDesc_def queuesDesc_def exchangesDesc_def
  connectionsDesc_def

section \<open>Series\<close>

text \<open>The descriptor and the label values that \<^verbatim>\<open>Collect\<close> hands to \<^verbatim>\<open>MustNewConstMetric\<close> for each gauge.\<close>

fun constMetric :: "gauge \<Rightarrow> desc \<times> string list" where
  "constMetric (Connections n) = (connectionsDesc, [])"
| "constMetric (Queues n) = (queuesDesc, [])"
| "constMetric (Exchanges n) = (exchangesDesc, [])"
| "constMetric (QueueMessages q n) = (queueMessagesDesc, [q])"
| "constMetric (QueueConsumers q n) = (queueConsumersDesc, [q])"
| "constMetric (ConsumerInflight q c n) = (consumerInflightDesc, [q, c])"

definition seriesOf :: "gauge \<Rightarrow> string \<times> string list" where
  "seriesOf g = (d_name (fst (constMetric g)), snd (constMetric g))"

text \<open>The server's start registers without a conflict, and no gauge of a scrape disagrees with its descriptor.\<close>

lemma names_distinct: "distinct (map d_name (counterDescs @ Describe))"
  by (simp add: counterDescs_def Describe_def desc_defs newCounterVec_def newCounter_def)

lemma constMetric_matches: "fst (constMetric g) \<in> set Describe \<and> length (snd (constMetric g)) = length (d_labels (fst (constMetric g)))"
  by (cases g) (simp_all add: Describe_def desc_defs)

lemma distinct_concat_keys:
  assumes "distinct qs" "inj_on g (set qs)" "\<And>q x. q \<in> set qs \<Longrightarrow> x \<in> set (f q) \<Longrightarrow> key x = g q"
  shows "distinct (concat (map f qs)) \<longleftrightarrow> (\<forall>q \<in> set qs. distinct (f q))"
  using assms
proof (induction qs)
  case (Cons q qs)
  have "set (f q) \<inter> (\<Union>q' \<in> set qs. set (f q')) = {}"
  proof (rule ccontr)
    assume "set (f q) \<inter> (\<Union>q' \<in> set qs. set (f q')) \<noteq> {}"
    then obtain x q' where "x \<in> set (f q)" "q' \<in> set qs" "x \<in> set (f q')" by auto
    then have "g q = g q'" using Cons.prems(3) [of q x] Cons.prems(3) [of q' x] by simp
    then show False using Cons.prems(1,2) \<open>q' \<in> set qs\<close> by (auto simp: inj_on_def)
  qed
  then show ?case using Cons by simp
qed simp

definition tagsOf :: "world \<Rightarrow> qref \<Rightarrow> string list" where
  "tagsOf w q = map (\<lambda>c. c_tag (w_c w c)) (gm_keys (q_consumers (w_q w q)))"

lemma collectQueue_distinct:
  assumes "orders_ok \<pi>"
  shows "distinct (map seriesOf (collectQueue \<pi> w q)) \<longleftrightarrow> distinct (tagsOf w q)"
proof -
  let ?n = "q_name (w_q w q)" and ?cs = "o_consumers \<pi> q (gm_keys (q_consumers (w_q w q)))"
  have "map seriesOf (collectQueue \<pi> w q) = (d_name queueMessagesDesc, [?n]) # (d_name queueConsumersDesc, [?n]) #
      map (\<lambda>t. (d_name consumerInflightDesc, [?n, t])) (map (\<lambda>c. c_tag (w_c w c)) ?cs)"
    by (simp add: collectQueue_def seriesOf_def)
  then have "distinct (map seriesOf (collectQueue \<pi> w q)) \<longleftrightarrow> distinct (map (\<lambda>c. c_tag (w_c w c)) ?cs)"
    by (auto simp: desc_defs distinct_map inj_on_def)
  moreover have "mset (map (\<lambda>c. c_tag (w_c w c)) ?cs) = mset (tagsOf w q)"
    using assms by (simp add: orders_ok_def tagsOf_def)
  ultimately show ?thesis using mset_eq_imp_distinct_iff by blast
qed

lemma queue_entries:
  assumes "wf_world w" "range_of qs (w_queues w)"
  defines "es \<equiv> entries_in qs (w_queues w)"
  shows "set es = {..<w_nq w}" "distinct es" "inj_on (\<lambda>q. q_name (w_q w q)) (set es)"
proof -
  let ?m = "w_queues w" and ?name = "\<lambda>q. q_name (w_q w q)"
  have ok: "queues_ok w" and wf: "gm_wf ?m" using wf_worldD(1) [OF assms(1)] by (simp_all add: queues_ok_def)
  have es: "mset es = mset (map snd ?m)" unfolding es_def by (rule mset_entries_in [OF assms(2) wf])
  have get: "gm_get ?m n = Some q \<longleftrightarrow> (n, q) \<in> set ?m" for n q
    using wf by (simp add: gm_wf_def gm_keys_def)
  have named: "?name q = n" "q < w_nq w" if "(n, q) \<in> set ?m" for n q
    using that ok unfolding queues_ok_def get by blast+
  then have "map ?name (map snd ?m) = gm_keys ?m" by (auto simp: gm_keys_def)
  then have "distinct (map ?name (map snd ?m))" using wf by (simp only: gm_wf_def)
  then have "distinct (map snd ?m)" "inj_on ?name (set (map snd ?m))" by (simp_all only: distinct_map)
  then show "distinct es" "inj_on ?name (set es)"
    using es mset_eq_imp_distinct_iff mset_eq_setD by (blast, metis)
  have "q \<in> snd ` set ?m" if "q < w_nq w" for q
    using that ok unfolding queues_ok_def get by force
  then have "snd ` set ?m = {..<w_nq w}" using named(2) by auto
  then show "set es = {..<w_nq w}" using mset_eq_setD [OF es] by simp
qed

text \<open>The label value that says which queue a series is about.\<close>

lemma collectQueue_key: "s \<in> set (map seriesOf (collectQueue \<pi> w q)) \<Longrightarrow> hd (snd s) = q_name (w_q w q) \<and> snd s \<noteq> []"
  by (auto simp: collectQueue_def seriesOf_def)

text \<open>
  C26. When a scrape succeeds: in every reachable state and for every order in which the maps are visited, the gauges
  have no two series with the same name and label values, which the registry refuses, exactly while no two consumers of one
  queue have the same tag. (Tags are only unique per channel, and default tags repeat between connections: the
  witness is a server on which two clients consume from one queue without naming a tag, and its scrapes fail.)
\<close>

theorem scrape_series:
  assumes "server_reachable w" "orders_ok \<pi>" "range_of qs (w_queues w)"
  shows "distinct (map seriesOf (Collect \<pi> qs w)) \<longleftrightarrow> (\<forall>q < w_nq w. distinct (tagsOf w q))"
proof -
  let ?f = "\<lambda>q. map seriesOf (collectQueue \<pi> w q)" and ?es = "entries_in qs (w_queues w)"
  have "wf_world w" using server.inv_reachable [OF assms(1)] by (rule broker_invD)
  note es = queue_entries [OF this assms(3)]
  have "map seriesOf (Collect \<pi> qs w) = (d_name connectionsDesc, []) # (d_name queuesDesc, []) # (d_name exchangesDesc, []) #
      concat (map ?f ?es)"
    by (simp add: Collect_def seriesOf_def map_concat comp_def)
  moreover have "(d, []) \<notin> set (concat (map ?f ?es))" for d
    using collectQueue_key [of "(d, [])"] by auto
  ultimately have "distinct (map seriesOf (Collect \<pi> qs w)) \<longleftrightarrow> distinct (concat (map ?f ?es))"
    by (simp only: distinct.simps) (simp add: desc_defs)
  also have "\<dots> \<longleftrightarrow> (\<forall>q \<in> set ?es. distinct (?f q))"
    by (rule distinct_concat_keys [OF es(2,3), where key = "\<lambda>s. hd (snd s)"]) (use collectQueue_key in blast)
  finally show ?thesis by (auto simp: es(1) collectQueue_distinct [OF assms(2)])
qed

definition twoWorkers :: world where
  "twoWorkers = client [openReq, consumeReq ''q'' []] (client [openReq, queueReq ''q'' [], consumeReq ''q'' []] (NewServer demo_config))"

lemma twoWorkers_state:
  "w_nq twoWorkers = 1" "gm_keys (w_queues twoWorkers) = [''q'']" "tagsOf twoWorkers 0 = [''ch.1.consumer.1'', ''ch.1.consumer.1'']"
proof -
  have "formatUint 10 (Suc 0) = ''1''" by code_simp
  then show "w_nq twoWorkers = 1" "gm_keys (w_queues twoWorkers) = [''q'']"
    "tagsOf twoWorkers 0 = [''ch.1.consumer.1'', ''ch.1.consumer.1'']"
    by (simp_all add: twoWorkers_def tagsOf_def client_def start_defs run_defs)
qed

theorem scrape_series_witness:
  "server_reachable twoWorkers \<and> \<not> distinct (map seriesOf (Collect id_orders [''q''] twoWorkers))"
proof -
  have "server_reachable (NewServer demo_config)" by (rule reachable.intros) (auto simp: server_start_def)
  then have r: "server_reachable twoWorkers"
    unfolding twoWorkers_def by (intro reachable_client) (simp_all add: request_defs)
  then show ?thesis using scrape_series [OF r orders_ok_id, of "[''q'']"]
    by (simp add: range_of_def twoWorkers_state)
qed

end
