(* ===== verification/Deviations.thy ===== *)
theory Deviations
  imports Scenarios
begin

text \<open>
  Runs of the server on which it does not do what its answers or its counters say. Each is a reachable state, reached by
  the requests of one client.
\<close>

section \<open>A binding that does not exist\<close>

definition bindNothing :: world where
  "bindNothing = client [openReq, bindReq ''q'' ''x'' ''k''] (NewServer demo_config)"

text \<open>The client is told bind-ok although neither the exchange nor the queue exists.\<close>

lemma bind_ok_for_nothing:
  "last (cn_out (w_cn bindNothing 0)) = marshal_Envelope (frame 1 QueueBindOKType marshal_QueueBindOK)"
  "w_exchanges bindNothing = []" "w_queues bindNothing = []"
  by (simp_all add: bindNothing_def client_def start_defs run_defs frame_def)

section \<open>A channel opened twice\<close>

definition reopened :: world where
  "reopened = client [openReq, queueReq ''q'' [], consumeReq ''q'' ''t'', openReq] (NewServer demo_config)"

text \<open>
  The consumer of the first channel stays on the queue when its channel id is opened again, and even after the
  connection has closed; the queue goes on choosing it.
\<close>

lemma reopened_consumer_stays:
  "gm_keys (q_consumers (w_q (closeConn id_orders 0 reopened) 0)) = [0]" "w_connections (closeConn id_orders 0 reopened) = []"
  by (simp_all add: reopened_def client_def start_defs run_defs closeConn_def shutdown_def connCleanup_def chanCleanup_def
      openChannels_def)

section \<open>A dead letter that goes nowhere\<close>

definition lostLetter :: world where
  "lostLetter = HandleNack id_orders 0 (nackReq 1 (Some False)) (demoInflight ''missing'')"

text \<open>
  The dead-letter exchange of the queue was never declared: the message is gone, no error is written, and it is counted
  as dead-lettered.
\<close>

lemma dead_letter_counted_but_lost:
  "mt_DeadLettered (w_metrics lostLetter) ''q'' = 1" "w_nq lostLetter = 1" "q_messages (w_q lostLetter 0) = [msg8]"
  "c_pendingMessages (w_c lostLetter 0) = []" "cn_out (w_cn lostLetter 0) = cn_out (w_cn (demoInflight ''missing'') 0)"
  by (simp_all add: lostLetter_def demoInflight_eq demoWorld_def NewMetrics_def run_defs msg7_def releaseMessage_def gm_has_def)

section \<open>An ack with two meanings\<close>

definition twoQueues :: world where
  "twoQueues = client [openReq, exchangeReq ''x'', queueReq ''q'' [], queueReq ''r'' [], bindReq ''q'' ''x'' ''k'',
     bindReq ''r'' ''x'' ''k'', consumeReq ''q'' ''t'', consumeReq ''r'' ''u'', publishReq ''x'' ''k'' [7]] (NewServer demo_config)"

definition ambiguous :: world where
  "ambiguous = snd (dispatchOnce id_orders 1 (snd (dispatchOnce id_orders 0 twoQueues)))"

text \<open>Which of two deliveries with tag 1 an ack of tag 1 settles depends on the order in which Go ranges over a map.\<close>

lemma twoQueues_parts:
  "w_nq twoQueues = 2" "w_queues twoQueues = [(''q'', 0), (''r'', 1)]" "mt_Acked (w_metrics twoQueues) = (\<lambda>_. 0)"
  "w_q twoQueues 0 = \<lparr>q_name = ''q'', q_messages = [msg7], q_consumers = [(0, ())], q_nextTag = 2, q_dlx = [], q_dlxRoutingKey = []\<rparr>"
  "w_q twoQueues 1 = \<lparr>q_name = ''r'', q_messages = [msg7], q_consumers = [(1, ())], q_nextTag = 2, q_dlx = [], q_dlxRoutingKey = []\<rparr>"
  "w_c twoQueues 0 = \<lparr>c_tag = ''t'', c_queue = 0, c_channel = 0, c_prefetch = 10, c_inflight = 0, c_inflightTags = [], c_pendingMessages = []\<rparr>"
  "w_c twoQueues 1 = \<lparr>c_tag = ''u'', c_queue = 1, c_channel = 0, c_prefetch = 10, c_inflight = 0, c_inflightTags = [], c_pendingMessages = []\<rparr>"
  "w_ch twoQueues 0 = \<lparr>ch_id = 1, ch_conn = 0, ch_consumers = [(''t'', 0), (''u'', 1)]\<rparr>"
  "cn_closed (w_cn twoQueues 0) = False" "cn_netok (w_cn twoQueues 0) = True"
  by (simp_all add: twoQueues_def client_def start_defs run_defs NewMetrics_def msg7_def gm_has_def)

lemmas dispatch_defs = dispatchOnce_def selectConsumer_def hasRoom_def takeMessage_def holdMessage_def id_orders_def
  WriteEnvelope_def send_def deliverFrame_def Let_def

lemma ambiguous_parts:
  "w_nq (snd (dispatchOnce id_orders 0 twoQueues)) = 2"
  "w_queues ambiguous = [(''q'', 0), (''r'', 1)]" "mt_Acked (w_metrics ambiguous) = (\<lambda>_. 0)"
  "q_consumers (w_q ambiguous 0) = [(0, ())]" "q_consumers (w_q ambiguous 1) = [(1, ())]"
  "q_name (w_q ambiguous 0) = ''q''" "q_name (w_q ambiguous 1) = ''r''"
  "c_inflightTags (w_c ambiguous 0) = [(1, ())]" "c_inflightTags (w_c ambiguous 1) = [(1, ())]"
  "c_queue (w_c ambiguous 0) = 0" "c_queue (w_c ambiguous 1) = 1"
  "ch_consumers (w_ch ambiguous 0) = [(''t'', 0), (''u'', 1)]"
  by (simp_all add: ambiguous_def dispatch_defs twoQueues_parts twoQueues_parts [unfolded One_nat_def] msg7_def)

lemma ack_is_ambiguous:
  "mt_Acked (w_metrics (HandleAck id_orders 0 (ackReq 1) ambiguous)) ''q'' = 1"
  "mt_Acked (w_metrics (HandleAck rev_orders 0 (ackReq 1) ambiguous)) ''q'' = 0"
  "mt_Acked (w_metrics (HandleAck rev_orders 0 (ackReq 1) ambiguous)) ''r'' = 1"
  by (simp_all add: HandleAck_def ackReq_def ack.decode_marshal channelConsumers_def entries_in_def map_filter_def id_orders_def
      rev_orders_def Ack_def ambiguous_parts ambiguous_parts [unfolded One_nat_def] gm_has_def Let_def)

section \<open>The runs are reachable\<close>

lemma reachable_deviations:
  "server_reachable bindNothing" "server_reachable reopened" "server_reachable ambiguous"
proof -
  have start: "server_reachable (NewServer demo_config)" by (rule reachable.intros) (auto simp: server_start_def)
  show "server_reachable bindNothing" "server_reachable reopened"
    unfolding bindNothing_def reopened_def by (intro reachable_client start; simp add: request_defs)+
  have two: "server_reachable twoQueues"
    unfolding twoQueues_def by (intro reachable_client start) (simp add: request_defs)
  show "server_reachable ambiguous"
    unfolding ambiguous_def by (intro reachable_dispatch two) (simp_all add: twoQueues_parts(1) ambiguous_parts(1))
qed

end
