(* ===== verification/Utf8.thy ===== *)
theory Utf8
  imports Main
begin

text \<open>
  What \<^verbatim>\<open>encoding/json\<close> uses of Go's package \<^verbatim>\<open>unicode/utf8\<close>. A Go string is a sequence of bytes, here characters
  with codes below 256; a rune is a number. \<open>decodeRune\<close> is \<^verbatim>\<open>DecodeRuneInString\<close>, with \<open>None\<close> where Go returns the
  replacement character and width 1 for a byte that starts no rune. The laws are that encoding and decoding are
  inverse, and that a string is valid exactly when it is the encoding of some runes.
\<close>

section \<open>Runes\<close>

abbreviation code :: "char \<Rightarrow> nat" where
  "code c \<equiv> of_char c"

definition validRune :: "nat \<Rightarrow> bool" where
  "validRune r \<longleftrightarrow> r < 0xD800 \<or> 0xE000 \<le> r \<and> r \<le> 0x10FFFF"

definition replacementChar :: nat where
  "replacementChar = 0xFFFD"

definition encodeRune :: "nat \<Rightarrow> string" where
  "encodeRune rune =
     (let r = (if validRune rune then rune else replacementChar) in
      if r < 0x80 then [char_of r]
      else if r < 0x800 then [char_of (0xC0 + r div 64), char_of (0x80 + r mod 64)]
      else if r < 0x10000 then
        [char_of (0xE0 + r div 4096), char_of (0x80 + r div 64 mod 64), char_of (0x80 + r mod 64)]
      else
        [char_of (0xF0 + r div 262144), char_of (0x80 + r div 4096 mod 64), char_of (0x80 + r div 64 mod 64),
         char_of (0x80 + r mod 64)])"

definition continues :: "char \<Rightarrow> bool" where
  "continues c \<longleftrightarrow> 0x80 \<le> code c \<and> code c < 0xC0"

definition low6 :: "char \<Rightarrow> nat" where
  "low6 c = code c - 0x80"

definition shortest :: "nat \<Rightarrow> nat \<Rightarrow> nat \<Rightarrow> (nat \<times> nat) option" where
  "shortest least width r = (if least \<le> r \<and> validRune r then Some (r, width) else None)"

fun decodeRune :: "string \<Rightarrow> (nat \<times> nat) option" where
  "decodeRune [] = None"
| "decodeRune (c # s) =
     (if code c < 0x80 then Some (code c, 1)
      else if code c < 0xC0 then None
      else if code c < 0xE0 then
        (case s of
           c1 # _ \<Rightarrow> if continues c1 then shortest 0x80 2 ((code c - 0xC0) * 64 + low6 c1) else None
         | _ \<Rightarrow> None)
      else if code c < 0xF0 then
        (case s of
           c1 # c2 # _ \<Rightarrow>
             if continues c1 \<and> continues c2 then shortest 0x800 3 ((code c - 0xE0) * 4096 + low6 c1 * 64 + low6 c2) else None
         | _ \<Rightarrow> None)
      else if code c < 0xF8 then
        (case s of
           c1 # c2 # c3 # _ \<Rightarrow>
             if continues c1 \<and> continues c2 \<and> continues c3
             then shortest 0x10000 4 ((code c - 0xF0) * 262144 + low6 c1 * 4096 + low6 c2 * 64 + low6 c3)
             else None
         | _ \<Rightarrow> None)
      else None)"

section \<open>Encoding and decoding\<close>

lemma code_char_of [simp]: "n < 256 \<Longrightarrow> code (char_of n) = n"
  by simp

lemma continues_low [simp]: "k < 64 \<Longrightarrow> continues (char_of (0x80 + k)) \<and> low6 (char_of (0x80 + k)) = k"
  by (simp add: continues_def low6_def)

lemma rune_pieces:
  "(r::nat) div 64 * 64 + r mod 64 = r"
  "r div 4096 * 4096 + r div 64 mod 64 * 64 + r mod 64 = r"
  "r div 262144 * 262144 + r div 4096 mod 64 * 4096 + r div 64 mod 64 * 64 + r mod 64 = r"
proof -
  have 1: "r div 64 * 64 + r mod 64 = r" for r :: nat by simp
  have d: "r div 64 div 64 = r div 4096" "r div 4096 div 64 = r div 262144" by (simp_all flip: div_mult2_eq)
  show "r div 64 * 64 + r mod 64 = r" by (rule 1)
  show 2: "r div 4096 * 4096 + r div 64 mod 64 * 64 + r mod 64 = r"
    using 1 [of r] 1 [of "r div 64"] unfolding d(1) by linarith
  show "r div 262144 * 262144 + r div 4096 mod 64 * 4096 + r div 64 mod 64 * 64 + r mod 64 = r"
    using 2 1 [of "r div 4096"] unfolding d(2) by linarith
qed

lemma decode_encodeRune:
  assumes "validRune r"
  shows "decodeRune (encodeRune r @ s) = Some (r, length (encodeRune r))"
proof -
  have top: "r \<le> 0x10FFFF" using assms by (auto simp: validRune_def)
  consider "r < 0x80" | "0x80 \<le> r" "r < 0x800" | "0x800 \<le> r" "r < 0x10000" | "0x10000 \<le> r" by linarith
  then show ?thesis
  proof cases
    case 1
    then show ?thesis using assms by (simp add: encodeRune_def)
  next
    case 2
    have "r div 64 < 32" using 2 by (simp add: div_less_iff_less_mult)
    with 2 assms show ?thesis by (simp add: encodeRune_def shortest_def rune_pieces)
  next
    case 3
    have "r div 4096 < 16" using 3 by (simp add: div_less_iff_less_mult)
    with 3 assms show ?thesis by (simp add: encodeRune_def shortest_def rune_pieces)
  next
    case 4
    have "r div 262144 < 8" using top by (simp add: div_less_iff_less_mult)
    with 4 assms show ?thesis by (simp add: encodeRune_def shortest_def rune_pieces)
  qed
qed

text \<open>The other direction: what was decoded is the shortest encoding of its rune.\<close>

lemma continuesE:
  assumes "continues c"
  obtains k where "k < 64" "c = char_of (0x80 + k)" "low6 c = k"
proof -
  have "low6 c < 64" using assms unfolding continues_def low6_def by linarith
  moreover have "c = char_of (0x80 + low6 c)" using assms by (simp add: continues_def low6_def)
  ultimately show ?thesis using that by blast
qed

lemma encode_two: "h < 32 \<Longrightarrow> k < 64 \<Longrightarrow> 0x80 \<le> h * 64 + k \<Longrightarrow> encodeRune (h * 64 + k) = [char_of (0xC0 + h), char_of (0x80 + k)]"
  by (simp add: encodeRune_def validRune_def)

lemma encode_three:
  assumes "h < 16" "k1 < 64" "k2 < 64" "0x800 \<le> r" "validRune r" "r = h * 4096 + k1 * 64 + k2"
  shows "encodeRune r = [char_of (0xE0 + h), char_of (0x80 + k1), char_of (0x80 + k2)]"
proof -
  have "r = (h * 64 + k1) * 64 + k2" using assms(6) by simp
  then have d: "r div 64 = h * 64 + k1" "r mod 64 = k2" using assms(3) by (simp_all only: div_mult_self3 mod_mult_self3 div_less mod_less)
  have "r div 4096 = r div 64 div 64" by (simp flip: div_mult2_eq)
  then have "r div 4096 = h" using assms(2) d by simp
  moreover have "r < 0x10000" using assms(1-3,6) by simp
  ultimately show ?thesis using assms d by (simp add: encodeRune_def)
qed

lemma encode_four:
  assumes "h < 8" "k1 < 64" "k2 < 64" "k3 < 64" "0x10000 \<le> r" "validRune r" "r = h * 262144 + k1 * 4096 + k2 * 64 + k3"
  shows "encodeRune r = [char_of (0xF0 + h), char_of (0x80 + k1), char_of (0x80 + k2), char_of (0x80 + k3)]"
proof -
  have "r = ((h * 64 + k1) * 64 + k2) * 64 + k3" using assms(7) by simp
  then have d: "r div 64 = (h * 64 + k1) * 64 + k2" "r mod 64 = k3" using assms(4) by (simp_all only: div_mult_self3 mod_mult_self3 div_less mod_less)
  have "r div 4096 = r div 64 div 64" by (simp flip: div_mult2_eq)
  then have e: "r div 4096 = h * 64 + k1" using assms(3) d by simp
  have f: "r div 64 mod 64 = k2" unfolding d(1) using assms(3) by (simp only: mod_mult_self3 mod_less)
  have "r div 262144 = r div 4096 div 64" by (simp flip: div_mult2_eq)
  then have "r div 262144 = h" using assms(2) e by simp
  then show ?thesis using assms(2-6) d(2) e f by (simp add: encodeRune_def)
qed

lemma decodeRune_decomp:
  assumes "decodeRune s = Some (r, k)"
  shows "validRune r \<and> s = encodeRune r @ drop k s \<and> k = length (encodeRune r)"
proof -
  obtain c t where s: "s = c # t" using assms by (cases s) auto
  consider "code c < 0x80" | "0xC0 \<le> code c" "code c < 0xE0" | "0xE0 \<le> code c" "code c < 0xF0"
    | "0xF0 \<le> code c" "code c < 0xF8"
    using assms s by (fastforce split: if_splits)
  then show ?thesis
  proof cases
    case 1
    then show ?thesis using assms by (auto simp: s encodeRune_def validRune_def)
  next
    case 2
    then obtain c1 u where t: "t = c1 # u" and c1: "continues c1" "shortest 0x80 2 ((code c - 0xC0) * 64 + low6 c1) = Some (r, k)"
      using assms by (auto simp: s split: list.splits if_splits)
    from c1(1) obtain k1 where k1: "k1 < 64" "c1 = char_of (0x80 + k1)" "low6 c1 = k1" by (rule continuesE)
    have c: "c = char_of (0xC0 + (code c - 0xC0))" using 2 by simp
    show ?thesis using encode_two [of "code c - 0xC0" k1] c1(2) k1 2 c by (auto simp: s t shortest_def split: if_splits)
  next
    case 3
    then obtain c1 c2 u where t: "t = c1 # c2 # u" and c1: "continues c1" "continues c2"
      "shortest 0x800 3 ((code c - 0xE0) * 4096 + low6 c1 * 64 + low6 c2) = Some (r, k)"
      using assms by (auto simp: s split: list.splits if_splits)
    from c1(1) obtain k1 where k1: "k1 < 64" "c1 = char_of (0x80 + k1)" "low6 c1 = k1" by (rule continuesE)
    from c1(2) obtain k2 where k2: "k2 < 64" "c2 = char_of (0x80 + k2)" "low6 c2 = k2" by (rule continuesE)
    have c: "c = char_of (0xE0 + (code c - 0xE0))" using 3 by simp
    show ?thesis using encode_three [of "code c - 0xE0" k1 k2 r] c1(3) k1 k2 3 c by (auto simp: s t shortest_def split: if_splits)
  next
    case 4
    then obtain c1 c2 c3 u where t: "t = c1 # c2 # c3 # u" and c1: "continues c1" "continues c2" "continues c3"
      "shortest 0x10000 4 ((code c - 0xF0) * 262144 + low6 c1 * 4096 + low6 c2 * 64 + low6 c3) = Some (r, k)"
      using assms by (auto simp: s split: list.splits if_splits)
    from c1(1) obtain k1 where k1: "k1 < 64" "c1 = char_of (0x80 + k1)" "low6 c1 = k1" by (rule continuesE)
    from c1(2) obtain k2 where k2: "k2 < 64" "c2 = char_of (0x80 + k2)" "low6 c2 = k2" by (rule continuesE)
    from c1(3) obtain k3 where k3: "k3 < 64" "c3 = char_of (0x80 + k3)" "low6 c3 = k3" by (rule continuesE)
    have c: "c = char_of (0xF0 + (code c - 0xF0))" using 4 by simp
    show ?thesis using encode_four [of "code c - 0xF0" k1 k2 k3 r] c1(4) k1 k2 k3 4 c by (auto simp: s t shortest_def split: if_splits)
  qed
qed

lemma encodeRune_not_Nil [simp]: "encodeRune r \<noteq> []" "0 < length (encodeRune r)"
  by (simp_all add: encodeRune_def Let_def)

lemma validRune_replacement [simp]: "validRune replacementChar"
  by (simp add: validRune_def replacementChar_def)

lemma encodeRune_invalid: "\<not> validRune r \<Longrightarrow> encodeRune r = encodeRune replacementChar"
  by (simp add: encodeRune_def)

lemma encodeRune_ascii: "r < 0x80 \<Longrightarrow> encodeRune r = [char_of r]"
  by (simp add: encodeRune_def validRune_def)

text \<open>No byte of a rune beyond ASCII is an ASCII character.\<close>

lemma encodeRune_high:
  assumes "0x80 \<le> r" "c \<in> set (encodeRune r)"
  shows "0x80 \<le> code c"
proof -
  obtain q where q: "encodeRune r = encodeRune q" "validRune q" "0x80 \<le> q"
  proof (cases "validRune r")
    case False
    then show thesis using that [of replacementChar] encodeRune_invalid [of r] by (simp add: replacementChar_def validRune_def)
  qed (use assms(1) that in blast)
  have "q div 64 < 32 \<or> 0x800 \<le> q" "q div 4096 < 16 \<or> 0x10000 \<le> q" "q div 262144 < 8"
    using q(2) by (auto simp: div_less_iff_less_mult validRune_def)
  moreover have "q mod 64 < 64" "q div 64 mod 64 < 64" "q div 4096 mod 64 < 64" by simp_all
  ultimately show ?thesis using q(2,3) assms(2) unfolding q(1) by (auto simp: encodeRune_def split: if_splits)
qed

section \<open>Strings\<close>

text \<open>A string piece by piece, as a loop over it sees it: its runes, and \<open>None\<close> for each byte that starts none.\<close>

function pieces :: "string \<Rightarrow> nat option list" where
  "pieces s =
     (if s = [] then []
      else case decodeRune s of
             None \<Rightarrow> None # pieces (tl s)
           | Some (r, k) \<Rightarrow> Some r # pieces (drop k s))"
  by pat_completeness auto

termination
  by (relation "measure length") (auto dest!: decodeRune_decomp)

declare pieces.simps [simp del]

definition validUtf8 :: "string \<Rightarrow> bool" where
  "validUtf8 s \<longleftrightarrow> None \<notin> set (pieces s)"

definition utf8 :: "nat list \<Rightarrow> string" where
  "utf8 rs = concat (map encodeRune rs)"

lemma utf8_simps [simp]: "utf8 [] = []" "utf8 (r # rs) = encodeRune r @ utf8 rs" "utf8 (rs @ rs') = utf8 rs @ utf8 rs'"
  by (simp_all add: utf8_def)

lemma pieces_Nil [simp]: "pieces [] = []"
  by (simp add: pieces.simps)

lemma pieces_rune: "validRune r \<Longrightarrow> pieces (encodeRune r @ s) = Some r # pieces s"
  by (subst pieces.simps) (simp add: decode_encodeRune)

lemma pieces_utf8: "list_all validRune rs \<Longrightarrow> pieces (utf8 rs) = map Some rs"
  by (induction rs) (simp_all add: pieces_rune)

lemma pieces_valid: "Some r \<in> set (pieces s) \<Longrightarrow> validRune r"
proof (induction s rule: pieces.induct)
  case (1 s)
  then show ?case
    by (subst (asm) pieces.simps) (auto split: if_splits option.splits dest: decodeRune_decomp)
qed

text \<open>A valid string is the encoding of its runes.\<close>

lemma validUtf8_runes:
  assumes "validUtf8 s"
  obtains rs where "s = utf8 rs" "list_all validRune rs"
proof -
  have "\<exists>rs. s = utf8 rs \<and> list_all validRune rs" using assms
  proof (induction s rule: pieces.induct)
    case (1 s)
    show ?case
    proof (cases "s = []")
      case False
      then have "decodeRune s \<noteq> None" using "1.prems" by (auto simp: validUtf8_def pieces.simps [of s] split: option.splits)
      then obtain r k where d: "decodeRune s = Some (r, k)" by auto
      then have "validUtf8 (drop k s)" using "1.prems" False by (simp add: validUtf8_def pieces.simps [of s])
      with "1.IH"(2) [OF False d refl] obtain rs where "drop k s = utf8 rs" "list_all validRune rs" by blast
      with decodeRune_decomp [OF d] show ?thesis by (intro exI [of _ "r # rs"]) simp
    qed (auto intro: exI [of _ "[]"])
  qed
  then show ?thesis using that by blast
qed

lemma valid_utf8 [simp]: "list_all validRune rs \<Longrightarrow> validUtf8 (utf8 rs)"
  by (auto simp: validUtf8_def pieces_utf8)

definition ascii :: "string \<Rightarrow> bool" where
  "ascii s \<longleftrightarrow> list_all (\<lambda>c. code c < 0x80) s"

lemma ascii_runes: "ascii s \<Longrightarrow> s = utf8 (map code s) \<and> list_all validRune (map code s)"
  by (induction s) (simp_all add: ascii_def encodeRune_def validRune_def)

lemma ascii_valid: "ascii s \<Longrightarrow> validUtf8 s"
  using ascii_runes [of s] valid_utf8 [of "map code s"] by simp

lemma validUtf8_append [simp]: "validUtf8 s \<Longrightarrow> validUtf8 t \<Longrightarrow> validUtf8 (s @ t)"
proof -
  assume "validUtf8 s" "validUtf8 t"
  then obtain rs rs' where "s = utf8 rs" "list_all validRune rs" "t = utf8 rs'" "list_all validRune rs'"
    by (metis validUtf8_runes)
  then show ?thesis using valid_utf8 [of "rs @ rs'"] by simp
qed

lemma validUtf8_encodeRune [simp]: "validUtf8 (encodeRune r)"
proof (cases "validRune r")
  case True
  then show ?thesis using valid_utf8 [of "[r]"] by simp
next
  case False
  then show ?thesis using valid_utf8 [of "[replacementChar]"] by (simp add: encodeRune_invalid)
qed

lemma validUtf8_Nil [simp]: "validUtf8 []"
  by (simp add: validUtf8_def)

end
