(* ===== verification/JsonText.thy ===== *)
theory JsonText
  imports JSON Utf8
begin

text \<open>
  The text of JSON as \<^verbatim>\<open>encoding/json\<close> writes and reads it, byte by byte. \<open>json_text\<close> is what \<^verbatim>\<open>json.Marshal\<close> makes of
  a value: no spaces, and strings with the escapes of its encoder (control characters, quotes, the three characters
  special in HTML, the two line separators, and the replacement character for bytes that are not UTF-8). \<open>parseText\<close> is
  the scanner and decoder of \<^verbatim>\<open>json.Unmarshal\<close> up to the value, with Go's limit of 10000 nested arrays and objects.

  The main facts: reading back what was written gives the same value, and whatever can be read at all consists of
  valid UTF-8 and numbers, so that it is written and read back unchanged. No text contains a newline, which is what
  the framing by lines relies on.
\<close>

section \<open>Writing\<close>

definition hex4 :: "nat \<Rightarrow> string" where
  "hex4 n = [digit_char (n div 4096 mod 16), digit_char (n div 256 mod 16), digit_char (n div 16 mod 16), digit_char (n mod 16)]"

definition escRune :: "nat \<Rightarrow> string" where
  "escRune r =
     (if r = 0x22 \<or> r = 0x5C then [CHR 0x5C, char_of r]
      else if r = 0x08 then [CHR 0x5C, CHR ''b'']
      else if r = 0x0C then [CHR 0x5C, CHR ''f'']
      else if r = 0x0A then [CHR 0x5C, CHR ''n'']
      else if r = 0x0D then [CHR 0x5C, CHR ''r'']
      else if r = 0x09 then [CHR 0x5C, CHR ''t'']
      else if r < 0x20 \<or> r = 0x3C \<or> r = 0x3E \<or> r = 0x26 \<or> r = 0x2028 \<or> r = 0x2029 then [CHR 0x5C, CHR ''u''] @ hex4 r
      else encodeRune r)"

definition quoteText :: "string \<Rightarrow> string" where
  "quoteText s =
     CHR 0x22 # concat (map (\<lambda>p. case p of Some r \<Rightarrow> escRune r | None \<Rightarrow> [CHR 0x5C, CHR ''u''] @ hex4 replacementChar) (pieces s)) @ [CHR 0x22]"

primrec json_text :: "json \<Rightarrow> string" where
  "json_text JNull = ''null''"
| "json_text (JBool b) = (if b then ''true'' else ''false'')"
| "json_text (JNum lit) = lit"
| "json_text (JStr s) = quoteText s"
| "json_text (JArr js) = CHR ''['' # join '','' (map json_text js) @ '']''"
| "json_text (JObj kvs) =
     CHR ''{'' # join '','' (map (\<lambda>(k, t). quoteText k @ CHR '':'' # t) (map (map_prod id json_text) kvs)) @ ''}''"

section \<open>Reading strings\<close>

definition hexVal :: "char \<Rightarrow> nat option" where
  "hexVal c =
     (if 48 \<le> code c \<and> code c \<le> 57 then Some (code c - 48)
      else if 97 \<le> code c \<and> code c \<le> 102 then Some (code c - 87)
      else if 65 \<le> code c \<and> code c \<le> 70 then Some (code c - 55)
      else None)"

fun getu4 :: "string \<Rightarrow> nat option" where
  "getu4 (a # b # c # d # _) =
     (case (hexVal a, hexVal b, hexVal c, hexVal d) of
        (Some x, Some y, Some z, Some w) \<Rightarrow> Some (x * 4096 + y * 256 + z * 16 + w)
      | _ \<Rightarrow> None)"
| "getu4 _ = None"

text \<open>\<^verbatim>\<open>utf16.DecodeRune\<close> on the two halves of a pair.\<close>

definition surrogatePair :: "nat \<Rightarrow> nat \<Rightarrow> nat option" where
  "surrogatePair r1 r2 =
     (if 0xD800 \<le> r1 \<and> r1 < 0xDC00 \<and> 0xDC00 \<le> r2 \<and> r2 < 0xE000
      then Some ((r1 - 0xD800) * 1024 + (r2 - 0xDC00) + 0x10000) else None)"

text \<open>After \<^verbatim>\<open>\u\<close>: a rune, a pair of them, or half a pair, which becomes the replacement character.\<close>

definition unescapeU :: "string \<Rightarrow> (string \<times> string) option" where
  "unescapeU t =
     (case getu4 t of
        None \<Rightarrow> None
      | Some rr \<Rightarrow>
          (let rest = drop 4 t;
               second = (if take 2 rest = [CHR 0x5C, CHR ''u''] then getu4 (drop 2 rest) else None) in
           case (case second of None \<Rightarrow> None | Some rr1 \<Rightarrow> surrogatePair rr rr1) of
             Some r \<Rightarrow> Some (encodeRune r, drop 6 rest)
           | None \<Rightarrow> Some (encodeRune rr, rest)))"

definition simpleEscape :: "char \<Rightarrow> char option" where
  "simpleEscape c = map_of
     [(CHR 0x22, CHR 0x22), (CHR 0x5C, CHR 0x5C), (CHR ''/'', CHR ''/''), (CHR ''b'', CHR 0x08), (CHR ''f'', CHR 0x0C),
      (CHR ''n'', CHR 0x0A), (CHR ''r'', CHR 0x0D), (CHR ''t'', CHR 0x09)] c"

text \<open>The next piece of the content of a string, with what it stands for.\<close>

definition scanPiece :: "string \<Rightarrow> (string \<times> string) option" where
  "scanPiece s =
     (case s of
        [] \<Rightarrow> None
      | c # t \<Rightarrow>
          if c = CHR 0x5C then
            (case t of
               [] \<Rightarrow> None
             | e # u \<Rightarrow>
                 if e = CHR ''u'' then unescapeU u
                 else map_option (\<lambda>x. ([x], u)) (simpleEscape e))
          else if code c < 0x20 then None
          else case decodeRune s of
                 None \<Rightarrow> Some (encodeRune replacementChar, t)
               | Some (r, k) \<Rightarrow> Some (encodeRune r, drop k s))"

lemma scanPiece_shorter: "scanPiece s = Some (x, t) \<Longrightarrow> length t < length s"
proof -
  assume S: "scanPiece s = Some (x, t)"
  then obtain c u where s: "s = c # u" by (cases s) (auto simp: scanPiece_def)
  have esc: "length t \<le> length v" if "unescapeU v = Some (x, t)" for v
    using that by (auto simp: unescapeU_def Let_def split: option.splits if_splits)
  show ?thesis
  proof (cases "c = CHR 0x5C")
    case True
    with S s show ?thesis by (auto simp: scanPiece_def split: list.splits if_splits dest!: esc)
  next
    case False
    with S s show ?thesis using decodeRune_decomp [of s]
      by (auto simp: scanPiece_def split: if_splits option.splits)
  qed
qed

function scanString :: "string \<Rightarrow> (string \<times> string) option" where
  "scanString s =
     (if s = [] then None
      else if hd s = CHR 0x22 then Some ([], tl s)
      else case scanPiece s of
             None \<Rightarrow> None
           | Some (x, t) \<Rightarrow> map_option (\<lambda>(v, u). (x @ v, u)) (scanString t))"
  by pat_completeness auto

termination
  by (relation "measure length") (auto dest: scanPiece_shorter)

declare scanString.simps [simp del]

section \<open>Reading numbers\<close>

definition intPart :: "string \<Rightarrow> (string \<times> string) option" where
  "intPart s =
     (if s = [] \<or> \<not> is_digit (hd s) then None
      else if hd s = CHR ''0'' then Some (''0'', tl s)
      else Some (takeWhile is_digit s, dropWhile is_digit s))"

text \<open>What follows a point or an exponent: at least one digit.\<close>

definition digits1 :: "string \<Rightarrow> string \<Rightarrow> (string \<times> string) option" where
  "digits1 lead s = (if takeWhile is_digit s = [] then None else Some (lead @ takeWhile is_digit s, dropWhile is_digit s))"

definition fracPart :: "string \<Rightarrow> (string \<times> string) option" where
  "fracPart s = (if s \<noteq> [] \<and> hd s = CHR ''.'' then digits1 ''.'' (tl s) else Some ([], s))"

definition expPart :: "string \<Rightarrow> (string \<times> string) option" where
  "expPart s =
     (if s \<noteq> [] \<and> (hd s = CHR ''e'' \<or> hd s = CHR ''E'')
      then if tl s \<noteq> [] \<and> (hd (tl s) = CHR ''+'' \<or> hd (tl s) = CHR ''-'') then digits1 [hd s, hd (tl s)] (tl (tl s))
           else digits1 [hd s] (tl s)
      else Some ([], s))"

definition signPart :: "string \<Rightarrow> string \<times> string" where
  "signPart s = (if s \<noteq> [] \<and> hd s = CHR ''-'' then (''-'', tl s) else ([], s))"

definition scanNumber :: "string \<Rightarrow> (string \<times> string) option" where
  "scanNumber s =
     (case signPart s of
        (sg, s1) \<Rightarrow>
          (case intPart s1 of
             None \<Rightarrow> None
           | Some (n, s2) \<Rightarrow>
               (case fracPart s2 of
                  None \<Rightarrow> None
                | Some (f, s3) \<Rightarrow> map_option (\<lambda>(e, t). (sg @ n @ f @ e, t)) (expPart s3))))"

section \<open>Reading values\<close>

definition isSpace :: "char \<Rightarrow> bool" where
  "isSpace c \<longleftrightarrow> c = CHR '' '' \<or> c = CHR 0x09 \<or> c = CHR 0x0D \<or> c = CHR 0x0A"

definition skipWs :: "string \<Rightarrow> string" where
  "skipWs s = dropWhile isSpace s"

definition keyword :: "string \<Rightarrow> json \<Rightarrow> string \<Rightarrow> (json \<times> string) option" where
  "keyword w j s = (if take (length w) s = w then Some (j, drop (length w) s) else None)"

text \<open>A value that is not an array or object; \<open>s\<close> starts with \<open>c\<close>.\<close>

definition scanScalar :: "char \<Rightarrow> string \<Rightarrow> (json \<times> string) option" where
  "scanScalar c s =
     (if c = CHR 0x22 then map_option (\<lambda>(v, t). (JStr v, t)) (scanString (tl s))
      else if c = CHR ''-'' \<or> is_digit c then map_option (\<lambda>(n, t). (JNum n, t)) (scanNumber s)
      else if c = CHR ''t'' then keyword ''true'' (JBool True) s
      else if c = CHR ''f'' then keyword ''false'' (JBool False) s
      else if c = CHR ''n'' then keyword ''null'' JNull s
      else None)"

text \<open>A key with its colon.\<close>

definition scanKey :: "string \<Rightarrow> (string \<times> string) option" where
  "scanKey s =
     (let t = skipWs s in
      if t = [] \<or> hd t \<noteq> CHR 0x22 then None
      else case scanString (tl t) of
             None \<Rightarrow> None
           | Some (k, u) \<Rightarrow>
               (let v = skipWs u in if v = [] \<or> hd v \<noteq> CHR '':'' then None else Some (k, tl v)))"

lemma skipWs_le: "length (skipWs s) \<le> length s"
  by (simp add: skipWs_def length_dropWhile_le)

lemma skipWs_inner: "skipWs s \<noteq> [] \<Longrightarrow> Suc (2 * (length (skipWs s) - Suc 0)) < 2 * length s"
  using skipWs_le [of s] by (cases "skipWs s") auto

lemma tail_shorter: "xs \<noteq> [] \<Longrightarrow> length xs \<le> n \<Longrightarrow> length xs - Suc 0 < n"
  by (cases xs) auto

lemma scanString_shorter: "scanString s = Some (v, t) \<Longrightarrow> length t < length s"
proof (induction s arbitrary: v rule: scanString.induct)
  case (1 s)
  show ?case
  proof (cases "s = [] \<or> hd s = CHR 0x22")
    case True
    with "1.prems" show ?thesis by (subst (asm) scanString.simps) (auto split: if_splits)
  next
    case False
    with "1.prems" obtain x u v' where p: "scanPiece s = Some (x, u)" "scanString u = Some (v', t)"
      by (auto simp: scanString.simps [of s] split: option.splits)
    from "1.IH" [OF _ _ p(1) refl p(2)] False scanPiece_shorter [OF p(1)] show ?thesis by simp
  qed
qed

lemma scanKey_shorter: "scanKey s = Some (k, t) \<Longrightarrow> length t < length s"
proof -
  assume K: "scanKey s = Some (k, t)"
  then obtain u where u: "skipWs s \<noteq> []" "scanString (tl (skipWs s)) = Some (k, u)" "skipWs u \<noteq> []" "t = tl (skipWs u)"
    by (auto simp: scanKey_def Let_def split: if_splits option.splits)
  have "length t < length u" using u(3,4) skipWs_le [of u] by (cases "skipWs u") auto
  also have "\<dots> < length s" using scanString_shorter [OF u(2)] skipWs_le [of s] by simp
  finally show ?thesis .
qed

text \<open>
  Values, the elements of an array and the members of an object; \<open>d\<close> is how many more levels are allowed. That the rest
  is shorter, which the loops ask for, is always so (\<open>parse_shorter\<close>).
\<close>

function (sequential) parseValue :: "nat \<Rightarrow> string \<Rightarrow> (json \<times> string) option"
  and parseElems :: "nat \<Rightarrow> string \<Rightarrow> (json list \<times> string) option"
  and parseMembers :: "nat \<Rightarrow> string \<Rightarrow> ((string \<times> json) list \<times> string) option" where
  "parseValue d s =
     (let t = skipWs s in
      if t = [] then None
      else if hd t = CHR ''['' then
        (if d = 0 then None
         else let u = skipWs (tl t) in
              if u \<noteq> [] \<and> hd u = CHR '']'' then Some (JArr [], tl u)
              else map_option (\<lambda>(js, r). (JArr js, r)) (parseElems (d - 1) (tl t)))
      else if hd t = CHR ''{'' then
        (if d = 0 then None
         else let u = skipWs (tl t) in
              if u \<noteq> [] \<and> hd u = CHR ''}'' then Some (JObj [], tl u)
              else map_option (\<lambda>(kvs, r). (JObj kvs, r)) (parseMembers (d - 1) (tl t)))
      else scanScalar (hd t) t)"
| "parseElems d s =
     (case parseValue d s of
        None \<Rightarrow> None
      | Some (j, t) \<Rightarrow>
          (let u = skipWs t in
           if u = [] then None
           else if hd u = CHR '']'' then Some ([j], tl u)
           else if hd u = CHR '','' \<and> length u \<le> length s then
             map_option (\<lambda>(js, r). (j # js, r)) (parseElems d (tl u))
           else None))"
| "parseMembers d s =
     (case scanKey s of
        None \<Rightarrow> None
      | Some (k, s1) \<Rightarrow>
          (case parseValue d s1 of
             None \<Rightarrow> None
           | Some (j, t) \<Rightarrow>
               (let u = skipWs t in
                if u = [] then None
                else if hd u = CHR ''}'' then Some ([(k, j)], tl u)
                else if hd u = CHR '','' \<and> length u \<le> length s then
                  map_option (\<lambda>(kvs, r). ((k, j) # kvs, r)) (parseMembers d (tl u))
                else None)))"
  by pat_completeness auto

termination
proof (relation "measure (\<lambda>x. case x of Inl (d, s) \<Rightarrow> 2 * length s | Inr (Inl (d, s)) \<Rightarrow> Suc (2 * length s) | Inr (Inr (d, s)) \<Rightarrow> Suc (2 * length s))")
qed (auto dest: scanKey_shorter simp: skipWs_inner tail_shorter)

definition maxNesting :: nat where "maxNesting = 10000"

definition parseText :: "string \<Rightarrow> json option" where
  "parseText s =
     (case parseValue maxNesting s of
        None \<Rightarrow> None
      | Some (j, t) \<Rightarrow> if skipWs t = [] then Some j else None)"

section \<open>Strings read back\<close>

lemma hexVal_digit: "d < 16 \<Longrightarrow> hexVal (digit_char d) = Some d"
  by (auto simp: hexVal_def digit_char_def)

lemma getu4_hex4: "n < 65536 \<Longrightarrow> getu4 (hex4 n @ t) = Some n"
proof -
  assume n: "n < 65536"
  have "n div 256 div 16 = n div 4096" "n div 16 div 16 = n div 256" by (simp_all flip: div_mult2_eq)
  moreover have l: "n div 4096 < 16" using n by (simp add: div_less_iff_less_mult)
  moreover from l have m: "n div 4096 mod 16 = n div 4096" by simp
  ultimately have "n div 4096 mod 16 * 4096 + n div 256 mod 16 * 256 + n div 16 mod 16 * 16 + n mod 16 = n"
    using div_mult_mod_eq [of n 16] div_mult_mod_eq [of "n div 16" 16] div_mult_mod_eq [of "n div 256" 16] by linarith
  then show ?thesis by (simp add: hex4_def hexVal_digit l m)
qed

lemma unescapeU_rune: "validRune r \<Longrightarrow> r < 65536 \<Longrightarrow> unescapeU (hex4 r @ t) = Some (encodeRune r, t)"
proof -
  assume r: "validRune r" "r < 65536"
  have "surrogatePair r x = None" for x using r(1) by (auto simp: surrogatePair_def validRune_def)
  moreover have "drop 4 (hex4 r @ t) = t" by (simp add: hex4_def)
  ultimately show ?thesis by (auto simp: unescapeU_def getu4_hex4 [OF r(2)] split: option.split)
qed

lemma encodeRune_lead: "0x80 \<le> r \<Longrightarrow> 0x80 \<le> code (hd (encodeRune r))"
  using encodeRune_high [of r "hd (encodeRune r)"] by simp

lemma scanPiece_raw:
  assumes "validRune r" "0x20 \<le> r" "r \<noteq> 0x5C"
  shows "scanPiece (encodeRune r @ t) = Some (encodeRune r, t)"
proof -
  obtain c u where e: "encodeRune r = c # u" by (cases "encodeRune r") auto
  have "code c = r \<or> 0x80 \<le> code c"
    using e encodeRune_ascii [of r] encodeRune_lead [of r] by (cases "r < 0x80") auto
  moreover have "code CHR 0x5C = 0x5C" by simp
  ultimately have "c \<noteq> CHR 0x5C" "\<not> code c < 0x20" using assms(2,3) by auto
  then show ?thesis using decode_encodeRune [OF assms(1), of t] by (simp add: scanPiece_def e)
qed

lemma escaped_chars:
  "char_of (0x22::nat) = CHR 0x22" "char_of (0x5C::nat) = CHR 0x5C" "char_of (0x08::nat) = CHR 0x08" "char_of (0x0C::nat) = CHR 0x0C"
  "char_of (0x0A::nat) = CHR 0x0A" "char_of (0x0D::nat) = CHR 0x0D" "char_of (0x09::nat) = CHR 0x09"
  by code_simp+

lemma scanPiece_escRune:
  assumes "validRune r"
  shows "scanPiece (escRune r @ t) = Some (encodeRune r, t)"
proof (cases "r \<in> {0x22, 0x5C, 0x08, 0x0C, 0x0A, 0x0D, 0x09}")
  case True
  then show ?thesis
    by (elim insertE emptyE) (simp_all add: escRune_def scanPiece_def simpleEscape_def encodeRune_ascii escaped_chars)
next
  case False
  show ?thesis
  proof (cases "r < 0x20 \<or> r = 0x3C \<or> r = 0x3E \<or> r = 0x26 \<or> r = 0x2028 \<or> r = 0x2029")
    case True
    then have "r < 65536" by auto
    with unescapeU_rune [OF assms this, of t] False True show ?thesis
      by (simp add: escRune_def scanPiece_def simpleEscape_def del: One_nat_def)
  next
    case raw: False
    with False scanPiece_raw [OF assms] show ?thesis by (simp add: escRune_def)
  qed
qed

lemma escRune_head: "validRune r \<Longrightarrow> escRune r \<noteq> [] \<and> hd (escRune r) \<noteq> CHR 0x22"
proof -
  assume r: "validRune r"
  have "hd (encodeRune r) \<noteq> CHR 0x22" if "r \<noteq> 0x22"
  proof
    assume h: "hd (encodeRune r) = CHR 0x22"
    then have c: "code (hd (encodeRune r)) = 0x22" by simp
    show False using that c encodeRune_ascii [of r] encodeRune_lead [of r] by (cases "r < 0x80") auto
  qed
  then show ?thesis by (simp add: escRune_def hex4_def)
qed

lemma scanString_runes:
  "list_all validRune rs \<Longrightarrow> scanString (concat (map escRune rs) @ CHR 0x22 # t) = Some (utf8 rs, t)"
proof (induction rs)
  case Nil
  show ?case by (simp add: scanString.simps)
next
  case (Cons r rs)
  then have r: "validRune r" by simp
  note P = scanPiece_escRune [OF r, of "concat (map escRune rs) @ CHR 0x22 # t"]
  have "scanString (concat (map escRune (r # rs)) @ CHR 0x22 # t) =
      map_option (\<lambda>(v, u). (encodeRune r @ v, u)) (scanString (concat (map escRune rs) @ CHR 0x22 # t))"
    using P escRune_head [OF r] by (subst scanString.simps) simp
  with Cons show ?case by simp
qed

lemma scanString_quote:
  assumes "validUtf8 s"
  shows "quoteText s @ t = CHR 0x22 # tl (quoteText s @ t)" "scanString (tl (quoteText s @ t)) = Some (s, t)"
proof -
  obtain rs where rs: "s = utf8 rs" "list_all validRune rs" using validUtf8_runes [OF assms] .
  have "quoteText s = CHR 0x22 # concat (map escRune rs) @ [CHR 0x22]"
    by (simp add: quoteText_def rs(1) pieces_utf8 [OF rs(2)] comp_def)
  then show "quoteText s @ t = CHR 0x22 # tl (quoteText s @ t)" "scanString (tl (quoteText s @ t)) = Some (s, t)"
    using scanString_runes [OF rs(2), of t] rs(1) by simp_all
qed

text \<open>Whatever is read is valid.\<close>

lemma scanPiece_valid: "scanPiece s = Some (x, t) \<Longrightarrow> validUtf8 x"
proof -
  have esc: "validUtf8 x" if "unescapeU u = Some (x, t)" for u
    using that by (auto simp: unescapeU_def Let_def split: option.splits)
  have "validUtf8 [c]" if "simpleEscape e = Some c" for e c
    using that by (intro ascii_valid) (auto simp: simpleEscape_def ascii_def split: if_splits)
  then show "scanPiece s = Some (x, t) \<Longrightarrow> validUtf8 x"
    by (auto simp: scanPiece_def split: list.splits if_splits option.splits dest: esc)
qed

lemma scanString_valid: "scanString s = Some (v, t) \<Longrightarrow> validUtf8 v"
proof (induction s arbitrary: v rule: scanString.induct)
  case (1 s)
  show ?case
  proof (cases "s = [] \<or> hd s = CHR 0x22")
    case True
    with "1.prems" show ?thesis by (subst (asm) scanString.simps) (auto split: if_splits)
  next
    case False
    with "1.prems" obtain x u v' where p: "scanPiece s = Some (x, u)" "scanString u = Some (v', t)" "v = x @ v'"
      by (auto simp: scanString.simps [of s] split: option.splits)
    from "1.IH" [OF _ _ p(1) refl p(2)] False scanPiece_valid [OF p(1)] p(3) show ?thesis by simp
  qed
qed

section \<open>Numbers read back\<close>

definition numLit :: "string \<Rightarrow> bool" where
  "numLit lit \<longleftrightarrow> scanNumber lit = Some (lit, [])"

definition numberEnds :: "string \<Rightarrow> bool" where
  "numberEnds t \<longleftrightarrow> t = [] \<or> \<not> is_digit (hd t) \<and> hd t \<notin> {CHR ''.'', CHR ''e'', CHR ''E''}"

definition noDigit :: "string \<Rightarrow> bool" where
  "noDigit t \<longleftrightarrow> t = [] \<or> \<not> is_digit (hd t)"

lemma split_digits: "list_all is_digit ds \<Longrightarrow> noDigit t \<Longrightarrow> takeWhile is_digit (ds @ t) = ds \<and> dropWhile is_digit (ds @ t) = t"
  by (induction ds) (cases t, auto simp: noDigit_def)

lemma digits_of: "list_all is_digit (takeWhile is_digit s)" "s = takeWhile is_digit s @ dropWhile is_digit s"
  by (auto simp: list_all_iff dest: set_takeWhileD)

text \<open>Each part is read again when something follows that does not continue it.\<close>

lemma intPart_law:
  assumes "intPart s = Some (x, t)"
  shows "s = x @ t \<and> x \<noteq> [] \<and> is_digit (hd x) \<and> (noDigit t' \<longrightarrow> intPart (x @ t') = Some (x, t'))"
proof -
  have d: "is_digit CHR ''0''" by (simp add: is_digit_def)
  show ?thesis
  proof (cases "hd s = CHR ''0''")
    case True
    with assms d show ?thesis by (cases s) (auto simp: intPart_def split: if_splits)
  next
    case False
    with assms have x: "x = takeWhile is_digit s" "t = dropWhile is_digit s" "s \<noteq> []" "is_digit (hd s)"
      by (auto simp: intPart_def split: if_splits)
    then obtain c u where s: "s = c # u" by (cases s) auto
    have "intPart (x @ t') = Some (x, t')" if "noDigit t'"
      using split_digits [OF digits_of(1) that, of s] x False by (simp add: intPart_def s)
    with x s show ?thesis by auto
  qed
qed

lemma digits1_law:
  assumes "digits1 lead s = Some (x, t)"
  shows "lead @ s = x @ t \<and> (\<exists>ds. x = lead @ ds \<and> ds \<noteq> [] \<and> list_all is_digit ds) \<and>
    (noDigit t' \<longrightarrow> digits1 lead (drop (length lead) x @ t') = Some (x, t'))"
proof -
  have x: "x = lead @ takeWhile is_digit s" "t = dropWhile is_digit s" "takeWhile is_digit s \<noteq> []"
    using assms by (auto simp: digits1_def split: if_splits)
  have "digits1 lead (takeWhile is_digit s @ t') = Some (x, t')" if "noDigit t'"
    using split_digits [OF digits_of(1) that, of s] x by (simp add: digits1_def)
  with x digits_of [of s] show ?thesis by auto
qed

lemma fracPart_law:
  assumes "fracPart s = Some (x, t)"
  shows "s = x @ t \<and> (x \<noteq> [] \<longrightarrow> hd x = CHR ''.'') \<and>
    (noDigit t' \<and> (t' = [] \<or> hd t' \<noteq> CHR ''.'') \<longrightarrow> fracPart (x @ t') = Some (x, t'))"
proof (cases "s \<noteq> [] \<and> hd s = CHR ''.''")
  case True
  then obtain u where s: "s = CHR ''.'' # u" by (cases s) auto
  with assms have "digits1 ''.'' u = Some (x, t)" by (simp add: fracPart_def)
  from digits1_law [OF this, of t'] s show ?thesis by (auto simp: fracPart_def)
next
  case False
  with assms have "x = []" "t = s" by (auto simp: fracPart_def)
  then show ?thesis by (auto simp: fracPart_def)
qed

lemma expPart_law:
  assumes "expPart s = Some (x, t)"
  shows "s = x @ t \<and> (x \<noteq> [] \<longrightarrow> hd x = CHR ''e'' \<or> hd x = CHR ''E'') \<and>
    (numberEnds t' \<longrightarrow> expPart (x @ t') = Some (x, t'))"
proof (cases "s \<noteq> [] \<and> (hd s = CHR ''e'' \<or> hd s = CHR ''E'')")
  case True
  then obtain c u where s: "s = c # u" and c: "c = CHR ''e'' \<or> c = CHR ''E''" by (cases s) auto
  have n: "numberEnds t' \<Longrightarrow> noDigit t'" by (auto simp: numberEnds_def noDigit_def)
  show ?thesis
  proof (cases "u \<noteq> [] \<and> (hd u = CHR ''+'' \<or> hd u = CHR ''-'')")
    case sg: True
    then obtain g v where u: "u = g # v" and g: "g = CHR ''+'' \<or> g = CHR ''-''" by (cases u) auto
    with assms s c have D: "digits1 [c, g] v = Some (x, t)" by (auto simp: expPart_def)
    then obtain ds where ds: "x = [c, g] @ ds" using digits1_law by blast
    from digits1_law [OF D, of t'] ds s u c g n show ?thesis by (auto simp: expPart_def)
  next
    case False
    with assms s c have D: "digits1 [c] u = Some (x, t)" by (auto simp: expPart_def)
    then obtain ds where ds: "x = [c] @ ds" "ds \<noteq> []" "list_all is_digit ds" using digits1_law by blast
    then have "is_digit (hd ds)" by (cases ds) auto
    then have "hd ds \<noteq> CHR ''+''" "hd ds \<noteq> CHR ''-''" by (auto simp: is_digit_def)
    with digits1_law [OF D, of t'] ds s c n show ?thesis by (auto simp: expPart_def)
  qed
next
  case False
  with assms have "x = []" "t = s" by (auto simp: expPart_def)
  then show ?thesis by (auto simp: expPart_def numberEnds_def)
qed

lemma scanNumber_law:
  assumes "scanNumber s = Some (x, t)"
  shows "s = x @ t \<and> x \<noteq> [] \<and> (hd x = CHR ''-'' \<or> is_digit (hd x)) \<and> (numberEnds t' \<longrightarrow> scanNumber (x @ t') = Some (x, t'))"
proof -
  obtain sg s1 where sg: "signPart s = (sg, s1)" by fastforce
  then obtain n s2 f s3 e where p: "intPart s1 = Some (n, s2)" "fracPart s2 = Some (f, s3)" "expPart s3 = Some (e, t)" "x = sg @ n @ f @ e"
    using assms by (auto simp: scanNumber_def split: option.splits)
  have S: "s = sg @ s1" "sg = [] \<or> sg = ''-''" using sg by (cases s; auto simp: signPart_def split: if_splits)+
  note I = intPart_law [OF p(1), of "f @ e @ t'"] and F = fracPart_law [OF p(2), of "e @ t'"] and E = expPart_law [OF p(3), of t']
  have "scanNumber (x @ t') = Some (x, t')" if "numberEnds t'"
  proof -
    have k: "noDigit (e @ t')" "e @ t' = [] \<or> hd (e @ t') \<noteq> CHR ''.''" "noDigit (f @ e @ t')"
      using E F that by (cases e; cases f; auto simp: noDigit_def numberEnds_def is_digit_def)+
    have "hd n \<noteq> CHR ''-''" using I by (auto simp: is_digit_def)
    then have "signPart (x @ t') = (sg, n @ f @ e @ t')" using S(2) I by (auto simp: signPart_def p(4))
    moreover have "intPart (n @ f @ e @ t') = Some (n, f @ e @ t')" using I k(3) by blast
    moreover have "fracPart (f @ e @ t') = Some (f, e @ t')" using F k(1,2) by blast
    moreover have "expPart (e @ t') = Some (e, t')" using E that by blast
    ultimately show ?thesis by (simp add: scanNumber_def p(4))
  qed
  with S I F E p(4) show ?thesis by auto
qed

lemma numLit_scan: "scanNumber s = Some (x, t) \<Longrightarrow> numLit x"
  using scanNumber_law [of s x t "[]"] by (simp add: numLit_def numberEnds_def)

lemma numLit_read: "numLit x \<Longrightarrow> numberEnds t \<Longrightarrow> scanNumber (x @ t) = Some (x, t)"
  using scanNumber_law [of x x "[]" t] by (simp add: numLit_def)

lemma numLit_head: "numLit x \<Longrightarrow> x \<noteq> [] \<and> (hd x = CHR ''-'' \<or> is_digit (hd x))"
  using scanNumber_law [of x x "[]" "[]"] by (simp add: numLit_def)

lemma numLit_formatUint: "numLit (formatUint 10 n)"
proof -
  let ?s = "formatUint 10 n"
  have d: "list_all is_digit ?s" by (rule formatUint_digits)
  then have h: "is_digit (hd ?s)" by (cases ?s) auto
  have "intPart ?s = Some (?s, [])"
  proof (cases "n = 0")
    case True
    then show ?thesis by (simp add: formatUint_0 intPart_def is_digit_def)
  next
    case False
    with formatUint_head [of n] h split_digits [OF d, of "[]"] show ?thesis by (simp add: intPart_def noDigit_def)
  qed
  moreover have "hd ?s \<noteq> CHR ''-''" using h by (auto simp: is_digit_def)
  ultimately show ?thesis by (simp add: numLit_def scanNumber_def signPart_def fracPart_def expPart_def)
qed

lemma numLit_itoa: "numLit (itoa n)"
proof (cases "n < 0")
  case True
  let ?s = "formatUint 10 (nat (- n))"
  have "scanNumber ?s = Some (?s, [])" using numLit_formatUint [of "nat (- n)"] by (simp add: numLit_def)
  moreover have "hd ?s \<noteq> CHR ''-''" using numLit_formatUint [of "nat (- n)"] formatUint_no_dash [of "nat (- n)"] by (cases ?s) auto
  ultimately show ?thesis using True
    by (auto simp: numLit_def itoa_def scanNumber_def signPart_def split: option.splits)
qed (simp add: itoa_def numLit_formatUint)

section \<open>Values read back\<close>

primrec json_depth :: "json \<Rightarrow> nat" where
  "json_depth JNull = 0"
| "json_depth (JBool b) = 0"
| "json_depth (JNum lit) = 0"
| "json_depth (JStr s) = 0"
| "json_depth (JArr js) = Suc (foldr max (map json_depth js) 0)"
| "json_depth (JObj kvs) = Suc (foldr max (map snd (map (map_prod id json_depth) kvs)) 0)"

primrec json_ok :: "json \<Rightarrow> bool" where
  "json_ok JNull = True"
| "json_ok (JBool b) = True"
| "json_ok (JNum lit) = numLit lit"
| "json_ok (JStr s) = validUtf8 s"
| "json_ok (JArr js) = list_all id (map json_ok js)"
| "json_ok (JObj kvs) = list_all (\<lambda>(k, ok). validUtf8 k \<and> ok) (map (map_prod id json_ok) kvs)"

lemma depth_JArr: "json_depth (JArr js) \<le> d \<longleftrightarrow> 0 < d \<and> (\<forall>j \<in> set js. json_depth j \<le> d - 1)"
proof -
  have "foldr max (map json_depth js) 0 \<le> n \<longleftrightarrow> (\<forall>j \<in> set js. json_depth j \<le> n)" for n by (induction js) auto
  then show ?thesis by (cases d) auto
qed

lemma depth_JObj: "json_depth (JObj kvs) \<le> d \<longleftrightarrow> 0 < d \<and> (\<forall>kv \<in> set kvs. json_depth (snd kv) \<le> d - 1)"
proof -
  have "foldr max (map snd (map (map_prod id json_depth) kvs)) 0 \<le> n \<longleftrightarrow> (\<forall>kv \<in> set kvs. json_depth (snd kv) \<le> n)" for n
    by (induction kvs) auto
  then show ?thesis by (cases d) auto
qed

lemma ok_JArr [simp]: "json_ok (JArr js) \<longleftrightarrow> (\<forall>j \<in> set js. json_ok j)"
  by (simp add: list_all_iff)

lemma ok_JObj [simp]: "json_ok (JObj kvs) \<longleftrightarrow> (\<forall>kv \<in> set kvs. validUtf8 (fst kv) \<and> json_ok (snd kv))"
  by (auto simp: list_all_iff)

declare json_ok.simps(5,6) [simp del]

text \<open>What follows a value inside a text: nothing, or a delimiter.\<close>

definition delimited :: "string \<Rightarrow> bool" where
  "delimited t \<longleftrightarrow> t = [] \<or> hd t \<in> {CHR '','', CHR '']'', CHR ''}''}"

lemma delimited_ends: "delimited t \<Longrightarrow> numberEnds t"
  by (auto simp: delimited_def numberEnds_def is_digit_def)

lemma skipWs_none [simp]: "s = [] \<or> \<not> isSpace (hd s) \<Longrightarrow> skipWs s = s"
  by (cases s) (auto simp: skipWs_def)

lemma skipWs_delimited: "delimited t \<Longrightarrow> skipWs t = t"
  by (intro skipWs_none) (auto simp: delimited_def isSpace_def)

text \<open>The first character of a text tells what it is.\<close>

definition readable :: "nat \<Rightarrow> json \<Rightarrow> bool" where
  "readable d j \<longleftrightarrow> (\<forall>t. delimited t \<longrightarrow> parseValue d (json_text j @ t) = Some (j, t))"

lemma parse_scalar:
  assumes "s \<noteq> []" "\<not> isSpace (hd s)" "hd s \<noteq> CHR ''[''" "hd s \<noteq> CHR ''{''"
  shows "parseValue d s = scanScalar (hd s) s"
  using assms by simp

declare parseValue.simps [simp del] parseElems.simps [simp del] parseMembers.simps [simp del]

lemma readable_scalar:
  shows "readable d JNull" "readable d (JBool b)" "numLit lit \<Longrightarrow> readable d (JNum lit)" "validUtf8 s \<Longrightarrow> readable d (JStr s)"
proof -
  show "readable d JNull" "readable d (JBool b)"
    by (auto simp: readable_def parse_scalar isSpace_def scanScalar_def is_digit_def keyword_def)
  show "readable d (JNum lit)" if "numLit lit"
  proof -
    have h: "lit \<noteq> []" "hd lit = CHR ''-'' \<or> is_digit (hd lit)" using numLit_head [OF that] by auto
    then have "\<not> isSpace (hd lit)" "hd lit \<noteq> CHR ''[''" "hd lit \<noteq> CHR ''{''" "hd lit \<noteq> CHR 0x22" by (auto simp: isSpace_def is_digit_def)
    with h numLit_read [OF that delimited_ends] show ?thesis by (auto simp: readable_def parse_scalar scanScalar_def)
  qed
  show "readable d (JStr s)" if "validUtf8 s"
  proof -
    have "parseValue d (quoteText s @ t) = Some (JStr s, t)" for t
      using scanString_quote [OF that, of t] by (subst parse_scalar) (auto simp: scanScalar_def isSpace_def quoteText_def)
    then show ?thesis by (simp add: readable_def)
  qed
qed

lemma parseElems_join:
  assumes "js \<noteq> []" "\<forall>j \<in> set js. readable d j"
  shows "parseElems d (join '','' (map json_text js) @ CHR '']'' # t) = Some (js, t)"
  using assms
proof (induction js)
  case (Cons j js)
  have R: "parseValue d (json_text j @ u) = Some (j, u)" if "delimited u" for u using Cons.prems(2) that by (simp add: readable_def)
  show ?case
  proof (cases js)
    case Nil
    then show ?thesis using R [of "CHR '']'' # t"] by (simp add: parseElems.simps delimited_def isSpace_def)
  next
    case (Cons j' js')
    let ?u = "join '','' (map json_text js) @ CHR '']'' # t"
    have "parseElems d ?u = Some (js, t)" using Cons.IH Cons.prems Cons by simp
    then show ?thesis using R [of "CHR '','' # ?u"] Cons by (simp add: parseElems.simps [of d "json_text j @ _"] delimited_def isSpace_def)
  qed
qed simp

lemma scanKey_text:
  assumes "validUtf8 k"
  shows "scanKey (quoteText k @ CHR '':'' # t) = Some (k, t)"
proof -
  obtain r where r: "quoteText k @ CHR '':'' # t = CHR 0x22 # r" using scanString_quote(1) [OF assms] by blast
  have "scanString r = Some (k, CHR '':'' # t)" using scanString_quote(2) [OF assms, of "CHR '':'' # t"] by (simp add: r)
  then show ?thesis unfolding r by (simp add: scanKey_def isSpace_def)
qed

definition memberText :: "string \<times> json \<Rightarrow> string" where
  "memberText kv = quoteText (fst kv) @ CHR '':'' # json_text (snd kv)"

lemma json_text_JObj: "json_text (JObj kvs) = CHR ''{'' # join '','' (map memberText kvs) @ ''}''"
  by (simp add: memberText_def [abs_def] comp_def case_prod_unfold)

lemma parseMembers_join:
  assumes "kvs \<noteq> []" "\<forall>kv \<in> set kvs. validUtf8 (fst kv) \<and> readable d (snd kv)"
  shows "parseMembers d (join '','' (map memberText kvs) @ CHR ''}'' # t) = Some (kvs, t)"
  using assms
proof (induction kvs)
  case (Cons kv kvs)
  obtain k j where kv: "kv = (k, j)" by fastforce
  have R: "parseValue d (json_text j @ u) = Some (j, u)" if "delimited u" for u using Cons.prems(2) that kv by (simp add: readable_def)
  have K: "scanKey (memberText kv @ u) = Some (k, json_text j @ u)" for u
    using scanKey_text [of k "json_text j @ u"] Cons.prems(2) kv by (simp add: memberText_def)
  show ?case
  proof (cases kvs)
    case Nil
    then show ?thesis using R [of "CHR ''}'' # t"] K by (simp add: parseMembers.simps delimited_def isSpace_def kv)
  next
    case (Cons kv' kvs')
    let ?u = "join '','' (map memberText kvs) @ CHR ''}'' # t"
    have "parseMembers d ?u = Some (kvs, t)" using Cons.IH Cons.prems Cons by simp
    then show ?thesis using R [of "CHR '','' # ?u"] K [of "CHR '','' # ?u"] Cons
      by (simp add: parseMembers.simps [of d "memberText kv @ _"] delimited_def isSpace_def) (simp add: kv)
  qed
qed simp

lemma json_text_head: "json_ok j \<Longrightarrow> json_text j \<noteq> [] \<and> hd (json_text j) \<notin> {CHR '']'', CHR ''}''} \<and> \<not> isSpace (hd (json_text j))"
proof (cases j)
  case (JNum lit)
  assume "json_ok j"
  then have "lit \<noteq> []" "hd lit = CHR ''-'' \<or> is_digit (hd lit)" using numLit_head [of lit] JNum by auto
  with JNum show ?thesis by (auto simp: isSpace_def is_digit_def)
qed (auto simp: quoteText_def isSpace_def)

lemma readable_JArr:
  assumes "\<forall>j \<in> set js. readable (d - 1) j \<and> json_ok j" "0 < d"
  shows "readable d (JArr js)"
proof (cases js)
  case Nil
  then show ?thesis using assms(2) by (simp add: readable_def parseValue.simps isSpace_def)
next
  case (Cons j js')
  let ?t = "join '','' (map json_text js)"
  have "hd ?t = hd (json_text j)" "?t \<noteq> []" using json_text_head [of j] assms(1) Cons by (cases js'; auto)+
  then have h: "?t \<noteq> []" "hd ?t \<noteq> CHR '']''" "\<not> isSpace (hd ?t)" using json_text_head [of j] assms(1) Cons by auto
  have "parseElems (d - 1) (?t @ CHR '']'' # t) = Some (js, t)" for t using Cons assms(1) by (intro parseElems_join) auto
  then show ?thesis using h assms(2) by (simp add: readable_def parseValue.simps isSpace_def)
qed

lemma readable_JObj:
  assumes "\<forall>kv \<in> set kvs. validUtf8 (fst kv) \<and> readable (d - 1) (snd kv)" "0 < d"
  shows "readable d (JObj kvs)"
proof (cases kvs)
  case Nil
  then show ?thesis using assms(2) by (simp add: readable_def parseValue.simps isSpace_def)
next
  case (Cons kv kvs')
  let ?t = "join '','' (map memberText kvs)"
  have "hd ?t = CHR 0x22" "?t \<noteq> []" using Cons by (cases kvs'; auto simp: memberText_def quoteText_def)+
  then have h: "?t \<noteq> []" "hd ?t \<noteq> CHR ''}''" "\<not> isSpace (hd ?t)" by (auto simp: isSpace_def)
  have "parseMembers (d - 1) (?t @ CHR ''}'' # t) = Some (kvs, t)" for t using Cons assms(1) by (intro parseMembers_join) auto
  then show ?thesis using h assms(2) unfolding readable_def json_text_JObj by (simp add: parseValue.simps isSpace_def)
qed

lemma json_readable: "json_ok j \<Longrightarrow> json_depth j \<le> d \<Longrightarrow> readable d j"
proof (induction j arbitrary: d)
  case (JArr js)
  have "0 < d" "\<forall>j \<in> set js. json_depth j \<le> d - 1" using JArr.prems(2) unfolding depth_JArr by blast+
  with JArr show ?case by (intro readable_JArr) auto
next
  case (JObj kvs)
  have "0 < d" "\<forall>kv \<in> set kvs. json_depth (snd kv) \<le> d - 1" using JObj.prems(2) unfolding depth_JObj by blast+
  moreover have "readable (d - 1) (snd kv)" if "kv \<in> set kvs" "json_depth (snd kv) \<le> d - 1" for kv
    using JObj.IH [of kv "snd kv"] JObj.prems(1) that by (cases kv) auto
  ultimately show ?case using JObj.prems(1) by (intro readable_JObj) auto
qed (simp_all add: readable_scalar)

definition json_fits :: "json \<Rightarrow> bool" where
  "json_fits j \<longleftrightarrow> json_ok j \<and> json_depth j \<le> maxNesting"

lemma parse_json_text: "json_fits j \<Longrightarrow> parseText (json_text j) = Some j"
  using json_readable [of j maxNesting] by (auto simp: json_fits_def parseText_def readable_def delimited_def)

section \<open>What can be read\<close>

lemma parseElems_cases:
  assumes "parseElems d s = Some (js, r)"
  obtains j t where "parseValue d s = Some (j, t)" "skipWs t \<noteq> []" "hd (skipWs t) = CHR '']''" "js = [j]" "r = tl (skipWs t)"
  | j t js' where "parseValue d s = Some (j, t)" "skipWs t \<noteq> []" "hd (skipWs t) = CHR '',''" "length (skipWs t) \<le> length s"
      "parseElems d (tl (skipWs t)) = Some (js', r)" "js = j # js'"
  using assms by (subst (asm) parseElems.simps) (auto simp: Let_def split: option.splits if_splits)

lemma parseMembers_cases:
  assumes "parseMembers d s = Some (kvs, r)"
  obtains k s1 j t where "scanKey s = Some (k, s1)" "parseValue d s1 = Some (j, t)" "skipWs t \<noteq> []" "hd (skipWs t) = CHR ''}''"
      "kvs = [(k, j)]" "r = tl (skipWs t)"
  | k s1 j t kvs' where "scanKey s = Some (k, s1)" "parseValue d s1 = Some (j, t)" "skipWs t \<noteq> []" "hd (skipWs t) = CHR '',''"
      "length (skipWs t) \<le> length s" "parseMembers d (tl (skipWs t)) = Some (kvs', r)" "kvs = (k, j) # kvs'"
  using assms by (subst (asm) parseMembers.simps) (auto simp: Let_def split: option.splits if_splits)

lemma parseValue_cases:
  assumes "parseValue d s = Some (j, r)"
  obtains u where "0 < d" "u = skipWs (tl (skipWs s))" "skipWs s \<noteq> []" "u \<noteq> []" "j = JArr [] \<or> j = JObj []" "r = tl u"
  | js where "0 < d" "skipWs s \<noteq> []" "hd (skipWs s) = CHR ''[''" "parseElems (d - 1) (tl (skipWs s)) = Some (js, r)" "j = JArr js"
  | kvs where "0 < d" "skipWs s \<noteq> []" "hd (skipWs s) = CHR ''{''" "parseMembers (d - 1) (tl (skipWs s)) = Some (kvs, r)" "j = JObj kvs"
  | "skipWs s \<noteq> []" "scanScalar (hd (skipWs s)) (skipWs s) = Some (j, r)"
  using assms by (subst (asm) parseValue.simps) (auto simp: Let_def split: if_splits)

lemma scanScalar_ok: "scanScalar c s = Some (j, t) \<Longrightarrow> json_ok j \<and> json_depth j = 0 \<and> (s \<noteq> [] \<longrightarrow> length t < length s)"
proof -
  assume S: "scanScalar c s = Some (j, t)"
  have n: "length u < length s" if "scanNumber s = Some (x, u)" for x u
    using scanNumber_law [OF that, of "[]"] by (cases x) auto
  have st: "length u < length s" if "scanString (tl s) = Some (x, u)" for x u using scanString_shorter [OF that] by simp
  from S show ?thesis
    by (auto simp: scanScalar_def keyword_def split: if_splits dest: scanString_valid numLit_scan n st)
qed

lemma tl_skip: "skipWs t \<noteq> [] \<Longrightarrow> length (tl (skipWs t)) < length t"
  using skipWs_le [of t] by (cases "skipWs t") auto

text \<open>
  One induction on the length: the rest is shorter (so the condition the loops ask for always holds), and what was read
  is valid and within the allowed depth.
\<close>

definition valueRead :: "nat \<Rightarrow> string \<Rightarrow> bool" where
  "valueRead d s \<longleftrightarrow> (\<forall>j r. parseValue d s = Some (j, r) \<longrightarrow> length r < length s \<and> json_ok j \<and> json_depth j \<le> d)"

definition elemsRead :: "nat \<Rightarrow> string \<Rightarrow> bool" where
  "elemsRead d s \<longleftrightarrow> (\<forall>js r. parseElems d s = Some (js, r) \<longrightarrow> length r < length s \<and> (\<forall>j \<in> set js. json_ok j \<and> json_depth j \<le> d))"

definition membersRead :: "nat \<Rightarrow> string \<Rightarrow> bool" where
  "membersRead d s \<longleftrightarrow> (\<forall>kvs r. parseMembers d s = Some (kvs, r) \<longrightarrow>
     length r < length s \<and> (\<forall>kv \<in> set kvs. validUtf8 (fst kv) \<and> json_ok (snd kv) \<and> json_depth (snd kv) \<le> d))"

lemma scanKey_valid: "scanKey s = Some (k, t) \<Longrightarrow> validUtf8 k"
  by (auto simp: scanKey_def Let_def split: if_splits option.splits dest: scanString_valid)

lemma valueRead_step:
  assumes "\<And>s'. length s' < length s \<Longrightarrow> elemsRead (d - 1) s' \<and> membersRead (d - 1) s'"
  shows "valueRead d s"
  unfolding valueRead_def
proof (intro allI impI)
  fix j r assume "parseValue d s = Some (j, r)"
  then show "length r < length s \<and> json_ok j \<and> json_depth j \<le> d"
  proof (cases rule: parseValue_cases)
    case (1 u)
    then show ?thesis using tl_skip [of "tl (skipWs s)"] tl_skip [of s] by auto
  next
    case (2 js)
    then show ?thesis using assms [OF tl_skip, OF 2(2)] tl_skip [OF 2(2)] unfolding elemsRead_def 2(5) depth_JArr by auto
  next
    case (3 kvs)
    then show ?thesis using assms [OF tl_skip, OF 3(2)] tl_skip [OF 3(2)] unfolding membersRead_def 3(5) depth_JObj by auto
  next
    case 4
    then show ?thesis using scanScalar_ok [OF 4(2)] skipWs_le [of s] by auto
  qed
qed

lemma elemsRead_step:
  assumes "valueRead d s" "\<And>s'. length s' < length s \<Longrightarrow> elemsRead d s'"
  shows "elemsRead d s"
  unfolding elemsRead_def
proof (intro allI impI)
  fix js r assume "parseElems d s = Some (js, r)"
  then show "length r < length s \<and> (\<forall>j \<in> set js. json_ok j \<and> json_depth j \<le> d)"
  proof (cases rule: parseElems_cases)
    case (1 j t)
    then show ?thesis using assms(1) tl_skip [of t] by (auto simp: valueRead_def)
  next
    case (2 j t js')
    then have "length t < length s" "json_ok j" "json_depth j \<le> d" using assms(1) by (auto simp: valueRead_def)
    then show ?thesis using 2 assms(2) [of "tl (skipWs t)"] tl_skip [OF 2(2)] by (auto simp: elemsRead_def)
  qed
qed

lemma membersRead_step:
  assumes "\<And>s'. length s' < length s \<Longrightarrow> valueRead d s' \<and> membersRead d s'"
  shows "membersRead d s"
  unfolding membersRead_def
proof (intro allI impI)
  fix kvs r assume "parseMembers d s = Some (kvs, r)"
  then show "length r < length s \<and> (\<forall>kv \<in> set kvs. validUtf8 (fst kv) \<and> json_ok (snd kv) \<and> json_depth (snd kv) \<le> d)"
  proof (cases rule: parseMembers_cases)
    case (1 k s1 j t)
    then show ?thesis using assms [OF scanKey_shorter [OF 1(1)]] scanKey_shorter [OF 1(1)] scanKey_valid [OF 1(1)] tl_skip [OF 1(3)]
      by (auto simp: valueRead_def)
  next
    case (2 k s1 j t kvs')
    have t: "length t < length s" "json_ok j" "json_depth j \<le> d"
      using assms [OF scanKey_shorter [OF 2(1)]] scanKey_shorter [OF 2(1)] 2(2) by (auto simp: valueRead_def)
    then have "membersRead d (tl (skipWs t))" using assms tl_skip [OF 2(3)] by (meson less_trans)
    then show ?thesis using t 2(6,7) scanKey_valid [OF 2(1)] tl_skip [OF 2(3)] by (auto simp: membersRead_def)
  qed
qed

lemma all_read: "valueRead d s \<and> elemsRead d s \<and> membersRead d s"
proof (induction "length s" arbitrary: s d rule: less_induct)
  case less
  note IH = less.hyps
  have V: "valueRead d s" by (rule valueRead_step) (use IH in simp)
  moreover have "elemsRead d s" by (rule elemsRead_step [OF V]) (use IH in simp)
  moreover have "membersRead d s" by (rule membersRead_step) (use IH in simp)
  ultimately show ?case by simp
qed

lemma parseText_fits: "parseText s = Some j \<Longrightarrow> json_fits j"
  using all_read [of maxNesting s] by (auto simp: parseText_def valueRead_def json_fits_def split: option.splits if_splits)

lemma parse_shorter: "parseValue d s = Some (j, r) \<Longrightarrow> length r < length s"
  using all_read [of d s] by (simp add: valueRead_def)

text \<open>The loop of an array without its condition.\<close>

lemma parseElems_unfold:
  "parseElems d s =
     (case parseValue d s of
        None \<Rightarrow> None
      | Some (j, t) \<Rightarrow>
          (let u = skipWs t in
           if u = [] then None
           else if hd u = CHR '']'' then Some ([j], tl u)
           else if hd u = CHR '','' then map_option (\<lambda>(js, r). (j # js, r)) (parseElems d (tl u))
           else None))"
proof -
  have "length (skipWs t) \<le> length s" if "parseValue d s = Some (j, t)" for j t
    using parse_shorter [OF that] skipWs_le [of t] by simp
  then show ?thesis by (subst parseElems.simps) (auto simp: Let_def split: option.split)
qed

section \<open>No newlines\<close>

lemma newline_encodeRune: "r \<noteq> 0x0A \<Longrightarrow> CHR 0x0A \<notin> set (encodeRune r)"
proof
  assume r: "r \<noteq> 0x0A" and m: "CHR 0x0A \<in> set (encodeRune r)"
  show False
  proof (cases "r < 0x80")
    case True
    with m have "char_of r = CHR 0x0A" by (simp add: encodeRune_ascii)
    then have "code (char_of r) = code CHR 0x0A" by (rule arg_cong)
    with True r show False by simp
  next
    case False
    then have "0x80 \<le> code CHR 0x0A" using m by (intro encodeRune_high) auto
    then show False by simp
  qed
qed

lemma newline_hex4: "CHR 0x0A \<notin> set (hex4 n)"
proof -
  have "hexVal CHR 0x0A = None" by (simp add: hexVal_def)
  then have "CHR 0x0A \<noteq> digit_char (d mod 16)" for d using hexVal_digit [of "d mod 16"] by force
  then show ?thesis by (simp add: hex4_def)
qed

lemma newline_escRune: "CHR 0x0A \<notin> set (escRune r)"
  using newline_encodeRune [of r] newline_hex4 [of r] by (auto simp: escRune_def escaped_chars)

lemma newline_quoteText: "CHR 0x0A \<notin> set (quoteText s)"
  using newline_escRune newline_hex4 by (auto simp: quoteText_def split: option.splits)

lemma numLit_chars: "numLit x \<Longrightarrow> c \<in> set x \<Longrightarrow> is_digit c \<or> c \<in> {CHR ''-'', CHR ''+'', CHR ''.'', CHR ''e'', CHR ''E''}"
proof -
  assume "numLit x" and c: "c \<in> set x"
  then obtain sg s1 n s2 f s3 e where p: "signPart x = (sg, s1)" "intPart s1 = Some (n, s2)" "fracPart s2 = Some (f, s3)"
    "expPart s3 = Some (e, [])" "x = sg @ n @ f @ e"
    by (auto simp: numLit_def scanNumber_def split: option.splits prod.splits)
  have tw: "is_digit y" if "y \<in> set (takeWhile is_digit s)" for y s using that by (auto dest: set_takeWhileD)
  have d: "y \<in> set lead \<or> is_digit y" if "digits1 lead s = Some (v, u)" "y \<in> set v" for lead s v u y
    using digits1_law [OF that(1), of "[]"] that(2) by (auto simp: list_all_iff)
  have "set sg \<subseteq> {CHR ''-''}" using p(1) by (auto simp: signPart_def split: if_splits)
  moreover have "\<forall>y \<in> set n. is_digit y" using p(2) tw by (auto simp: intPart_def is_digit_def [of "CHR ''0''"] split: if_splits)
  moreover have "\<forall>y \<in> set f. y = CHR ''.'' \<or> is_digit y" using p(3) d by (fastforce simp: fracPart_def split: if_splits)
  moreover have "\<forall>y \<in> set e. y \<in> {CHR ''-'', CHR ''+'', CHR ''e'', CHR ''E''} \<or> is_digit y"
    using p(4) by (auto simp: expPart_def split: if_splits dest!: d)
  ultimately show ?thesis using c p(5) by auto
qed

lemma newline_join: "\<forall>x \<in> set xs. CHR 0x0A \<notin> set x \<Longrightarrow> CHR 0x0A \<notin> set (join '','' xs)"
  by (induction "'',''" xs rule: join.induct) auto

lemma newline_json_text: "json_ok j \<Longrightarrow> CHR 0x0A \<notin> set (json_text j)"
proof (induction j)
  case (JNum lit)
  then show ?case using numLit_chars [of lit "CHR 0x0A"] by (auto simp: is_digit_def)
next
  case (JArr js)
  then have "CHR 0x0A \<notin> set (join '','' (map json_text js))" by (intro newline_join) auto
  then show ?case by simp
next
  case (JObj kvs)
  have "CHR 0x0A \<notin> set (join '','' (map memberText kvs))"
  proof (rule newline_join, rule ballI)
    fix x assume "x \<in> set (map memberText kvs)"
    then obtain k j where kv: "(k, j) \<in> set kvs" "x = memberText (k, j)" by auto
    then have "CHR 0x0A \<notin> set (json_text j)" using JObj.IH [OF kv(1), of j] JObj.prems by force
    then show "CHR 0x0A \<notin> set x" using newline_quoteText [of k] by (simp add: kv(2) memberText_def)
  qed
  then show ?case unfolding json_text_JObj by simp
qed (simp_all add: newline_quoteText)

end
