(* ===== verification/Bufio.thy ===== *)
theory Bufio
  imports Main "HOL-Library.Sublist"
begin

text \<open>
  What the program uses of Go's \<^verbatim>\<open>bufio.Writer\<close>: the interval report (\<^verbatim>\<open>internal/bench/csv.go\<close>) and the
  write pump of a connection (\<^verbatim>\<open>broker/connection.go\<close>) write through one.

  The destination accepts some bytes of every write and may fail at any of them, as the contract of
  \<^verbatim>\<open>io.Writer\<close> says; when it fails is an argument (\<open>d_plan\<close>). \<open>buf_inv\<close> is what the two clients rely on: the
  destination holds an initial part of what was written, and all that is not buffered while no write failed.
\<close>

section \<open>Writers\<close>

datatype io_error = IOError

text \<open>\<open>d_plan\<close>: for each coming write, \<open>None\<close> for all of it, or how many bytes go through before it fails; then all succeed.\<close>

record dst =
  d_out :: string
  d_plan :: "nat option list"

definition dst_Write :: "string \<Rightarrow> dst \<Rightarrow> nat \<times> io_error option \<times> dst" where
  "dst_Write s d =
     (case d_plan d of
        [] \<Rightarrow> (length s, None, d\<lparr>d_out := d_out d @ s\<rparr>)
      | None # ps \<Rightarrow> (length s, None, d\<lparr>d_out := d_out d @ s, d_plan := ps\<rparr>)
      | Some k # ps \<Rightarrow> (min k (length s), Some IOError, d\<lparr>d_out := d_out d @ take k s, d_plan := ps\<rparr>))"

record bufioWriter =
  bw_buf :: string
  bw_err :: "io_error option"
  bw_dst :: dst

definition bufSize :: nat where "bufSize = 4096"

definition bufio_Flush :: "bufioWriter \<Rightarrow> io_error option \<times> bufioWriter" where
  "bufio_Flush b =
     (case bw_err b of
        Some e \<Rightarrow> (Some e, b)
      | None \<Rightarrow>
          if bw_buf b = [] then (None, b)
          else case dst_Write (bw_buf b) (bw_dst b) of
                 (n, Some e, d) \<Rightarrow> (Some e, b\<lparr>bw_buf := drop n (bw_buf b), bw_err := Some e, bw_dst := d\<rparr>)
               | (n, None, d) \<Rightarrow> (None, b\<lparr>bw_buf := [], bw_dst := d\<rparr>))"

lemma bufio_Flush_smaller:
  assumes "bw_err b = None" "bw_buf b \<noteq> []"
  shows "bw_err (snd (bufio_Flush b)) \<noteq> None \<or> bw_buf (snd (bufio_Flush b)) = []"
  using assms by (auto simp: bufio_Flush_def split: prod.splits option.splits)

text \<open>
  \<^verbatim>\<open>Write\<close>, and \<^verbatim>\<open>WriteString\<close> on a destination that takes strings: while the string does not fit and nothing failed, fill and flush the buffer, or hand
  the string to the destination when the buffer is empty.
\<close>

function bufio_Write :: "string \<Rightarrow> bufioWriter \<Rightarrow> io_error option \<times> bufioWriter" where
  "bufio_Write s b =
     (if length s > bufSize - length (bw_buf b) \<and> bw_err b = None
      then if bw_buf b = []
           then case dst_Write s (bw_dst b) of
                  (n, e, d) \<Rightarrow> (e, b\<lparr>bw_err := e, bw_dst := d\<rparr>)
           else let k = bufSize - length (bw_buf b) in
                bufio_Write (drop k s) (snd (bufio_Flush (b\<lparr>bw_buf := bw_buf b @ take k s\<rparr>)))
      else case bw_err b of
             Some e \<Rightarrow> (Some e, b)
           | None \<Rightarrow> (None, b\<lparr>bw_buf := bw_buf b @ s\<rparr>))"
  by pat_completeness auto

termination
proof (relation "measure (\<lambda>(s, b). if bw_err b \<noteq> None then 0 else if bw_buf b = [] then 1 else 2)")
  fix s :: string and b :: bufioWriter and k
  assume "length s > bufSize - length (bw_buf b) \<and> bw_err b = None" "bw_buf b \<noteq> []"
  then show "((drop k s, snd (bufio_Flush (b\<lparr>bw_buf := bw_buf b @ take k s\<rparr>))), s, b)
      \<in> measure (\<lambda>(s, b). if bw_err b \<noteq> None then 0 else if bw_buf b = [] then 1 else 2)"
    using bufio_Flush_smaller [of "b\<lparr>bw_buf := bw_buf b @ take k s\<rparr>"] by auto
qed simp

declare bufio_Write.simps [simp del]

text \<open>\<^verbatim>\<open>WriteByte\<close> flushes a full buffer first.\<close>

definition bufio_WriteByte :: "char \<Rightarrow> bufioWriter \<Rightarrow> io_error option \<times> bufioWriter" where
  "bufio_WriteByte c b =
     (case bw_err b of
        Some e \<Rightarrow> (Some e, b)
      | None \<Rightarrow>
          (case (if length (bw_buf b) < bufSize then (None, b) else bufio_Flush b) of
             (Some e, b') \<Rightarrow> (Some e, b')
           | (None, b') \<Rightarrow> (None, b'\<lparr>bw_buf := bw_buf b' @ [c]\<rparr>)))"

section \<open>What reaches the destination\<close>

definition buf_inv :: "string \<Rightarrow> bufioWriter \<Rightarrow> bool" where
  "buf_inv tx b \<longleftrightarrow>
     prefix (d_out (bw_dst b)) tx \<and> (bw_err b = None \<longrightarrow> d_out (bw_dst b) @ bw_buf b = tx)"

lemma dst_Write_out:
  "dst_Write s d = (n, e, d') \<Longrightarrow> prefix (d_out d') (d_out d @ s) \<and> (e = None \<longrightarrow> d_out d' = d_out d @ s)"
  by (auto simp: dst_Write_def take_is_prefix split: list.splits option.splits)

lemma buf_inv_Flush:
  assumes "buf_inv tx b" "bufio_Flush b = (e, b')"
  shows "buf_inv tx b'" "e = bw_err b'" "e = None \<Longrightarrow> bw_buf b' = []"
proof -
  show "e = bw_err b'" "e = None \<Longrightarrow> bw_buf b' = []"
    using assms(2) by (auto simp: bufio_Flush_def split: option.splits if_splits prod.splits)
  show "buf_inv tx b'"
    using assms by (auto simp: bufio_Flush_def buf_inv_def split: option.splits if_splits prod.splits dest!: dst_Write_out)
qed

lemma buf_inv_extend: "buf_inv tx b \<Longrightarrow> bw_err b \<noteq> None \<Longrightarrow> buf_inv (tx @ s) b"
  by (auto simp: buf_inv_def)

lemma buf_inv_Write:
  "buf_inv tx b \<Longrightarrow> bufio_Write s b = (e, b') \<Longrightarrow> buf_inv (tx @ s) b' \<and> e = bw_err b'"
proof (induction s b arbitrary: tx e b' rule: bufio_Write.induct)
  case (1 s b)
  let ?k = "bufSize - length (bw_buf b)"
  consider (fits) "\<not> (length s > ?k \<and> bw_err b = None)"
    | (direct) "length s > ?k \<and> bw_err b = None" "bw_buf b = []"
    | (loop) "length s > ?k \<and> bw_err b = None" "bw_buf b \<noteq> []" by blast
  then show ?case
  proof cases
    case fits
    then show ?thesis using 1(2,3)
      by (subst (asm) bufio_Write.simps) (auto simp: buf_inv_def split: option.splits)
  next
    case direct
    then show ?thesis using 1(2,3)
      by (subst (asm) bufio_Write.simps) (auto simp: buf_inv_def split: prod.splits dest!: dst_Write_out)
  next
    case loop
    let ?b1 = "b\<lparr>bw_buf := bw_buf b @ take ?k s\<rparr>"
    have w: "bufio_Write (drop ?k s) (snd (bufio_Flush ?b1)) = (e, b')"
      using 1(3) loop by (subst (asm) bufio_Write.simps) (simp add: Let_def)
    have "buf_inv (tx @ take ?k s) ?b1" using 1(2) loop by (auto simp: buf_inv_def)
    then have "buf_inv (tx @ take ?k s) (snd (bufio_Flush ?b1))" using buf_inv_Flush(1) by (metis prod.collapse)
    from 1(1) [OF loop refl this w] show ?thesis by simp
  qed
qed

lemma buf_inv_WriteByte:
  assumes "buf_inv tx b" "bufio_WriteByte c b = (e, b')"
  shows "buf_inv (tx @ [c]) b'" "e = bw_err b'"
proof -
  obtain e1 b1 where f: "bufio_Flush b = (e1, b1)" by fastforce
  note F = buf_inv_Flush [OF assms(1) f]
  show "buf_inv (tx @ [c]) b'" "e = bw_err b'"
    using assms F f by (auto simp: bufio_WriteByte_def buf_inv_def split: option.splits if_splits)
qed

text \<open>Nothing that has reached the destination is taken back.\<close>

lemma dst_Write_prefix: "dst_Write s d = (n, e, d') \<Longrightarrow> prefix (d_out d) (d_out d')"
  by (auto simp: dst_Write_def split: list.splits option.splits)

lemma bufio_Flush_out: "bufio_Flush b = (e, b') \<Longrightarrow> prefix (d_out (bw_dst b)) (d_out (bw_dst b'))"
  by (auto simp: bufio_Flush_def split: option.splits if_splits prod.splits dest: dst_Write_prefix)

lemma bufio_Write_out: "bufio_Write s b = (e, b') \<Longrightarrow> prefix (d_out (bw_dst b)) (d_out (bw_dst b'))"
proof (induction s b arbitrary: e b' rule: bufio_Write.induct)
  case (1 s b)
  let ?k = "bufSize - length (bw_buf b)"
  let ?b1 = "b\<lparr>bw_buf := bw_buf b @ take ?k s\<rparr>"
  show ?case
  proof (cases "length s > ?k \<and> bw_err b = None \<and> bw_buf b \<noteq> []")
    case True
    then have w: "bufio_Write (drop ?k s) (snd (bufio_Flush ?b1)) = (e, b')"
      using 1(2) by (subst (asm) bufio_Write.simps) (simp add: Let_def)
    have "prefix (d_out (bw_dst b)) (d_out (bw_dst (snd (bufio_Flush ?b1))))"
      using bufio_Flush_out [of ?b1] by (cases "bufio_Flush ?b1") simp
    with 1(1) [OF _ _ refl w] True show ?thesis by (auto intro: prefix_order.trans)
  next
    case False
    with 1(2) show ?thesis
      by (subst (asm) bufio_Write.simps) (auto split: if_splits prod.splits option.splits dest: dst_Write_prefix)
  qed
qed

end
