(* ===== verification/WritePump.thy ===== *)
theory WritePump
  imports Bufio GoPrelude
begin

text \<open>
  The write side of a connection as goroutines: \<^verbatim>\<open>send\<close>, \<^verbatim>\<open>writePump\<close> and \<^verbatim>\<open>shutdown\<close> of
  \<^verbatim>\<open>broker/connection.go\<close>.

  Every call of \<^verbatim>\<open>send\<close> is a sender with a number of its own. It either gets its request into the buffered
  channel \<^verbatim>\<open>writeCh\<close> and waits for the answer, or finds the connection closed. The pump takes requests one at a
  time, writes and flushes them through a \<^verbatim>\<open>bufio.Writer\<close> on the socket, and answers. A select with several
  ready cases may take any of them: each case is a step of its own.
\<close>

section \<open>Senders and pump\<close>

type_synonym writeRequest = "nat \<times> string"

datatype sendError = WriteError io_error | ConnectionClosed

datatype sendPc = NotSent | Waiting | Returned "sendError option"

datatype pumpPc = Pumping | Leaving | Exited

record pump =
  wp_writeCh :: "writeRequest list"
  wp_w :: bufioWriter
  wp_pc :: pumpPc
  wp_closed :: bool
  wp_send :: "nat \<Rightarrow> sendPc"

definition writeChCap :: nat where "writeChCap = 64"

definition newPump :: "dst \<Rightarrow> pump" where
  "newPump d =
     \<lparr>wp_writeCh = [], wp_w = \<lparr>bw_buf = [], bw_err = None, bw_dst = d\<rparr>, wp_pc = Pumping, wp_closed = False,
      wp_send = (\<lambda>_. NotSent)\<rparr>"

datatype pumpAct = Submit nat string | Refuse nat | Pump | SeeClosed | Leave | Shutdown

text \<open>The two cases of the select in \<^verbatim>\<open>send\<close>.\<close>

definition sendSubmit :: "nat \<Rightarrow> string \<Rightarrow> pump \<Rightarrow> pump option" where
  "sendSubmit i data p =
     (if wp_send p i = NotSent \<and> length (wp_writeCh p) < writeChCap
      then Some (p\<lparr>wp_writeCh := wp_writeCh p @ [(i, data)], wp_send := (wp_send p)(i := Waiting)\<rparr>)
      else None)"

definition sendRefuse :: "nat \<Rightarrow> pump \<Rightarrow> pump option" where
  "sendRefuse i p =
     (if wp_send p i = NotSent \<and> wp_closed p
      then Some (p\<lparr>wp_send := (wp_send p)(i := Returned (Some ConnectionClosed))\<rparr>)
      else None)"

text \<open>One request: write, flush, answer; the first error ends the pump.\<close>

definition answer :: "nat \<Rightarrow> io_error option \<Rightarrow> bufioWriter \<Rightarrow> pump \<Rightarrow> pump" where
  "answer i err w p =
     p\<lparr>wp_w := w, wp_send := (wp_send p)(i := Returned (map_option WriteError err)),
       wp_pc := (if err = None then Pumping else Leaving)\<rparr>"

definition pumpRequest :: "pump \<Rightarrow> pump option" where
  "pumpRequest p =
     (case (wp_pc p, wp_writeCh p) of
        (Pumping, (i, data) # rest) \<Rightarrow>
          Some (case bufio_Write data (wp_w p) of
                  (Some e, w) \<Rightarrow> answer i (Some e) w (p\<lparr>wp_writeCh := rest\<rparr>)
                | (None, w) \<Rightarrow> (case bufio_Flush w of (err, w') \<Rightarrow> answer i err w' (p\<lparr>wp_writeCh := rest\<rparr>)))
      | _ \<Rightarrow> None)"

definition pumpSeeClosed :: "pump \<Rightarrow> pump option" where
  "pumpSeeClosed p = (if wp_pc p = Pumping \<and> wp_closed p then Some (p\<lparr>wp_pc := Leaving\<rparr>) else None)"

definition shutdownPump :: "pump \<Rightarrow> pump" where
  "shutdownPump p = p\<lparr>wp_closed := True\<rparr>"

text \<open>The deferred \<^verbatim>\<open>shutdown\<close> of the pump.\<close>

definition pumpLeave :: "pump \<Rightarrow> pump option" where
  "pumpLeave p = (if wp_pc p = Leaving then Some ((shutdownPump p)\<lparr>wp_pc := Exited\<rparr>) else None)"

fun pumpStep :: "pumpAct \<Rightarrow> pump \<Rightarrow> pump option" where
  "pumpStep (Submit i data) p = sendSubmit i data p"
| "pumpStep (Refuse i) p = sendRefuse i p"
| "pumpStep Pump p = pumpRequest p"
| "pumpStep SeeClosed p = pumpSeeClosed p"
| "pumpStep Leave p = pumpLeave p"
| "pumpStep Shutdown p = Some (shutdownPump p)"

fun runPump :: "pumpAct list \<Rightarrow> pump \<Rightarrow> pump option" where
  "runPump [] p = Some p"
| "runPump (a # as) p = (case pumpStep a p of None \<Rightarrow> None | Some p' \<Rightarrow> runPump as p')"

lemmas pump_defs = sendSubmit_def sendRefuse_def pumpRequest_def answer_def pumpSeeClosed_def shutdownPump_def pumpLeave_def

fun submitted :: "pumpAct \<Rightarrow> writeRequest list" where
  "submitted (Submit i data) = [(i, data)]"
| "submitted a = []"

section \<open>What the peer reads\<close>

text \<open>\<open>oks\<close> are the requests answered without an error, \<open>bad\<close> the one that failed, if any.\<close>

definition answers_ok :: "pump \<Rightarrow> writeRequest list \<Rightarrow> writeRequest list \<Rightarrow> bool" where
  "answers_ok p oks bad \<longleftrightarrow>
     distinct (map fst (oks @ bad @ wp_writeCh p)) \<and>
     (\<forall>i. i \<notin> fst ` set (oks @ bad @ wp_writeCh p) \<longrightarrow> wp_send p i \<in> {NotSent, Returned (Some ConnectionClosed)}) \<and>
     (\<forall>i \<in> fst ` set oks. wp_send p i = Returned None) \<and>
     (\<forall>i \<in> fst ` set bad. \<exists>e. wp_send p i = Returned (Some (WriteError e))) \<and>
     (\<forall>i \<in> fst ` set (wp_writeCh p). wp_send p i = Waiting)"

definition wire_ok :: "bufioWriter \<Rightarrow> writeRequest list \<Rightarrow> writeRequest list \<Rightarrow> bool" where
  "wire_ok w oks bad \<longleftrightarrow>
     (if bad = [] then bw_err w = None \<and> bw_buf w = [] \<and> d_out (bw_dst w) = concat (map snd oks)
      else prefix (concat (map snd oks)) (d_out (bw_dst w)) \<and> prefix (d_out (bw_dst w)) (concat (map snd (oks @ bad))))"

definition pump_inv :: "pump \<Rightarrow> writeRequest list \<Rightarrow> writeRequest list \<Rightarrow> bool" where
  "pump_inv p oks bad \<longleftrightarrow>
     answers_ok p oks bad \<and> wire_ok (wp_w p) oks bad \<and> length bad \<le> 1 \<and> (bad \<noteq> [] \<longrightarrow> wp_pc p \<noteq> Pumping) \<and>
     (wp_pc p = Exited \<longrightarrow> wp_closed p)"

text \<open>A sender that has not sent yet has no request anywhere.\<close>

lemma answers_ok_NotSent: "answers_ok p oks bad \<Longrightarrow> wp_send p i = NotSent \<Longrightarrow> i \<notin> fst ` set (oks @ bad @ wp_writeCh p)"
  unfolding answers_ok_def by force

lemma answers_ok_iff:
  assumes "answers_ok p oks bad"
  shows "(wp_send p i = Returned None \<longleftrightarrow> i \<in> fst ` set oks) \<and> (wp_send p i = Waiting \<longleftrightarrow> i \<in> fst ` set (wp_writeCh p))"
proof -
  have d: "set (map fst oks) \<inter> set (map fst (bad @ wp_writeCh p)) = {}" "set (map fst bad) \<inter> set (map fst (wp_writeCh p)) = {}"
    using assms by (auto simp: answers_ok_def)
  consider "i \<notin> fst ` set (oks @ bad @ wp_writeCh p)" | "i \<in> fst ` set oks" | "i \<in> fst ` set bad" | "i \<in> fst ` set (wp_writeCh p)"
    by auto
  then show ?thesis
  proof cases
    case 1
    then have "wp_send p i \<in> {NotSent, Returned (Some ConnectionClosed)}" using assms unfolding answers_ok_def by blast
    with 1 show ?thesis by auto
  next
    case 2
    then have "wp_send p i = Returned None" using assms unfolding answers_ok_def by blast
    with 2 d show ?thesis by auto
  next
    case 3
    then obtain e where "wp_send p i = Returned (Some (WriteError e))" using assms unfolding answers_ok_def by blast
    with 3 d show ?thesis by auto
  next
    case 4
    then have "wp_send p i = Waiting" using assms unfolding answers_ok_def by blast
    with 4 d show ?thesis by auto
  qed
qed

lemma pump_inv_Submit:
  assumes "pump_inv p oks bad" "sendSubmit i data p = Some p'"
  shows "pump_inv p' oks bad" "wp_writeCh p' = wp_writeCh p @ [(i, data)]"
proof -
  from assms(2) have i: "wp_send p i = NotSent"
    and p': "p' = p\<lparr>wp_writeCh := wp_writeCh p @ [(i, data)], wp_send := (wp_send p)(i := Waiting)\<rparr>"
    by (auto simp: sendSubmit_def split: if_splits)
  show "wp_writeCh p' = wp_writeCh p @ [(i, data)]" by (simp add: p')
  have a: "answers_ok p oks bad" using assms(1) by (simp add: pump_inv_def)
  note new = answers_ok_NotSent [OF a i]
  have "answers_ok p' oks bad" using a new unfolding answers_ok_def p' by (auto simp: image_iff)
  with assms(1) show "pump_inv p' oks bad" by (simp add: pump_inv_def p')
qed

lemma pump_inv_Refuse:
  assumes "pump_inv p oks bad" "sendRefuse i p = Some p'"
  shows "pump_inv p' oks bad" "wp_writeCh p' = wp_writeCh p"
proof -
  from assms(2) have i: "wp_send p i = NotSent" and p': "p' = p\<lparr>wp_send := (wp_send p)(i := Returned (Some ConnectionClosed))\<rparr>"
    by (auto simp: sendRefuse_def split: if_splits)
  show "wp_writeCh p' = wp_writeCh p" by (simp add: p')
  have a: "answers_ok p oks bad" using assms(1) by (simp add: pump_inv_def)
  note new = answers_ok_NotSent [OF a i]
  have "answers_ok p' oks bad" using a new unfolding answers_ok_def p' by (auto simp: image_iff)
  with assms(1) show "pump_inv p' oks bad" by (simp add: pump_inv_def p')
qed

lemma answers_ok_answer:
  assumes "answers_ok p oks []" "wp_writeCh p = (i, data) # rest"
  shows "answers_ok (answer i None w (p\<lparr>wp_writeCh := rest\<rparr>)) (oks @ [(i, data)]) []"
    "answers_ok (answer i (Some e) w (p\<lparr>wp_writeCh := rest\<rparr>)) oks [(i, data)]"
  using assms by (auto simp: answers_ok_def answer_def image_iff)

lemma pump_inv_Pump:
  assumes "pump_inv p oks bad" "pumpRequest p = Some p'"
  shows "\<exists>oks' bad'. pump_inv p' oks' bad' \<and> oks' @ bad' @ wp_writeCh p' = oks @ bad @ wp_writeCh p"
proof -
  from assms(2) obtain i data rest where ch: "wp_pc p = Pumping" "wp_writeCh p = (i, data) # rest"
    by (auto simp: pumpRequest_def split: pumpPc.splits list.splits)
  with assms(1) have bad: "bad = []" and a: "answers_ok p oks []" and w: "wire_ok (wp_w p) oks []"
    by (auto simp: pump_inv_def)
  let ?p = "p\<lparr>wp_writeCh := rest\<rparr>" and ?tx = "concat (map snd oks)"
  have inv: "buf_inv ?tx (wp_w p)" and out: "d_out (bw_dst (wp_w p)) = ?tx" using w by (auto simp: wire_ok_def buf_inv_def)
  obtain e1 w1 where w1: "bufio_Write data (wp_w p) = (e1, w1)" by fastforce
  obtain e2 w2 where w2: "bufio_Flush w1 = (e2, w2)" by fastforce
  note B1 = buf_inv_Write [OF inv w1] and M1 = bufio_Write_out [OF w1, unfolded out]
  note B2 = buf_inv_Flush [OF conjunct1 [OF B1] w2] and M2 = prefix_order.trans [OF M1 bufio_Flush_out [OF w2]]
  have fail: ?thesis if "p' = answer i (Some e) w' ?p" "buf_inv (?tx @ data) w'" "prefix ?tx (d_out (bw_dst w'))" for e w'
    using that answers_ok_answer(2) [OF a ch(2), of e w'] bad ch
    by (intro exI [of _ oks] exI [of _ "[(i, data)]"]) (auto simp: pump_inv_def wire_ok_def answer_def buf_inv_def)
  show ?thesis
  proof (cases "e1 = None \<and> e2 = None")
    case True
    then have p': "p' = answer i None w2 ?p" using assms(2) ch w1 w2 by (simp add: pumpRequest_def)
    have "wire_ok w2 (oks @ [(i, data)]) []" using True B2 by (auto simp: wire_ok_def buf_inv_def)
    then show ?thesis using answers_ok_answer(1) [OF a ch(2), of w2] bad ch
      by (intro exI [of _ "oks @ [(i, data)]"] exI [of _ "[]"]) (auto simp: pump_inv_def p' answer_def)
  next
    case False
    then consider x where "e1 = Some x" | x where "e1 = None" "e2 = Some x" by auto
    then show ?thesis
    proof cases
      case (1 x)
      then have "p' = answer i (Some x) w1 ?p" using assms(2) ch w1 by (simp add: pumpRequest_def)
      then show ?thesis using fail B1 M1 by blast
    next
      case (2 x)
      then have "p' = answer i (Some x) w2 ?p" using assms(2) ch w1 w2 by (simp add: pumpRequest_def)
      then show ?thesis using fail B2(1) M2 by blast
    qed
  qed
qed

lemma pump_inv_step:
  assumes "pump_inv p oks bad" "pumpStep a p = Some p'"
  shows "\<exists>oks' bad'. pump_inv p' oks' bad' \<and> oks' @ bad' @ wp_writeCh p' = oks @ bad @ wp_writeCh p @ submitted a"
proof (cases a)
  case (Submit i data)
  with assms pump_inv_Submit [OF assms(1)] show ?thesis by (intro exI [of _ oks] exI [of _ bad]) simp
next
  case (Refuse i)
  with assms pump_inv_Refuse [OF assms(1)] show ?thesis by (intro exI [of _ oks] exI [of _ bad]) simp
next
  case Pump
  with assms pump_inv_Pump [OF assms(1)] show ?thesis by simp
qed (use assms in \<open>force simp: pump_defs pump_inv_def answers_ok_def split: if_splits\<close>)+

lemma pump_inv_newPump: "d_out d = [] \<Longrightarrow> pump_inv (newPump d) [] []"
  by (simp add: newPump_def pump_inv_def answers_ok_def wire_ok_def)

lemma pump_inv_run:
  assumes "pump_inv p oks bad" "runPump as p = Some p'"
  shows "\<exists>oks' bad'. pump_inv p' oks' bad' \<and>
    oks' @ bad' @ wp_writeCh p' = oks @ bad @ wp_writeCh p @ concat (map submitted as)"
  using assms
proof (induction as arbitrary: p oks bad)
  case (Cons a as)
  from Cons.prems(2) obtain p1 where 1: "pumpStep a p = Some p1" "runPump as p1 = Some p'" by (auto split: option.splits)
  from pump_inv_step [OF Cons.prems(1) 1(1)] obtain oks1 bad1 where
    2: "pump_inv p1 oks1 bad1" "oks1 @ bad1 @ wp_writeCh p1 = oks @ bad @ wp_writeCh p @ submitted a" by blast
  from Cons.IH [OF 2(1) 1(2)] obtain oks' bad' where
    3: "pump_inv p' oks' bad'" "oks' @ bad' @ wp_writeCh p' = oks1 @ bad1 @ wp_writeCh p1 @ concat (map submitted as)" by blast
  from 2(2) have "oks1 @ bad1 @ wp_writeCh p1 @ x = oks @ bad @ wp_writeCh p @ submitted a @ x" for x
    by (metis append.assoc)
  with 3 show ?case by (intro exI [of _ oks'] exI [of _ bad']) simp
qed auto

lemma pump_wire:
  assumes "runPump as (newPump d) = Some p" "d_out d = []"
  shows "\<exists>oks bad part. concat (map submitted as) = oks @ bad @ wp_writeCh p \<and> length bad \<le> 1 \<and>
    d_out (bw_dst (wp_w p)) = concat (map snd oks) @ part \<and> prefix part (concat (map snd bad)) \<and>
    (\<forall>i. wp_send p i = Returned None \<longleftrightarrow> i \<in> fst ` set oks) \<and>
    (\<forall>i. wp_send p i = Waiting \<longleftrightarrow> i \<in> fst ` set (wp_writeCh p))"
proof -
  from pump_inv_run [OF pump_inv_newPump [OF assms(2)] assms(1)] obtain oks bad where
    inv: "pump_inv p oks bad" and sub: "oks @ bad @ wp_writeCh p = concat (map submitted as)"
    by (auto simp: newPump_def)
  from inv have a: "answers_ok p oks bad" and w: "wire_ok (wp_w p) oks bad" and l: "length bad \<le> 1"
    by (auto simp: pump_inv_def)
  obtain part where part: "d_out (bw_dst (wp_w p)) = concat (map snd oks) @ part" "prefix part (concat (map snd bad))"
  proof (cases "bad = []")
    case False
    with w obtain part where "d_out (bw_dst (wp_w p)) = concat (map snd oks) @ part" by (auto simp: wire_ok_def elim!: prefixE)
    with w False that show ?thesis by (auto simp: wire_ok_def)
  qed (use w that in \<open>simp add: wire_ok_def\<close>)
  then show ?thesis using sub l answers_ok_iff [OF a]
    by (intro exI [of _ oks] exI [of _ bad] exI [of _ part]) simp
qed

text \<open>
  C7. The peer reads whole lines in the order the senders got them accepted. However senders, pump and shutdown
  interleave and wherever the socket fails, the accepted requests split into those answered without an error, at most one
  that failed, and those still waiting; the socket carries exactly the lines of the first group, followed by an initial
  part of the failed one; and a send without an error is one whose line was written.
\<close>

theorem pump_writes_whole_lines:
  assumes "runPump as (newPump d) = Some p" "d_out d = []"
  shows "\<exists>oks bad part. concat (map submitted as) = oks @ bad @ wp_writeCh p \<and> length bad \<le> 1 \<and>
    d_out (bw_dst (wp_w p)) = concat (map snd oks) @ part \<and> prefix part (concat (map snd bad)) \<and>
    (\<forall>i. wp_send p i = Returned None \<longleftrightarrow> i \<in> fst ` set oks) \<and>
    (\<forall>i. wp_send p i = Waiting \<longleftrightarrow> i \<in> fst ` set (wp_writeCh p))"
  by (rule pump_wire [OF assms])

definition brokenSocket :: dst where
  "brokenSocket = \<lparr>d_out = [], d_plan = [None, Some 2]\<rparr>"

theorem pump_writes_whole_lines_witness:
  "\<exists>p oks bad part. runPump [Submit 0 ''ab'', Submit 1 ''cdef'', Pump, Pump, Leave] (newPump brokenSocket) = Some p \<and>
     d_out (bw_dst (wp_w p)) = concat (map snd oks) @ part \<and> prefix part (concat (map snd (bad :: writeRequest list))) \<and>
     [(0, ''ab''), (1, ''cdef'')] = oks @ bad \<and> wp_send p 0 = Returned None"
proof -
  let ?as = "[Submit 0 ''ab'', Submit 1 ''cdef'', Pump, Pump, Leave]"
  have "\<exists>p. runPump ?as (newPump brokenSocket) = Some p \<and> wp_writeCh p = [] \<and> wp_send p 0 = Returned None"
    by (simp add: newPump_def brokenSocket_def pump_defs writeChCap_def bufio_Write.simps bufSize_def bufio_Flush_def
        dst_Write_def)
  then obtain p where p: "runPump ?as (newPump brokenSocket) = Some p" "wp_writeCh p = []" "wp_send p 0 = Returned None" by blast
  from pump_writes_whole_lines [OF p(1)] p(2) obtain oks bad part where
    "concat (map submitted ?as) = oks @ bad" "d_out (bw_dst (wp_w p)) = concat (map snd oks) @ part"
    "prefix part (concat (map snd bad))" by (auto simp: brokenSocket_def)
  with p show ?thesis by (intro exI [of _ p] exI [of _ oks] exI [of _ bad] exI [of _ part]) simp
qed

section \<open>Answers\<close>

lemma healthy_Write: "bw_err b = None \<Longrightarrow> d_plan (bw_dst b) = [] \<Longrightarrow> bufio_Write s b = (e, b') \<Longrightarrow>
  e = None \<and> bw_err b' = None \<and> d_plan (bw_dst b') = []"
proof (induction s b arbitrary: e b' rule: bufio_Write.induct)
  case (1 s b)
  let ?k = "bufSize - length (bw_buf b)"
  let ?b1 = "b\<lparr>bw_buf := bw_buf b @ take ?k s\<rparr>"
  show ?case
  proof (cases "length s > ?k \<and> bw_err b = None \<and> bw_buf b \<noteq> []")
    case True
    then have w: "bufio_Write (drop ?k s) (snd (bufio_Flush ?b1)) = (e, b')"
      using 1(4) by (subst (asm) bufio_Write.simps) (simp add: Let_def)
    have "bw_err (snd (bufio_Flush ?b1)) = None" "d_plan (bw_dst (snd (bufio_Flush ?b1))) = []"
      using 1(2,3) by (auto simp: bufio_Flush_def dst_Write_def split: option.splits)
    with 1(1) [OF _ _ refl _ _ w] True show ?thesis by blast
  next
    case False
    with 1(2-4) show ?thesis
      by (subst (asm) bufio_Write.simps) (auto simp: dst_Write_def split: if_splits prod.splits option.splits)
  qed
qed

lemma healthy_Flush: "bw_err b = None \<Longrightarrow> d_plan (bw_dst b) = [] \<Longrightarrow> bufio_Flush b = (e, b') \<Longrightarrow>
  e = None \<and> bw_err b' = None \<and> d_plan (bw_dst b') = []"
  by (auto simp: bufio_Flush_def dst_Write_def split: if_splits)

definition healthy :: "pump \<Rightarrow> bool" where
  "healthy p \<longleftrightarrow> wp_pc p = Pumping \<and> bw_err (wp_w p) = None \<and> d_plan (bw_dst (wp_w p)) = []"

lemma healthy_pumpRequest:
  assumes "healthy p" "wp_writeCh p = (i, data) # rest"
  shows "\<exists>p'. pumpRequest p = Some p' \<and> healthy p' \<and> wp_writeCh p' = rest \<and> wp_send p' = (wp_send p)(i := Returned None)"
proof -
  obtain e1 w1 where w1: "bufio_Write data (wp_w p) = (e1, w1)" by fastforce
  obtain e2 w2 where w2: "bufio_Flush w1 = (e2, w2)" by fastforce
  from assms(1) have p: "wp_pc p = Pumping" "bw_err (wp_w p) = None" "d_plan (bw_dst (wp_w p)) = []" by (auto simp: healthy_def)
  note H1 = healthy_Write [OF p(2,3) w1]
  have H2: "e2 = None \<and> bw_err w2 = None \<and> d_plan (bw_dst w2) = []" using healthy_Flush w2 H1 by blast
  show ?thesis using assms(2) p w1 w2 H1 H2 by (simp add: pumpRequest_def answer_def healthy_def)
qed

text \<open>
  C22. A running pump on a working socket answers every request that waits: after as many turns as there are requests the
  channel is empty and each of their senders has returned without an error.
\<close>

theorem pump_answers_all:
  assumes "healthy p"
  shows "\<exists>p'. runPump (replicate (length (wp_writeCh p)) Pump) p = Some p' \<and> wp_writeCh p' = [] \<and>
    (\<forall>i \<in> fst ` set (wp_writeCh p). wp_send p' i = Returned None)"
proof -
  have "healthy p \<Longrightarrow> wp_writeCh p = rs \<Longrightarrow> \<exists>p'. runPump (replicate (length rs) Pump) p = Some p' \<and> wp_writeCh p' = [] \<and>
    (\<forall>i. wp_send p' i = (if i \<in> fst ` set rs then Returned None else wp_send p i))" for rs p
  proof (induction rs arbitrary: p)
    case (Cons r rs)
    obtain i data where r: "r = (i, data)" by fastforce
    from healthy_pumpRequest [OF Cons.prems(1), of i data rs] Cons.prems(2) r obtain p1 where
      1: "pumpRequest p = Some p1" "healthy p1" "wp_writeCh p1 = rs" "wp_send p1 = (wp_send p)(i := Returned None)" by auto
    from Cons.IH [OF 1(2,3)] 1 r show ?case by auto
  qed simp
  from this [OF assms refl] show ?thesis by auto
qed

theorem pump_answers_all_witness:
  "\<exists>p p'. runPump [Submit 0 ''ab'', Submit 1 ''cd''] (newPump \<lparr>d_out = [], d_plan = []\<rparr>) = Some p \<and>
     runPump [Pump, Pump] p = Some p' \<and> wp_send p' 0 = Returned None \<and> wp_send p' 1 = Returned None"
proof -
  let ?d = "\<lparr>d_out = [], d_plan = []\<rparr> :: dst"
  have "\<exists>p. runPump [Submit 0 ''ab'', Submit 1 ''cd''] (newPump ?d) = Some p \<and> healthy p \<and>
      wp_writeCh p = [(0, ''ab''), (1, ''cd'')]"
    by (simp add: newPump_def pump_defs writeChCap_def healthy_def)
  then obtain p where p: "runPump [Submit 0 ''ab'', Submit 1 ''cd''] (newPump ?d) = Some p" "healthy p"
      "wp_writeCh p = [(0, ''ab''), (1, ''cd'')]" by blast
  from pump_answers_all [OF p(2)] p(3) obtain p' where
    "runPump [Pump, Pump] p = Some p'" "wp_send p' 0 = Returned None" "wp_send p' 1 = Returned None"
    by (auto simp: numeral_2_eq_2)
  with p show ?thesis by blast
qed

text \<open>
  C25. A send can wait forever. After the pump has left, the channel still takes requests, and the select of a sender
  may choose it over the closed signal: from the state reached below no step of any goroutine ever answers that sender.
\<close>

theorem send_waits_forever:
  "\<exists>as p. runPump as (newPump d) = Some p \<and> wp_send p i = Waiting \<and>
     \<not> (\<exists>bs p'. runPump bs p = Some p' \<and> wp_send p' i \<noteq> Waiting)"
proof -
  have stuck: "wp_pc p = Exited \<Longrightarrow> wp_send p i = Waiting \<Longrightarrow> runPump bs p = Some p' \<Longrightarrow> wp_send p' i = Waiting" for bs p p'
  proof (induction bs arbitrary: p)
    case (Cons b bs)
    then obtain p1 where 1: "pumpStep b p = Some p1" "runPump bs p1 = Some p'" by (auto split: option.splits)
    have "wp_pc p1 = Exited" "wp_send p1 i = Waiting"
      using Cons.prems(1,2) 1(1) by (cases b; auto simp: pump_defs split: if_splits)+
    with Cons.IH 1(2) show ?case by blast
  qed simp
  let ?as = "[Shutdown, SeeClosed, Leave, Submit i []]"
  have "\<exists>p. runPump ?as (newPump d) = Some p \<and> wp_pc p = Exited \<and> wp_send p i = Waiting"
    by (simp add: newPump_def pump_defs writeChCap_def)
  with stuck show ?thesis by blast
qed

end
