(* ===== verification/Wire.thy ===== *)
theory Wire
  imports JsonText Protocol WritePump
begin

text \<open>
  The connection as a stream of bytes. The other theories see what a connection reads as a list of lines, each the
  JSON value of its text or another text (\<open>line\<close>); here these lines are cut out of the bytes as \<^verbatim>\<open>ReadBytes('\n')\<close> does it
  and their texts are read by the JSON reader. The facts show that the two views agree: what one side writes as
  values, the other reads as the same values, also through the write pump and a socket that fails somewhere.
\<close>

section \<open>Bytes and lines\<close>

definition lineOf :: "string \<Rightarrow> line" where
  "lineOf s = (case parseText s of Some j \<Rightarrow> JsonLine j | None \<Rightarrow> TextLine s)"

text \<open>A last line without its newline is never returned by \<^verbatim>\<open>ReadBytes\<close> without an error.\<close>

definition linesOf :: "string \<Rightarrow> line list" where
  "linesOf bytes = map lineOf (butlast (splitOn CHR 0x0A bytes))"

text \<open>What \<^verbatim>\<open>WriteMessage\<close> and \<^verbatim>\<open>WriteEnvelope\<close> hand to \<^verbatim>\<open>send\<close>.\<close>

definition lineText :: "json \<Rightarrow> string" where
  "lineText j = json_text j @ [CHR 0x0A]"

lemma splitOn_not_Nil [simp]: "splitOn c s \<noteq> []"
  by (induction s) (auto split: list.split)

lemma linesOf_text: "CHR 0x0A \<notin> set s \<Longrightarrow> linesOf (s @ CHR 0x0A # rest) = lineOf s # linesOf rest"
  by (simp add: linesOf_def splitOn_append)

lemma linesOf_part: "CHR 0x0A \<notin> set s \<Longrightarrow> linesOf s = []"
  by (simp add: linesOf_def splitOn_none)

lemma linesOf_json: "json_fits j \<Longrightarrow> linesOf (lineText j @ rest) = JsonLine j # linesOf rest"
  using newline_json_text [of j] parse_json_text [of j] by (simp add: lineText_def linesOf_text lineOf_def json_fits_def)

lemma linesOf_jsons: "list_all json_fits js \<Longrightarrow> linesOf (concat (map lineText js) @ rest) = map JsonLine js @ linesOf rest"
  by (induction js) (simp_all add: linesOf_json)

text \<open>The header line of a client is no JSON text, and \<^verbatim>\<open>ReadProtocolHeader\<close> accepts it out of the bytes.\<close>

lemma header_line: "ReadProtocolHeader (linesOf (ProtocolHeader @ CHR 0x0A # rest)) = (None, linesOf rest)"
proof -
  have "parseText ProtocolHeader = None" "CHR 0x0A \<notin> set ProtocolHeader" by code_simp+
  then show ?thesis by (simp add: linesOf_text lineOf_def)
qed

text \<open>A line of which only a part has arrived is not seen, unless only the end of its text is missing.\<close>

lemma linesOf_prefix:
  assumes "prefix part (lineText j)" "json_fits j"
  shows "linesOf part = (if part = lineText j then [JsonLine j] else [])"
proof (cases "part = lineText j")
  case True
  then show ?thesis using linesOf_json [OF assms(2), of "[]"] linesOf_part [of "[]"] by simp
next
  case False
  then have "prefix part (json_text j)" using assms(1) by (simp add: lineText_def)
  then have "CHR 0x0A \<notin> set part" using newline_json_text [of j] assms(2) by (auto simp: json_fits_def dest: set_mono_prefix)
  then show ?thesis using False linesOf_part by simp
qed

section \<open>Texts of messages\<close>

text \<open>Every message the program writes has a text that reads back, as long as its strings are UTF-8.\<close>

definition flat_ok :: "json \<Rightarrow> bool" where
  "flat_ok j \<longleftrightarrow> json_ok j \<and> json_depth j = 0"

lemma b64_alphabet_ascii: "ascii b64_alphabet"
  by code_simp

lemma b64_char_ascii: "n < 64 \<Longrightarrow> of_char (b64_char n) < (0x80 :: nat)"
  using b64_alphabet_ascii b64_alphabet_facts by (simp add: ascii_def b64_char_def list_all_length)

lemma b64enc_ascii: "ascii (b64enc bs)"
  by (induction bs rule: b64enc.induct) (simp_all add: ascii_def b64_sextets b64_char_ascii)

lemma flat_values [simp]:
  "flat_ok JNull" "flat_ok (JBool b)" "flat_ok (jUint16 w)" "flat_ok (jInt n)" "flat_ok (jBytes bs)"
  "flat_ok (JStr s) \<longleftrightarrow> validUtf8 s"
  by (simp_all add: flat_ok_def jUint16_def jInt_def jBytes_def numLit_formatUint numLit_itoa ascii_valid b64enc_ascii)

lemma flat_object:
  assumes "\<forall>kv \<in> set kvs. ascii (fst kv) \<and> flat_ok (snd kv)"
  shows "json_fits (JObj kvs)" "json_depth (JObj kvs) < maxNesting"
proof -
  have "json_depth (JObj kvs) \<le> 1" using assms unfolding depth_JObj by (simp add: flat_ok_def)
  then show "json_fits (JObj kvs)" "json_depth (JObj kvs) < maxNesting"
    using assms by (auto simp: json_fits_def maxNesting_def flat_ok_def ascii_valid)
qed

lemma envelope_fits:
  assumes "validUtf8 (env_Type e)" "\<forall>x \<in> set_option (env_Payload e). json_fits x \<and> json_depth x < maxNesting"
  shows "json_fits (marshal_Envelope e)"
proof -
  define p where "p = (case env_Payload e of None \<Rightarrow> JNull | Some v \<Rightarrow> v)"
  have p: "json_ok p" "json_depth p \<le> maxNesting - 1"
    using assms(2) by (auto simp: p_def json_fits_def split: option.split)
  have "flat_ok (jUint16 (env_ChannelID e))" "flat_ok (jUint16 (env_RequestID e))" "flat_ok (JStr (env_Type e))"
    using assms(1) by simp_all
  moreover have "ascii ''ChannelID''" "ascii ''RequestID''" "ascii ''Type''" "ascii ''Payload''" by code_simp+
  moreover have "0 < maxNesting" by (simp add: maxNesting_def)
  ultimately show ?thesis using p
    unfolding json_fits_def marshal_Envelope_def p_def [symmetric] depth_JObj by (simp add: flat_ok_def ascii_valid)
qed

definition utf8s :: "string list \<Rightarrow> bool" where
  "utf8s ss \<longleftrightarrow> list_all validUtf8 ss"

lemma ascii_Cons [simp]: "ascii (c # s) \<longleftrightarrow> of_char c < (0x80 :: nat) \<and> ascii s" "ascii []"
  by (simp_all add: ascii_def)

lemmas marshal_defs = marshal_ChannelOpen_def marshal_ChannelClose_def marshal_ChannelOpenOK_def marshal_ChannelCloseOK_def
  marshal_Publish_def marshal_Consume_def marshal_ConsumeOK_def marshal_Ack_def marshal_Nack_def marshal_Deliver_def
  marshal_QueueDeclare_def marshal_QueueDeclareOK_def marshal_ExchangeDeclare_def marshal_ExchangeDeclareOK_def
  marshal_QueueBind_def marshal_QueueBindOK_def marshal_ErrorMsg_def

definition payload_fits :: "json \<Rightarrow> bool" where
  "payload_fits x \<longleftrightarrow> json_fits x \<and> json_depth x < maxNesting"

lemma payload_object: "\<forall>kv \<in> set kvs. ascii (fst kv) \<and> flat_ok (snd kv) \<Longrightarrow> payload_fits (JObj kvs)"
  using flat_object by (simp add: payload_fits_def)

text \<open>The messages the broker answers with and delivers, and those that clients send.\<close>

lemma message_fits:
  "payload_fits (marshal_ChannelOpen a1)" "payload_fits (marshal_ChannelClose a2)"
  "payload_fits (marshal_ChannelOpenOK a3)" "payload_fits (marshal_ChannelCloseOK a4)"
  "utf8s [pub_Exchange a5, pub_RoutingKey a5] \<Longrightarrow> payload_fits (marshal_Publish a5)"
  "utf8s [con_Queue a6, con_ConsumerTag a6] \<Longrightarrow> payload_fits (marshal_Consume a6)"
  "utf8s [conok_ConsumerTag a7] \<Longrightarrow> payload_fits (marshal_ConsumeOK a7)"
  "payload_fits (marshal_Ack a8)" "payload_fits (marshal_Nack a9)"
  "utf8s [del_Exchange a10, del_RoutingKey a10, del_ConsumerTag a10] \<Longrightarrow> payload_fits (marshal_Deliver a10)"
  "utf8s [qd_Name a11, qd_DeadLetterExchange a11, qd_DeadLetterRoutingKey a11] \<Longrightarrow> payload_fits (marshal_QueueDeclare a11)"
  "utf8s [qdok_Name a12] \<Longrightarrow> payload_fits (marshal_QueueDeclareOK a12)"
  "utf8s [ed_Name a13] \<Longrightarrow> payload_fits (marshal_ExchangeDeclare a13)"
  "utf8s [edok_Name a14] \<Longrightarrow> payload_fits (marshal_ExchangeDeclareOK a14)"
  "utf8s [qb_Queue a15, qb_Exchange a15, qb_RoutingKey a15] \<Longrightarrow> payload_fits (marshal_QueueBind a15)"
  "payload_fits marshal_QueueBindOK"
  "utf8s [err_Code a16, err_Message a16] \<Longrightarrow> payload_fits (marshal_ErrorMsg a16)"
  unfolding marshal_defs by (rule payload_object; auto simp: utf8s_def omitEmpty_def split: option.splits if_splits)+

section \<open>What the other side reads\<close>

text \<open>
  C21. An envelope reads back from its bytes: written as a line of JSON text, with a type in UTF-8 and a payload nested
  less deeply than the JSON reader allows (every message of the protocol with UTF-8 strings, \<open>message_fits\<close>), it is what
  \<^verbatim>\<open>ReadEnvelope\<close> returns, without an error, and exactly its line is taken from the stream.
\<close>

theorem envelope_bytes_roundtrip:
  assumes "validUtf8 (env_Type e)" "env_Payload e = Some x" "payload_fits x"
  shows "ReadEnvelope (linesOf (lineText (marshal_Envelope e) @ rest)) = ((e, None), linesOf rest)"
proof -
  have "json_fits (marshal_Envelope e)" using envelope_fits [of e] assms by (simp add: payload_fits_def)
  then show ?thesis using assms(2) envelope.decode_marshal [of e]
    by (simp add: linesOf_json ReadEnvelope_def)
qed

definition deliverEnvelope :: Envelope where
  "deliverEnvelope = \<lparr>env_ChannelID = 1, env_RequestID = 0, env_Type = ''basic.deliver'',
     env_Payload = Some (marshal_Deliver \<lparr>del_DeliveryTag = 7, del_Body = [72, 105, 10], del_Exchange = ''email'',
       del_RoutingKey = ''a<b'', del_ConsumerTag = []\<rparr>)\<rparr>"

theorem envelope_bytes_roundtrip_witness:
  "ReadEnvelope (linesOf (lineText (marshal_Envelope deliverEnvelope) @ ''[1''))
     = ((deliverEnvelope, None), linesOf ''[1'')"
proof -
  have "validUtf8 (env_Type deliverEnvelope)" by (rule ascii_valid) (simp add: deliverEnvelope_def)
  moreover have "payload_fits (the (env_Payload deliverEnvelope))"
    unfolding deliverEnvelope_def by (auto simp: utf8s_def ascii_valid intro!: message_fits(10))
  ultimately show ?thesis by (intro envelope_bytes_roundtrip [where x = "the (env_Payload deliverEnvelope)"]) (simp_all add: deliverEnvelope_def)
qed

text \<open>
  The pump with senders that submit JSON lines: \<open>sent\<close> are the values in the order of acceptance.
\<close>

lemma concat_lines: "concat (map (snd \<circ> (\<lambda>(i, j). (i, lineText j))) sent) = concat (map lineText (map snd sent))"
  by (induction sent) auto

text \<open>
  C8. The connection delivers an initial part of what was sent. When every request handed to the write pump is a line of
  JSON text, then however senders, pump and shutdown interleave and wherever the socket fails, the lines the other side
  reads out of the bytes on the wire are the first values that were accepted, in the order of acceptance, and among them
  is every one whose send returned without an error. No value is cut, merged with the next or doubled.
\<close>

theorem peer_reads_sent:
  assumes "runPump as (newPump d) = Some p" "d_out d = []"
    "concat (map submitted as) = map (\<lambda>(i, j). (i, lineText j)) sent" "list_all (json_fits \<circ> snd) sent"
  shows "\<exists>n. linesOf (d_out (bw_dst (wp_w p))) = map (JsonLine \<circ> snd) (take n sent) \<and>
    (\<forall>i. wp_send p i = Returned None \<longrightarrow> i \<in> fst ` set (take n sent))"
proof -
  let ?f = "\<lambda>(i, j). (i, lineText j)"
  from pump_wire [OF assms(1,2)] obtain oks bad part where sub: "map ?f sent = oks @ bad @ wp_writeCh p"
    and bad: "length bad \<le> 1" "prefix part (concat (map snd bad))"
    and out: "d_out (bw_dst (wp_w p)) = concat (map snd oks) @ part"
    and ok: "\<And>i. wp_send p i = Returned None \<longleftrightarrow> i \<in> fst ` set oks" using assms(3) by auto
  define k where "k = length oks"
  have oks: "oks = map ?f (take k sent)" using arg_cong [OF sub, of "take k"] by (simp add: k_def take_map)
  have "list_all json_fits (map snd (take k sent))"
    using assms(4) by (auto simp: list_all_iff dest: in_set_takeD)
  then have lines: "linesOf (concat (map snd oks) @ part) = map (JsonLine \<circ> snd) (take k sent) @ linesOf part"
    using linesOf_jsons [of "map snd (take k sent)" part] by (simp add: oks concat_lines)
  have fst: "fst ` set oks = fst ` set (take k sent)" by (force simp: oks)
  show ?thesis
  proof (cases "linesOf part = []")
    case True
    then show ?thesis using lines out ok fst by (intro exI [of _ k]) auto
  next
    case False
    then have "bad \<noteq> []" using bad(2) linesOf_part [of "[]"] by auto
    then obtain b where b: "bad = [b]" using bad(1) by (cases bad) auto
    have "k < length sent" using arg_cong [OF sub, of length] b by (simp add: k_def)
    have "?f (sent ! k) = b" using arg_cong [OF sub, of "\<lambda>l. l ! k"] b \<open>k < length sent\<close> by (simp add: k_def)
    then have "snd b = lineText (snd (sent ! k))" by (auto split: prod.splits)
    moreover have "json_fits (snd (sent ! k))" using assms(4) \<open>k < length sent\<close> by (simp add: list_all_length)
    ultimately have "linesOf part = [JsonLine (snd (sent ! k))]"
      using linesOf_prefix [of part "snd (sent ! k)"] bad(2) b False by (auto split: if_splits)
    then show ?thesis using lines out ok fst \<open>k < length sent\<close>
      by (intro exI [of _ "Suc k"]) (auto simp: take_Suc_conv_app_nth)
  qed
qed

theorem peer_reads_sent_witness:
  "\<exists>p n. runPump [Submit 0 (lineText (JArr [])), Submit 1 (lineText (JBool True)), Pump, Pump, Leave] (newPump brokenSocket) = Some p \<and>
     linesOf (d_out (bw_dst (wp_w p))) = map (JsonLine \<circ> snd) (take n [(0 :: nat, JArr []), (1, JBool True)]) \<and> 0 < n"
proof -
  let ?as = "[Submit 0 (lineText (JArr [])), Submit 1 (lineText (JBool True)), Pump, Pump, Leave]"
  let ?sent = "[(0 :: nat, JArr []), (1, JBool True)]"
  have texts: "lineText (JArr []) = ''[]'' @ [CHR 0x0A]" "lineText (JBool True) = ''true'' @ [CHR 0x0A]"
    by (simp_all add: lineText_def)
  have "\<exists>p. runPump ?as (newPump brokenSocket) = Some p \<and> wp_send p 0 = Returned None"
    by (simp add: texts newPump_def brokenSocket_def pump_defs writeChCap_def bufio_Write.simps bufSize_def bufio_Flush_def
        dst_Write_def)
  then obtain p where p: "runPump ?as (newPump brokenSocket) = Some p" "wp_send p 0 = Returned None" by blast
  have "list_all (json_fits \<circ> snd) ?sent" by (simp add: json_fits_def maxNesting_def)
  from peer_reads_sent [OF p(1) _ _ this] obtain n where
    "linesOf (d_out (bw_dst (wp_w p))) = map (JsonLine \<circ> snd) (take n ?sent)" "0 \<in> fst ` set (take n ?sent)"
    using p(2) by (auto simp: brokenSocket_def)
  then show ?thesis using p(1) by (intro exI [of _ p] exI [of _ n]) (cases n; simp)
qed

end
