(* ===== verification/Framing.thy ===== *)
theory Framing
  imports Protocol Bufio
begin

text \<open>
  The writing half of \<^verbatim>\<open>protocol/coder-decoder.go\<close>, which the clients of the protocol use; the reading half is in
  the theory \<open>Protocol\<close>, the broker's own writing in \<open>WritePump\<close>. The text \<^verbatim>\<open>json.Marshal\<close> makes of a value is an
  argument, \<open>None\<close> when it fails.
\<close>

datatype frame_error = MarshalFailed | FrameWriteFailed io_error

definition newline :: char where "newline = CHR 0x0A"

definition protocol_WriteMessage :: "string option \<Rightarrow> bufioWriter \<Rightarrow> frame_error option \<times> bufioWriter" where
  "protocol_WriteMessage marshalled w =
     (case marshalled of
        None \<Rightarrow> (Some MarshalFailed, w)
      | Some bytes \<Rightarrow>
          (case bufio_Write bytes w of
             (Some err, w1) \<Rightarrow> (Some (FrameWriteFailed err), w1)
           | (None, w1) \<Rightarrow>
               (case bufio_WriteByte newline w1 of
                  (Some err, w2) \<Rightarrow> (Some (FrameWriteFailed err), w2)
                | (None, w2) \<Rightarrow> (case bufio_Flush w2 of (err, w3) \<Rightarrow> (map_option FrameWriteFailed err, w3)))))"

definition WriteProtocolHeader :: "bufioWriter \<Rightarrow> frame_error option \<times> bufioWriter" where
  "WriteProtocolHeader w =
     (case bufio_Write (ProtocolHeader @ [newline]) w of
        (Some err, w1) \<Rightarrow> (None, w1)
      | (None, w1) \<Rightarrow> (case bufio_Flush w1 of (err, w2) \<Rightarrow> (map_option FrameWriteFailed err, w2)))"

text \<open>A message written without an error has reached the destination as one whole line; otherwise a part of it may have.\<close>

lemma WriteMessage_whole:
  assumes "buf_inv tx w" "protocol_WriteMessage (Some bytes) w = (err, w')"
  shows "prefix (d_out (bw_dst w')) (tx @ bytes @ [newline]) \<and> (err = None \<longrightarrow> d_out (bw_dst w') = tx @ bytes @ [newline])"
proof -
  obtain e1 w1 where 1: "bufio_Write bytes w = (e1, w1)" by fastforce
  obtain e2 w2 where 2: "bufio_WriteByte newline w1 = (e2, w2)" by fastforce
  obtain e3 w3 where 3: "bufio_Flush w2 = (e3, w3)" by fastforce
  note W = buf_inv_Write [OF assms(1) 1]
  note B = buf_inv_WriteByte [OF conjunct1 [OF W] 2]
  note F = buf_inv_Flush [OF B(1) 3]
  have "prefix (d_out (bw_dst w1)) ((tx @ bytes) @ [newline])" using W by (simp add: buf_inv_def del: append_assoc)
  with assms(2) B(1) F(1,3) F(2) [symmetric] show ?thesis
    by (cases e1; cases e2; cases e3) (auto simp: protocol_WriteMessage_def 1 2 3 buf_inv_def)
qed

text \<open>The header: an error of the write is not reported, only one of the flush.\<close>

lemma header_write_error_lost: "bw_err w = Some e \<Longrightarrow> WriteProtocolHeader w = (None, w)"
  by (simp add: WriteProtocolHeader_def bufio_Write.simps)

text \<open>On a writer that is fresh, as at the start of a connection, an answer without an error means that the header was sent.\<close>

lemma WriteProtocolHeader_fresh:
  assumes "bw_err w = None" "bw_buf w = []" "WriteProtocolHeader w = (None, w')"
  shows "d_out (bw_dst w') = d_out (bw_dst w) @ ProtocolHeader @ [newline]"
proof -
  have fits: "\<not> length (ProtocolHeader @ [newline]) > bufSize - length (bw_buf w)"
    using assms(2) by (simp add: ProtocolHeader_def ProtocolName_def ProtocolVersion_def bufSize_def)
  then have 1: "bufio_Write (ProtocolHeader @ [newline]) w = (None, w\<lparr>bw_buf := ProtocolHeader @ [newline]\<rparr>)"
    using assms(1,2) by (simp add: bufio_Write.simps)
  have inv: "buf_inv (d_out (bw_dst w) @ ProtocolHeader @ [newline]) (w\<lparr>bw_buf := ProtocolHeader @ [newline]\<rparr>)"
    by (simp add: buf_inv_def)
  obtain e w2 where 2: "bufio_Flush (w\<lparr>bw_buf := ProtocolHeader @ [newline]\<rparr>) = (e, w2)" by fastforce
  note F = buf_inv_Flush [OF inv 2]
  show ?thesis using assms(3) F by (auto simp: WriteProtocolHeader_def 1 2 buf_inv_def)
qed

end
