(* ===== verification/BenchConfig.thy ===== *)
theory BenchConfig
  imports JSON
begin

text \<open>
  The benchmark's configuration: \<^verbatim>\<open>internal/bench/config.go\<close> without \<^verbatim>\<open>Validate\<close>, which
  needs the topology and is in the theory \<open>Topology\<close>. Fields are Go \<^verbatim>\<open>int\<close>s; every sum and
  product the code computes is taken modulo \<open>2 ^ 64\<close> by \<open>wrap64\<close>. Durations are nanoseconds.
\<close>

section \<open>Machine integers\<close>

definition wrap64 :: "int \<Rightarrow> int" where
  "wrap64 n = (n + 2 ^ 63) mod 2 ^ 64 - 2 ^ 63"

lemma wrap64_id: "- (2 ^ 63) \<le> n \<Longrightarrow> n < 2 ^ 63 \<Longrightarrow> wrap64 n = n"
  by (simp add: wrap64_def)

lemma wrap64_le: "0 \<le> n \<Longrightarrow> wrap64 n \<le> n"
proof -
  assume "0 \<le> n"
  then have "(n + 2 ^ 63) mod 2 ^ 64 \<le> n + 2 ^ 63" by (simp add: zmod_le_nonneg_dividend)
  then show ?thesis by (simp add: wrap64_def)
qed

section \<open>The configuration\<close>

type_synonym Distribution = string

definition DistEven :: Distribution where "DistEven = ''even''"
definition DistUneven :: Distribution where "DistUneven = ''uneven''"

record Config =
  cf_Addr :: string
  cf_Conns :: int
  cf_PubConns :: int
  cf_ConsConns :: int
  cf_Channels :: int
  cf_PubChannels :: int
  cf_ConsChannels :: int
  cf_ConnsDist :: Distribution
  cf_ChannelsDist :: Distribution
  cf_PubChannelsDist :: Distribution
  cf_MaxChannelsPerConn :: int
  cf_MaxConsumersPerChannel :: int
  cf_MaxPublishersPerChannel :: int
  cf_Publishers :: int
  cf_Consumers :: int
  cf_Msgs :: int
  cf_Size :: int
  cf_Ack :: bool
  cf_Prefetch :: int
  cf_Duration :: int
  cf_Warmup :: int
  cf_Report :: int
  cf_DrainTimeout :: int
  cf_Output :: string
  cf_Quiet :: bool

definition DefaultConfig :: Config where
  "DefaultConfig =
     \<lparr>cf_Addr = ''127.0.0.1:5672'',
      cf_Conns = 1, cf_PubConns = 0, cf_ConsConns = 0, cf_Channels = 1, cf_PubChannels = 0, cf_ConsChannels = 0,
      cf_ConnsDist = DistEven, cf_ChannelsDist = DistEven, cf_PubChannelsDist = DistEven,
      cf_MaxChannelsPerConn = 0, cf_MaxConsumersPerChannel = 0, cf_MaxPublishersPerChannel = 0,
      cf_Publishers = 1, cf_Consumers = 1, cf_Msgs = 1000, cf_Size = 128, cf_Ack = True, cf_Prefetch = 10,
      cf_Duration = 0, cf_Warmup = 0, cf_Report = 1000000000, cf_DrainTimeout = 30 * 1000000000,
      cf_Output = [], cf_Quiet = False\<rparr>"

text \<open>The errors of \<^verbatim>\<open>Validate\<close> and of the topology builder, one constructor per message.\<close>

datatype config_error =
  AddrEmpty | ConnsTooFew int | PubConnsNegative int | ConsConnsNegative int | ConnRolesExceed int int
  | ChannelsTooFew int | PubChannelsNegative int | ConsChannelsNegative int | PublishersNegative int
  | ConsumersNegative int | MsgsNegative int | SizeTooSmall int | ReportNotPositive int
  | DrainTimeoutNotPositive int | WarmupNegative int | DurationNegative int
  | InvalidDistribution string Distribution
  | ChannelsDoNotFit int int int | RoleCarvingOverflow int int
  | NoCapableChannels string int | WorkersDoNotFit string int int int

definition validateDistribution :: "Config \<Rightarrow> config_error option" where
  "validateDistribution c =
     (if cf_ConnsDist c \<noteq> DistEven \<and> cf_ConnsDist c \<noteq> DistUneven
      then Some (InvalidDistribution ''conns'' (cf_ConnsDist c))
      else if cf_ChannelsDist c \<noteq> DistEven \<and> cf_ChannelsDist c \<noteq> DistUneven
      then Some (InvalidDistribution ''channels'' (cf_ChannelsDist c))
      else if cf_PubChannelsDist c \<noteq> DistEven \<and> cf_PubChannelsDist c \<noteq> DistUneven
      then Some (InvalidDistribution ''pub-channels'' (cf_PubChannelsDist c))
      else None)"

section \<open>Warnings\<close>

datatype warning =
  TagSpaceExceeded int | NoAckStalls | PrefetchIgnored int
  | ChannelCapIgnored | ConsumerCapIgnored | PublisherCapIgnored

definition Warnings :: "Config \<Rightarrow> warning list" where
  "Warnings c =
     (let total = wrap64 (cf_Publishers c * cf_Msgs c) in
      (if total > 65535 then [TagSpaceExceeded total] else []) @
      (if \<not> cf_Ack c then [NoAckStalls] else []) @
      (if cf_Prefetch c \<noteq> 10 then [PrefetchIgnored (cf_Prefetch c)] else []) @
      (if cf_MaxChannelsPerConn c > 0 \<and> cf_ConnsDist c \<noteq> DistUneven then [ChannelCapIgnored] else []) @
      (if cf_MaxConsumersPerChannel c > 0 \<and> cf_ChannelsDist c \<noteq> DistUneven then [ConsumerCapIgnored] else []) @
      (if cf_MaxPublishersPerChannel c > 0 \<and> cf_PubChannelsDist c \<noteq> DistUneven
       then [PublisherCapIgnored] else []))"

section \<open>Order-sensitive flags\<close>

text \<open>\<^verbatim>\<open>strconv.Atoi\<close>: an optional sign, digits, and a value that fits.\<close>

definition atoi :: "string \<Rightarrow> int option" where
  "atoi s =
     (case s of
        [] \<Rightarrow> None
      | c # ds \<Rightarrow>
          if c = CHR ''-'' then map_option (\<lambda>n. - int n) (parseUintMax (2 ^ 63) ds)
          else if c = CHR ''+'' then map_option int (parseUintMax (2 ^ 63 - 1) ds)
          else map_option int (parseUintMax (2 ^ 63 - 1) s))"

datatype axis = AxisConns | AxisChannels | AxisPubChannels

text \<open>\<^verbatim>\<open>AxisCursor.last\<close>; the empty string it starts with is \<open>None\<close>.\<close>

type_synonym AxisCursor = "axis option"

datatype flag_error = InvalidInteger string | InvalidDistributionFlag string | NoAxisBefore

fun setAxis :: "axis \<Rightarrow> int \<Rightarrow> Config \<Rightarrow> Config" where
  "setAxis AxisConns v c = c\<lparr>cf_Conns := v\<rparr>"
| "setAxis AxisChannels v c = c\<lparr>cf_Channels := v\<rparr>"
| "setAxis AxisPubChannels v c = c\<lparr>cf_PubChannels := v\<rparr>"

definition intAxisFlag_Set :: "axis \<Rightarrow> string \<Rightarrow> Config \<times> AxisCursor \<Rightarrow> flag_error + Config \<times> AxisCursor" where
  "intAxisFlag_Set ax s st =
     (case atoi s of
        None \<Rightarrow> Inl (InvalidInteger s)
      | Some v \<Rightarrow> Inr (setAxis ax v (fst st), Some ax))"

fun setDist :: "axis \<Rightarrow> Distribution \<Rightarrow> Config \<Rightarrow> Config" where
  "setDist AxisConns d c = c\<lparr>cf_ConnsDist := d\<rparr>"
| "setDist AxisChannels d c = c\<lparr>cf_ChannelsDist := d\<rparr>"
| "setDist AxisPubChannels d c = c\<lparr>cf_PubChannelsDist := d\<rparr>"

definition distributionFlag_Set :: "string \<Rightarrow> Config \<times> AxisCursor \<Rightarrow> flag_error + Config \<times> AxisCursor" where
  "distributionFlag_Set s st =
     (let l = map ascii_lower s in
      if l \<noteq> DistEven \<and> l \<noteq> DistUneven then Inl (InvalidDistributionFlag s)
      else case snd st of
             None \<Rightarrow> Inl NoAxisBefore
           | Some ax \<Rightarrow> Inr (setDist ax l (fst st), snd st))"

text \<open>The flags of the two kinds in the order of the command line.\<close>

datatype axis_flag = AxisFlag axis string | DistributionFlag string

fun setFlag :: "axis_flag \<Rightarrow> Config \<times> AxisCursor \<Rightarrow> flag_error + Config \<times> AxisCursor" where
  "setFlag (AxisFlag ax s) st = intAxisFlag_Set ax s st"
| "setFlag (DistributionFlag s) st = distributionFlag_Set s st"

fun setFlags :: "axis_flag list \<Rightarrow> Config \<times> AxisCursor \<Rightarrow> flag_error + Config \<times> AxisCursor" where
  "setFlags [] st = Inr st"
| "setFlags (f # fs) st = (case setFlag f st of Inl e \<Rightarrow> Inl e | Inr st' \<Rightarrow> setFlags fs st')"

fun distOf :: "axis \<Rightarrow> Config \<Rightarrow> Distribution" where
  "distOf AxisConns c = cf_ConnsDist c"
| "distOf AxisChannels c = cf_ChannelsDist c"
| "distOf AxisPubChannels c = cf_PubChannelsDist c"

section \<open>Properties of the flags\<close>

lemma atoi_itoa:
  assumes "- (2 ^ 63) \<le> n" "n < 2 ^ 63"
  shows "atoi (itoa n) = Some n"
proof -
  have p: "parseInt64 (itoa n) = Some n" by (rule parseInt64_itoa [OF assms])
  have "hd (itoa n) \<noteq> CHR ''+''"
  proof (cases "n < 0")
    case False
    have "list_all is_digit (formatUint 10 (nat n))" by (rule formatUint_digits)
    then have "is_digit (hd (formatUint 10 (nat n)))" by (cases "formatUint 10 (nat n)") auto
    then show ?thesis using False by (auto simp: itoa_def is_digit_def)
  qed (simp add: itoa_def)
  with p show ?thesis by (cases "itoa n") (auto simp: atoi_def parseInt64_def)
qed

lemma distOf_setDist: "distOf a (setDist a' d c) = (if a = a' then d else distOf a c)"
  by (cases a; cases a') simp_all

lemma distOf_setAxis [simp]: "distOf a (setAxis a' v c) = distOf a c"
  by (cases a; cases a') simp_all

text \<open>A reference reading of the command line: the mode of an axis is the last one given while the axis was the last named.\<close>

fun lastMode :: "axis \<Rightarrow> axis_flag list \<Rightarrow> AxisCursor \<Rightarrow> Distribution option" where
  "lastMode a [] cur = None"
| "lastMode a (AxisFlag ax s # fs) cur = lastMode a fs (Some ax)"
| "lastMode a (DistributionFlag s # fs) cur =
     (case lastMode a fs cur of
        Some d \<Rightarrow> Some d
      | None \<Rightarrow> if cur = Some a then Some (map ascii_lower s) else None)"

lemma setFlags_lastMode:
  "setFlags fs (c, cur) = Inr (c', cur') \<Longrightarrow>
   distOf a c' = (case lastMode a fs cur of Some d \<Rightarrow> d | None \<Rightarrow> distOf a c)"
proof (induction fs arbitrary: c cur)
  case (Cons f fs)
  show ?case
  proof (cases f)
    case (AxisFlag ax s)
    with Cons show ?thesis by (auto simp: intAxisFlag_Set_def split: option.splits)
  next
    case (DistributionFlag s)
    with Cons.prems obtain ax where ax: "cur = Some ax"
      "setFlags fs (setDist ax (map ascii_lower s) c, cur) = Inr (c', cur')"
      by (auto simp: distributionFlag_Set_def Let_def split: if_splits option.splits)
    from Cons.IH [OF ax(2)] ax(1) DistributionFlag show ?thesis
      by (auto simp: distOf_setDist split: option.split)
  qed
qed simp

text \<open>
  The order-sensitive \<^verbatim>\<open>-distribution\<close> flag does what it is documented to do: after a command
  line is accepted, each axis has the last mode given while that axis was the last one named, or
  its former mode when there was none; and every mode set this way is a valid one.
\<close>

lemma distribution_binds_to_last_axis:
  assumes "setFlags fs (c, None) = Inr (c', cur)"
  shows "distOf a c' = (case lastMode a fs None of Some d \<Rightarrow> d | None \<Rightarrow> distOf a c) \<and>
    (\<forall>d. lastMode a fs None = Some d \<longrightarrow> d = DistEven \<or> d = DistUneven)"
proof -
  have "d = DistEven \<or> d = DistUneven"
    if "setFlags fs (c, cur) = Inr (c', cur')" "lastMode a fs cur = Some d" for fs c cur cur' d
    using that
  proof (induction fs arbitrary: c cur)
    case (Cons f fs)
    show ?case
    proof (cases f)
      case (AxisFlag ax s)
      with Cons show ?thesis by (auto simp: intAxisFlag_Set_def split: option.splits)
    next
      case (DistributionFlag s)
      with Cons show ?thesis
        by (auto simp: distributionFlag_Set_def Let_def split: if_splits option.splits)
    qed
  qed simp
  with setFlags_lastMode [OF assms] assms show ?thesis by blast
qed

lemma distribution_binds_to_last_axis_witness:
  "\<exists>c cur. setFlags [AxisFlag AxisConns ''4'', DistributionFlag ''Uneven'', AxisFlag AxisChannels ''8'']
       (DefaultConfig, None) = Inr (c, cur) \<and>
     cf_ConnsDist c = DistUneven \<and> cf_ChannelsDist c = DistEven"
proof -
  let ?fs = "[AxisFlag AxisConns ''4'', DistributionFlag ''Uneven'', AxisFlag AxisChannels ''8'']"
  have "itoa 4 = ''4''" "itoa 8 = ''8''" by code_simp+
  then have low: "atoi ''4'' = Some 4" "atoi ''8'' = Some 8" using atoi_itoa [of 4] atoi_itoa [of 8] by simp_all
  have up: "map ascii_lower ''Uneven'' = DistUneven" by code_simp
  from low up obtain c cur where run: "setFlags ?fs (DefaultConfig, None) = Inr (c, cur)"
    by (auto simp: intAxisFlag_Set_def distributionFlag_Set_def)
  have "distOf AxisConns c = DistUneven" "distOf AxisChannels c = DistEven"
    using distribution_binds_to_last_axis [OF run, of AxisConns] low up
      distribution_binds_to_last_axis [OF run, of AxisChannels] by (simp_all add: DefaultConfig_def)
  with run show ?thesis by auto
qed

end
