(* ===== verification/Float64.thy ===== *)
theory Float64
  imports Complex_Main "HOL-Library.Log_Nat"
begin

text \<open>
  Go's \<^verbatim>\<open>float64\<close> as far as the benchmark computes with it. A finite double is the rational number
  it denotes, and \<open>fl\<close> is IEEE 754 rounding to nearest, ties to even, with 53 bits of precision and
  gradual underflow; an operation of the source on doubles is the exact operation on rationals
  followed by \<open>fl\<close>. Infinities and NaNs do not occur: the code divides by positive numbers only, and
  every number starts as a 64-bit integer, so nothing comes near the largest double.
\<close>

section \<open>Rounding to an integer\<close>

definition round_even :: "rat \<Rightarrow> int" where
  "round_even r =
     (let f = \<lfloor>r\<rfloor>; d = r - of_int f in
      if d < 1 / 2 then f else if d > 1 / 2 then f + 1 else if even f then f else f + 1)"

lemma round_even_of_int [simp]: "round_even (of_int n) = n"
  by (simp add: round_even_def)

lemma round_even_bounds: "\<lfloor>r\<rfloor> \<le> round_even r" "round_even r \<le> \<lceil>r\<rceil>"
  by (auto simp: round_even_def Let_def ceiling_altdef)

lemma round_even_mono: "r \<le> s \<Longrightarrow> round_even r \<le> round_even s"
proof -
  assume le: "r \<le> s"
  show ?thesis
  proof (cases "\<lfloor>r\<rfloor> = \<lfloor>s\<rfloor>")
    case True
    with le show ?thesis by (auto simp: round_even_def Let_def)
  next
    case False
    with le have "\<lfloor>r\<rfloor> + 1 \<le> \<lfloor>s\<rfloor>" using floor_mono [OF le] by simp
    moreover have "round_even r \<le> \<lfloor>r\<rfloor> + 1" by (simp add: round_even_def Let_def)
    ultimately show ?thesis using round_even_bounds(1) [of s] by simp
  qed
qed

lemma round_even_near:
  assumes "\<bar>r - of_int m\<bar> < 1 / 2" shows "round_even r = m"
proof (cases "of_int m \<le> r")
  case True
  with assms have "\<lfloor>r\<rfloor> = m" by (intro floor_unique) (auto simp: abs_if split: if_splits)
  with assms True show ?thesis by (simp add: round_even_def Let_def abs_if split: if_splits)
next
  case False
  with assms have "\<lfloor>r\<rfloor> = m - 1" by (intro floor_unique) (auto simp: abs_if split: if_splits)
  moreover from False assms have "r - of_int (m - 1) > 1 / 2" by (simp add: abs_if split: if_splits)
  ultimately show ?thesis by (simp add: round_even_def Let_def)
qed

lemma round_even_ge: "of_int m \<le> r \<Longrightarrow> m \<le> round_even r"
  using round_even_mono [of "of_int m" r] by simp

lemma round_even_le: "r \<le> of_int m \<Longrightarrow> round_even r \<le> m"
  using round_even_mono [of r "of_int m"] by simp

section \<open>The exponent of a positive number\<close>

text \<open>The exponent of \<open>a / b\<close>: the difference of the bit lengths, or one less.\<close>

definition fexp :: "rat \<Rightarrow> int" where
  "fexp x =
     (let (a, b) = quotient_of x; d = int (floorlog 2 (nat a)) - int (floorlog 2 (nat b)) in
      if 2 powi d \<le> x then d else d - 1)"

lemma floorlog_bounds_rat:
  assumes "0 < n" shows "2 powi (int (floorlog 2 n) - 1) \<le> (of_nat n :: rat)" "(of_nat n :: rat) < 2 powi int (floorlog 2 n)"
proof -
  have b: "2 ^ (floorlog 2 n - 1) \<le> n" "n < 2 ^ floorlog 2 n" using floorlog_bounds [of n 2] assms by auto
  have pos: "0 < floorlog 2 n" using assms by (simp add: floorlog_def)
  have "(2::rat) ^ (floorlog 2 n - 1) \<le> of_nat n" using b(1) by (metis of_nat_le_iff of_nat_numeral of_nat_power)
  then show "2 powi (int (floorlog 2 n) - 1) \<le> (of_nat n :: rat)"
    using pos by (simp add: power_int_def nat_diff_distrib)
  have "(of_nat n :: rat) < 2 ^ floorlog 2 n" using b(2) by (metis of_nat_less_iff of_nat_numeral of_nat_power)
  then show "(of_nat n :: rat) < 2 powi int (floorlog 2 n)" by (simp add: power_int_def)
qed

lemma fexp_bounds:
  assumes "0 < x" shows "2 powi fexp x \<le> x" "x < 2 powi (fexp x + 1)"
proof -
  obtain a b where q: "quotient_of x = (a, b)" by fastforce
  have b: "0 < b" by (rule quotient_of_denom_pos [OF q])
  have x: "x = of_int a / of_int b" by (rule quotient_of_div [OF q])
  have a: "0 < a" using assms b by (simp add: x zero_less_divide_iff)
  define la lb where "la = int (floorlog 2 (nat a))" and "lb = int (floorlog 2 (nat b))"
  have A: "2 powi (la - 1) \<le> (of_int a :: rat)" "(of_int a :: rat) < 2 powi la"
    using floorlog_bounds_rat [of "nat a"] a by (simp_all add: la_def)
  have B: "2 powi (lb - 1) \<le> (of_int b :: rat)" "(of_int b :: rat) < 2 powi lb"
    using floorlog_bounds_rat [of "nat b"] b by (simp_all add: lb_def)
  have P: "(2::rat) powi (la - 1) = 2 powi (la - lb - 1) * 2 powi lb"
    "(2::rat) powi la = 2 powi (la - lb + 1) * 2 powi (lb - 1)"
    by (simp_all add: power_int_add [symmetric])
  have "2 powi (la - lb - 1) * of_int b \<le> 2 powi (la - lb - 1) * (2 powi lb :: rat)"
    using B(2) by (intro mult_left_mono) simp_all
  also have "\<dots> \<le> of_int a" using A(1) by (simp add: P(1))
  finally have lo: "2 powi (la - lb - 1) \<le> x" using b by (simp add: x pos_le_divide_eq)
  have "of_int a < 2 powi (la - lb + 1) * (2 powi (lb - 1) :: rat)" using A(2) by (simp add: P(2))
  also have "\<dots> \<le> 2 powi (la - lb + 1) * of_int b" using B(1) by (intro mult_left_mono) simp_all
  finally have hi: "x < 2 powi (la - lb + 1)" using b by (simp add: x pos_divide_less_eq)
  show "2 powi fexp x \<le> x" "x < 2 powi (fexp x + 1)"
    using lo hi by (auto simp: fexp_def q Let_def la_def lb_def)
qed

lemma two_powi_mono: "i \<le> j \<Longrightarrow> (2::rat) powi i \<le> 2 powi j"
  by (rule power_int_increasing) simp_all

lemma two_powi_less_iff: "(2::rat) powi i < 2 powi j \<longleftrightarrow> i < j"
  using two_powi_mono [of j i] power_int_strict_increasing [of i j "2::rat"] by fastforce

section \<open>Rounding to a double\<close>

text \<open>The exponent of the last place.\<close>

definition fscale :: "rat \<Rightarrow> int" where
  "fscale x = max (fexp x - 52) (- 1074)"

definition fl :: "rat \<Rightarrow> rat" where
  "fl x =
     (if x = 0 then 0
      else let s = fscale \<bar>x\<bar>; v = of_int (round_even (\<bar>x\<bar> / 2 powi s)) * 2 powi s
           in if x < 0 then - v else v)"

lemma fl_0 [simp]: "fl 0 = 0"
  by (simp add: fl_def)

lemma fl_pos: "0 < x \<Longrightarrow> fl x = of_int (round_even (x / 2 powi fscale x)) * 2 powi fscale x"
  by (simp add: fl_def Let_def)

lemma fl_minus: "fl (- x) = - fl x"
  by (auto simp: fl_def Let_def)

lemma fl_nonneg: "0 \<le> x \<Longrightarrow> 0 \<le> fl x"
proof (cases "x = 0")
  case False
  assume "0 \<le> x"
  with False have "0 < x" by simp
  then show ?thesis using round_even_ge [of 0 "x / 2 powi fscale x"] by (simp add: fl_pos)
qed simp

lemma scaled_bounds:
  assumes "0 < x"
  shows "x / 2 powi fscale x < 2 ^ 53" "- 1074 < fscale x \<Longrightarrow> 2 ^ 52 \<le> x / 2 powi fscale x"
proof -
  have "x < 2 powi (fexp x + 1)" by (rule fexp_bounds(2) [OF assms])
  also have "\<dots> \<le> 2 powi (fscale x + 53)" by (rule two_powi_mono) (simp add: fscale_def)
  also have "\<dots> = 2 ^ 53 * 2 powi fscale x" by (simp add: power_int_add)
  finally show "x / 2 powi fscale x < 2 ^ 53" by (simp add: pos_divide_less_eq)
  assume "- 1074 < fscale x"
  then have "(2::rat) powi fexp x = 2 powi (fscale x + 52)" by (simp add: fscale_def)
  also have "\<dots> = 2 ^ 52 * 2 powi fscale x" by (simp add: power_int_add)
  finally show "2 ^ 52 \<le> x / 2 powi fscale x" using fexp_bounds(1) [OF assms] by (simp add: pos_le_divide_eq)
qed

lemma fexp_mono: "0 < x \<Longrightarrow> x \<le> y \<Longrightarrow> fexp x \<le> fexp y"
proof -
  assume xy: "0 < x" "x \<le> y"
  then have "2 powi fexp x < (2::rat) powi (fexp y + 1)"
    using fexp_bounds(1) [OF xy(1)] fexp_bounds(2) [of y] by linarith
  then show ?thesis by (simp add: two_powi_less_iff)
qed

lemma fl_mono_pos:
  assumes "0 < x" "x \<le> y" shows "fl x \<le> fl y"
proof (cases "fscale x = fscale y")
  case True
  have "round_even (x / 2 powi fscale y) \<le> round_even (y / 2 powi fscale y)"
    using assms by (intro round_even_mono divide_right_mono) simp_all
  then show ?thesis using assms True by (simp add: fl_pos)
next
  case False
  with fexp_mono [OF assms] have lt: "fscale x < fscale y" by (auto simp: fscale_def)
  then have y: "0 < y" "- 1074 < fscale y" using assms by (auto simp: fscale_def)
  have "round_even (x / 2 powi fscale x) \<le> 2 ^ 53"
    by (rule round_even_le) (use scaled_bounds(1) [OF assms(1)] in simp)
  then have "fl x \<le> 2 ^ 53 * 2 powi fscale x"
    unfolding fl_pos [OF assms(1)] by (intro mult_right_mono) (auto simp del: of_int_power simp flip: of_int_power_le_of_int_cancel_iff)
  also have "\<dots> = 2 powi (fscale x + 53)" by (simp add: power_int_add)
  also have "\<dots> \<le> 2 powi (fscale y + 52)" using lt by (intro two_powi_mono) simp
  also have "\<dots> = 2 ^ 52 * 2 powi fscale y" by (simp add: power_int_add)
  also have "\<dots> \<le> fl y"
  proof -
    have "2 ^ 52 \<le> round_even (y / 2 powi fscale y)"
      by (rule round_even_ge) (use scaled_bounds(2) [OF y] in simp)
    then have "(2 ^ 52 :: rat) \<le> of_int (round_even (y / 2 powi fscale y))" by (simp add: le_of_int_ceiling)
    then show ?thesis unfolding fl_pos [OF y(1)] by (intro mult_right_mono) simp_all
  qed
  finally show ?thesis .
qed

lemma fl_mono: "x \<le> y \<Longrightarrow> fl x \<le> fl y"
proof -
  assume xy: "x \<le> y"
  consider "0 < x" | "x \<le> 0" "0 \<le> y" | "y < 0" by linarith
  then show ?thesis
  proof cases
    case 1
    then show ?thesis using xy by (rule fl_mono_pos)
  next
    case 2
    then have "0 \<le> fl (- x)" "0 \<le> fl y" by (simp_all add: fl_nonneg)
    then show ?thesis by (simp add: fl_minus)
  next
    case 3
    then have "fl (- y) \<le> fl (- x)" using xy by (intro fl_mono_pos) simp_all
    then show ?thesis by (simp add: fl_minus)
  qed
qed

text \<open>A number with at most 53 significant bits is its own rounding.\<close>

lemma fl_exact_pos:
  assumes "0 < m" "m < 2 ^ 53" "- 1074 \<le> j"
  shows "fl (of_int m * 2 powi j) = of_int m * 2 powi j"
proof -
  let ?x = "of_int m * (2::rat) powi j"
  have pos: "0 < ?x" using assms(1) by simp
  have "?x < 2 ^ 53 * 2 powi j" using assms(2) by (simp del: of_int_power add: of_int_less_numeral_power_cancel_iff)
  then have "?x < 2 powi (j + 53)" by (simp add: power_int_add)
  then have "(2::rat) powi fexp ?x < 2 powi (j + 53)" using fexp_bounds(1) [OF pos] by linarith
  then have le: "fscale ?x \<le> j" using assms(3) by (simp add: two_powi_less_iff fscale_def)
  define s where "s = fscale ?x"
  have "?x / 2 powi s = of_int m * 2 powi (j - s)" by (simp add: power_int_diff)
  also have "\<dots> = of_int (m * 2 ^ nat (j - s))" using le by (simp add: power_int_def s_def)
  finally have "of_int (round_even (?x / 2 powi s)) = ?x / 2 powi s" by (simp only: round_even_of_int)
  then show ?thesis by (simp add: fl_pos [OF pos] s_def)
qed

lemma fl_exact:
  assumes "\<bar>m\<bar> < 2 ^ 53" "- 1074 \<le> j" shows "fl (of_int m * 2 powi j) = of_int m * 2 powi j"
proof -
  consider "0 < m" | "m = 0" | "m < 0" by linarith
  then show ?thesis
  proof cases
    case 1
    then show ?thesis using fl_exact_pos [of m j] assms by simp
  next
    case 3
    then show ?thesis using fl_exact_pos [of "- m" j] assms by (simp add: fl_minus)
  qed simp
qed

lemma fl_of_int: "\<bar>m\<bar> < 2 ^ 53 \<Longrightarrow> fl (of_int m) = of_int m"
  using fl_exact [of m 0] by simp

lemma fl_of_nat: "n < 2 ^ 53 \<Longrightarrow> fl (of_nat n) = of_nat n"
  using fl_of_int [of "int n"] by simp

text \<open>A number just below a positive integer is rounded to it.\<close>

lemma fl_near_int:
  assumes "x < of_int m" "0 < m" "m < 2 ^ 53" "of_int m - x < of_int m / 2 ^ 54"
  shows "fl x = of_int m"
proof -
  have m1: "(1::rat) \<le> of_int m" "of_int m < (2::rat) ^ 53"
    using assms(2,3) by (simp_all del: of_int_power add: of_int_less_numeral_power_cancel_iff)
  have half: "of_int m - x < 1 / 2" using assms(4) m1(2) by simp
  with m1 have pos: "0 < x" and xhalf: "1 / 2 < x" by simp_all
  define e where "e = fexp x"
  note eb = fexp_bounds [OF pos, folded e_def]
  have "(2::rat) powi (- 1) < 2 powi (e + 1)" using eb(2) xhalf by (simp add: power_int_minus)
  then have "- 1 < e + 1" by (simp only: two_powi_less_iff)
  then have e0: "- 1 \<le> e" by simp
  have "(2::rat) powi e < 2 powi 53" using eb(1) assms(1) m1(2) by simp
  then have "e < 53" by (simp only: two_powi_less_iff)
  then have e52: "e \<le> 52" by simp
  have sc: "fscale x = e - 52" using e0 by (simp add: fscale_def e_def)
  have int: "(2::rat) powi (e + 1) = of_int (2 ^ nat (e + 1))" using e0 by (simp add: power_int_def)
  have "of_int m < (of_int (2 ^ nat (e + 1)) :: rat) + 1" using eb(2) half unfolding int by linarith
  then have "m \<le> 2 ^ nat (e + 1)" by (metis of_int_1 of_int_add of_int_less_iff zle_add1_eq_le)
  then have up: "of_int m \<le> (2::rat) powi (e + 1)" unfolding int by (simp only: of_int_le_iff)
  have scaled: "of_int m / (2::rat) powi (e - 52) = of_int (m * 2 ^ nat (52 - e))"
    using e52 by (simp add: power_int_def power_int_diff divide_simps)
  have "(of_int m - x) / 2 powi (e - 52) < of_int m / 2 ^ 54 / 2 powi (e - 52)"
    using assms(4) by (intro divide_strict_right_mono) simp_all
  also have "\<dots> \<le> 2 powi (e + 1) / 2 ^ 54 / 2 powi (e - 52)"
    using up by (intro divide_right_mono) simp_all
  also have "\<dots> = 1 / 2" by (simp add: power_int_add power_int_diff)
  finally have "\<bar>x / 2 powi (e - 52) - of_int (m * 2 ^ nat (52 - e))\<bar> < 1 / 2"
    using assms(1) unfolding scaled [symmetric] by (simp add: diff_divide_distrib abs_if divide_strict_right_mono)
  then have "round_even (x / 2 powi (e - 52)) = m * 2 ^ nat (52 - e)" by (rule round_even_near)
  then have "fl x = of_int (m * 2 ^ nat (52 - e)) * 2 powi (e - 52)" by (simp add: fl_pos [OF pos] sc)
  then show ?thesis unfolding scaled [symmetric] by simp
qed

lemma fexp_unique: "0 < x \<Longrightarrow> 2 powi e \<le> x \<Longrightarrow> x < 2 powi (e + 1) \<Longrightarrow> fexp x = e"
proof -
  assume x: "0 < x" "2 powi e \<le> x" "x < 2 powi (e + 1)"
  note b = fexp_bounds [OF x(1)]
  have "(2::rat) powi e < 2 powi (fexp x + 1)" "(2::rat) powi fexp x < 2 powi (e + 1)" using x b by linarith+
  then show ?thesis by (simp only: two_powi_less_iff)
qed

section \<open>Ranks\<close>

text \<open>
  The rank \<open>\<lceil>p / 100 * n\<rceil>\<close> computed in doubles is the exact one, when the double for \<open>p / 100\<close> is
  just below it and \<open>n\<close> is not astronomically large.
\<close>

lemma ceiling_fl_rank:
  fixes k n :: nat
  assumes a: "a \<le> of_nat k / 100" "of_nat k / 100 - a < of_nat k / 100 / 2 ^ 54"
    and k: "0 < k" "k \<le> 100" and n: "0 < n" "n < 2 ^ 40"
  shows "\<lceil>fl (a * of_nat n)\<rceil> = \<lceil>(of_nat (k * n) / 100 :: rat)\<rceil>"
proof -
  define t where "t = (of_nat (k * n) / 100 :: rat)"
  define f where "f = \<lfloor>t\<rfloor>"
  have npos: "(0::rat) < of_nat n" "(of_nat n :: rat) \<le> 2 ^ 40" using n by (simp_all add: of_nat_le_numeral_power_cancel_iff del: of_nat_power)
  have x: "a * of_nat n \<le> t" "t - a * of_nat n < t / 2 ^ 54"
  proof -
    have "a * of_nat n \<le> of_nat k / 100 * of_nat n" using a(1) npos by (intro mult_right_mono) simp_all
    then show "a * of_nat n \<le> t" by (simp add: t_def)
    have "(of_nat k / 100 - a) * of_nat n < of_nat k / 100 / 2 ^ 54 * of_nat n"
      using a(2) npos by (intro mult_strict_right_mono) simp_all
    then show "t - a * of_nat n < t / 2 ^ 54" by (simp add: t_def algebra_simps)
  qed
  have t: "0 < t" "t \<le> 2 ^ 40"
  proof -
    show "0 < t" using k n by (simp add: t_def)
    have "(of_nat k :: rat) * of_nat n \<le> 100 * 2 ^ 40" using k npos by (intro mult_mono) simp_all
    then show "t \<le> 2 ^ 40" by (simp add: t_def)
  qed
  have f: "of_int f \<le> t" "t < of_int f + 1" "0 \<le> f" "f < 2 ^ 41"
  proof -
    show fl: "of_int f \<le> t" "t < of_int f + 1" "0 \<le> f"
      using t(1) floor_correct [of t] by (simp_all add: f_def)
    have "of_int f < (of_int (2 ^ 41) :: rat)" using fl(1) t(2) by simp
    then show "f < 2 ^ 41" by (simp only: of_int_less_iff)
  qed
  show ?thesis
  proof (cases "t = of_int f")
    case True
    with t(1) have fpos: "0 < f" by simp
    have "fl (a * of_nat n) = of_int f"
    proof (cases "a * of_nat n = t")
      case False
      then show ?thesis using x True fpos f(4) by (intro fl_near_int) simp_all
    qed (use True f in \<open>simp add: fl_of_int\<close>)
    then show ?thesis using True by (simp add: t_def)
  next
    case False
    have "of_int (100 * f) < (of_int (int (k * n)) :: rat)" using f(1) False by (simp add: t_def)
    then have "100 * f + 1 \<le> int (k * n)" by (simp only: of_int_less_iff)
    then have "(of_int (100 * f + 1) :: rat) \<le> of_int (int (k * n))" by (simp only: of_int_le_iff)
    then have frac: "of_int f + 1 / 100 \<le> t" by (simp add: t_def)
    have "of_int (128 * f + 1) * 2 powi (- 7) = (of_int f + 1 / 128 :: rat)" by (simp add: power_int_minus field_simps)
    then have lo: "fl (of_int f + 1 / 128) = of_int f + 1 / 128"
      using fl_exact [of "128 * f + 1" "- 7"] f by (simp only:) simp
    have "fl (of_int f + 1 / 128) \<le> fl (a * of_nat n)" using x(2) t(2) frac by (intro fl_mono) simp
    moreover have "fl (a * of_nat n) \<le> fl (of_int (f + 1))" using x(1) f(2) by (intro fl_mono) simp
    moreover have "fl (of_int (f + 1)) = of_int (f + 1)" using f by (intro fl_of_int) simp
    ultimately have "\<lceil>fl (a * of_nat n)\<rceil> = f + 1" using lo by (intro ceiling_unique) simp_all
    moreover have "\<lceil>t\<rceil> = f + 1" using False f by (intro ceiling_unique) simp_all
    ultimately show ?thesis by (simp add: t_def)
  qed
qed

lemma fl_percent:
  "fl (1 / 2) = 1 / 2" "fl (19 / 20) = 4278419646001971 / 4503599627370496" "fl (99 / 100) = 4458563631096791 / 4503599627370496"
proof -
  show "fl (1 / 2) = 1 / 2" using fl_exact [of 1 "- 1"] by (simp add: power_int_minus)
  have e: "fexp (19 / 20) = - 1" "fexp (99 / 100) = - 1"
    by (rule fexp_unique; simp add: power_int_minus)+
  have r: "round_even (19 / 20 / 2 powi (- 53)) = 8556839292003942" "round_even (99 / 100 / 2 powi (- 53)) = 8917127262193582"
    by (rule round_even_near; simp add: power_int_minus abs_if)+
  show "fl (19 / 20) = 4278419646001971 / 4503599627370496" "fl (99 / 100) = 4458563631096791 / 4503599627370496"
    using r by (simp_all add: fl_pos fscale_def e power_int_minus)
qed

text \<open>The three ranks the code computes.\<close>

lemma ceiling_fl_percent:
  assumes "p \<in> {50, 95, 99 :: nat}" "0 < n" "n < 2 ^ 40"
  shows "\<lceil>fl (fl (of_nat p / 100) * of_nat n)\<rceil> = \<lceil>(of_nat (p * n) / 100 :: rat)\<rceil>"
  using assms by (intro ceiling_fl_rank) (auto simp: fl_percent)

end
