(* ===== verification/GoFlag.thy ===== *)
theory GoFlag
  imports BenchConfig Float64
begin

text \<open>
  What the benchmark's command line uses of the Go library: reading integers in any base
  (\<^verbatim>\<open>strconv.ParseInt(s, 0, 64)\<close>), booleans (\<^verbatim>\<open>strconv.ParseBool\<close>) and durations
  (\<^verbatim>\<open>time.ParseDuration\<close>), and the parser of the package \<^verbatim>\<open>flag\<close>. The parser is generic in the set of
  flags: \<open>kind\<close> says whether a name is defined and whether it is boolean, \<open>setf\<close> is the flag's \<^verbatim>\<open>Set\<close>.
\<close>

section \<open>Integers in any base\<close>

definition digitOf :: "char \<Rightarrow> nat option" where
  "digitOf c =
     (let n = of_char c :: nat; l = of_char (ascii_lower c) :: nat in
      if 48 \<le> n \<and> n \<le> 57 then Some (n - 48)
      else if 97 \<le> l \<and> l \<le> 122 then Some (l - 87)
      else None)"

fun scanUint :: "nat \<Rightarrow> nat \<Rightarrow> string \<Rightarrow> nat option" where
  "scanUint base n [] = Some n"
| "scanUint base n (c # cs) =
     (if c = CHR ''_'' then scanUint base n cs
      else case digitOf c of
             None \<Rightarrow> None
           | Some d \<Rightarrow>
               if d \<ge> base \<or> n * base + d \<ge> 2 ^ 64 then None else scanUint base (n * base + d) cs)"

text \<open>The base a prefix asks for, and the digits after it.\<close>

definition basePrefix :: "string \<Rightarrow> nat \<times> string" where
  "basePrefix s =
     (if s \<noteq> [] \<and> hd s = CHR ''0'' then
        (if length s \<ge> 3 \<and> ascii_lower (s ! 1) = CHR ''b'' then (2, drop 2 s)
         else if length s \<ge> 3 \<and> ascii_lower (s ! 1) = CHR ''o'' then (8, drop 2 s)
         else if length s \<ge> 3 \<and> ascii_lower (s ! 1) = CHR ''x'' then (16, drop 2 s)
         else (8, tl s))
      else (10, s))"

text \<open>
  \<^verbatim>\<open>underscoreOK\<close>: underscores only between digits, where a base prefix counts as a digit. The states are those of
  the loop variable: start, digit, underscore, other.
\<close>

datatype scanState = AtStart | AtDigit | AtUnderscore | AtOther

fun underscores :: "bool \<Rightarrow> scanState \<Rightarrow> string \<Rightarrow> bool" where
  "underscores hex st [] = (st \<noteq> AtUnderscore)"
| "underscores hex st (c # cs) =
     (if is_digit c \<or> (hex \<and> (let l = of_char (ascii_lower c) :: nat in 97 \<le> l \<and> l \<le> 102))
      then underscores hex AtDigit cs
      else if c = CHR ''_'' then st = AtDigit \<and> underscores hex AtUnderscore cs
      else st \<noteq> AtUnderscore \<and> underscores hex AtOther cs)"

definition underscoreOK :: "string \<Rightarrow> bool" where
  "underscoreOK s =
     (if length s \<ge> 2 \<and> s ! 0 = CHR ''0'' \<and> ascii_lower (s ! 1) \<in> {CHR ''b'', CHR ''o'', CHR ''x''}
      then underscores (ascii_lower (s ! 1) = CHR ''x'') AtDigit (drop 2 s)
      else underscores False AtStart s)"

definition parseUint0 :: "string \<Rightarrow> nat option" where
  "parseUint0 s =
     (if s = [] then None
      else case basePrefix s of (base, t) \<Rightarrow>
        (case scanUint base 0 t of
           None \<Rightarrow> None
         | Some n \<Rightarrow> if CHR ''_'' \<in> set t \<and> \<not> underscoreOK s then None else Some n))"

definition parseInt0 :: "string \<Rightarrow> int option" where
  "parseInt0 s =
     (case s of
        [] \<Rightarrow> None
      | c # t \<Rightarrow>
          (let neg = (c = CHR ''-''); digits = (if c = CHR ''-'' \<or> c = CHR ''+'' then t else s) in
           case parseUint0 digits of
             None \<Rightarrow> None
           | Some un \<Rightarrow>
               if \<not> neg \<and> un \<ge> 2 ^ 63 \<or> neg \<and> un > 2 ^ 63 then None
               else Some (if neg then - int un else int un)))"

definition parseBool :: "string \<Rightarrow> bool option" where
  "parseBool s =
     (if s \<in> {''1'', ''t'', ''T'', ''TRUE'', ''true'', ''True''} then Some True
      else if s \<in> {''0'', ''f'', ''F'', ''FALSE'', ''false'', ''False''} then Some False
      else None)"

section \<open>Durations\<close>

definition unitOf :: "string \<Rightarrow> nat option" where
  "unitOf u =
     (if u = ''ns'' then Some 1
      else if u \<in> {''us'', [CHR 0xC2, CHR 0xB5, CHR ''s''], [CHR 0xCE, CHR 0xBC, CHR ''s'']} then Some 1000
      else if u = ''ms'' then Some 1000000
      else if u = ''s'' then Some 1000000000
      else if u = ''m'' then Some 60000000000
      else if u = ''h'' then Some 3600000000000
      else None)"

fun leadingInt :: "nat \<Rightarrow> string \<Rightarrow> (nat \<times> string) option" where
  "leadingInt x [] = Some (x, [])"
| "leadingInt x (c # cs) =
     (if \<not> is_digit c then Some (x, c # cs)
      else if x > 2 ^ 63 div 10 then None
      else if x * 10 + digit_val c > 2 ^ 63 then None
      else leadingInt (x * 10 + digit_val c) cs)"

text \<open>Digits beyond what fits are skipped; the scale is a double.\<close>

fun leadingFraction :: "nat \<Rightarrow> rat \<Rightarrow> bool \<Rightarrow> string \<Rightarrow> nat \<times> rat \<times> string" where
  "leadingFraction x scale overflow [] = (x, scale, [])"
| "leadingFraction x scale overflow (c # cs) =
     (if \<not> is_digit c then (x, scale, c # cs)
      else if overflow \<or> x > (2 ^ 63 - 1) div 10 \<or> x * 10 + digit_val c > 2 ^ 63 then leadingFraction x scale True cs
      else leadingFraction (x * 10 + digit_val c) (fl (scale * 10)) False cs)"

text \<open>One number with its unit: its value in nanoseconds and the rest.\<close>

definition durationTerm :: "string \<Rightarrow> (nat \<times> string) option" where
  "durationTerm s =
     (case leadingInt 0 s of
        None \<Rightarrow> None
      | Some (v, s1) \<Rightarrow>
          (case (if s1 \<noteq> [] \<and> hd s1 = CHR ''.'' then leadingFraction 0 1 False (tl s1) else (0, 1, s1)) of
             (f, scale, s2) \<Rightarrow>
               let pre = (length s1 \<noteq> length s);
                   post = (s1 \<noteq> [] \<and> hd s1 = CHR ''.'' \<and> length s2 \<noteq> length (tl s1));
                   u = takeWhile (\<lambda>c. c \<noteq> CHR ''.'' \<and> \<not> is_digit c) s2
               in if \<not> pre \<and> \<not> post then None
                  else case unitOf u of
                         None \<Rightarrow> None
                       | Some unit \<Rightarrow>
                           if v > 2 ^ 63 div unit then None
                           else let v' = v * unit + (if f > 0 then nat \<lfloor>fl (fl (of_nat f) * fl (of_nat unit / scale))\<rfloor> else 0)
                                in if f > 0 \<and> v' > 2 ^ 63 then None else Some (v', drop (length u) s2)))"

lemma length_leadingInt: "leadingInt x s = Some (v, t) \<Longrightarrow> length t \<le> length s"
  by (induction x s rule: leadingInt.induct) (auto split: if_splits)

lemma length_leadingFraction: "leadingFraction x sc ov s = (f, sc', t) \<Longrightarrow> length t \<le> length s"
  by (induction x sc ov s rule: leadingFraction.induct) (auto split: if_splits)

lemma unitOf_Nil [simp]: "unitOf [] = None"
  by (simp add: unitOf_def)

lemma durationTerm_shorter: "durationTerm s = Some (v, t) \<Longrightarrow> length t < length s"
proof -
  assume D: "durationTerm s = Some (v, t)"
  then obtain v0 s1 where 1: "leadingInt 0 s = Some (v0, s1)" by (auto simp: durationTerm_def split: option.splits)
  obtain f sc s2 where 2: "(if s1 \<noteq> [] \<and> hd s1 = CHR ''.'' then leadingFraction 0 1 False (tl s1) else (0, 1, s1)) = (f, sc, s2)"
    by (metis prod_cases3)
  let ?u = "takeWhile (\<lambda>c. c \<noteq> CHR ''.'' \<and> \<not> is_digit c) s2"
  have "unitOf ?u \<noteq> None" "t = drop (length ?u) s2"
    using D 1 unfolding durationTerm_def by (auto simp: 2 Let_def split: option.splits if_splits)
  then have "?u \<noteq> []" "t = drop (length ?u) s2" by (metis unitOf_Nil)+
  moreover have "length s2 \<le> length s1" using 2 length_leadingFraction [of 0 1 False "tl s1"] by (auto split: if_splits)
  moreover have "length s1 \<le> length s" by (rule length_leadingInt [OF 1])
  ultimately show ?thesis using length_takeWhile_le [of "\<lambda>c. c \<noteq> CHR ''.'' \<and> \<not> is_digit c" s2] by (cases ?u) auto
qed

text \<open>The sum of the terms, in 64 bits.\<close>

function durationSum :: "string \<Rightarrow> nat \<Rightarrow> nat option" where
  "durationSum s d =
     (if s = [] then Some d
      else if \<not> (hd s = CHR ''.'' \<or> is_digit (hd s)) then None
      else case durationTerm s of
             None \<Rightarrow> None
           | Some (v, t) \<Rightarrow> let d' = (d + v) mod 2 ^ 64 in if d' > 2 ^ 63 then None else durationSum t d')"
  by pat_completeness auto

termination
  by (relation "measure (\<lambda>(s, d). length s)") (auto dest: durationTerm_shorter)

declare durationSum.simps [simp del]

definition parseDuration :: "string \<Rightarrow> int option" where
  "parseDuration orig =
     (let neg = (orig \<noteq> [] \<and> hd orig = CHR ''-'');
          s = (if orig \<noteq> [] \<and> (hd orig = CHR ''-'' \<or> hd orig = CHR ''+'') then tl orig else orig) in
      if s = ''0'' then Some 0
      else if s = [] then None
      else case durationSum s 0 of
             None \<Rightarrow> None
           | Some d \<Rightarrow> if neg then Some (- int d) else if d > 2 ^ 63 - 1 then None else Some (int d))"

section \<open>Reading back what was written\<close>

abbreviation decimal :: "nat \<Rightarrow> string \<Rightarrow> nat" where
  "decimal a s \<equiv> foldl (\<lambda>a c. 10 * a + digit_val c) a s"

lemma decimal_ge: "a \<le> decimal a s"
proof (induction s arbitrary: a)
  case (Cons c s)
  have "a \<le> 10 * a + digit_val c" by simp
  also have "\<dots> \<le> decimal (10 * a + digit_val c) s" by (rule Cons.IH)
  finally show ?case by simp
qed simp

lemma decimal_formatUint: "decimal 0 (formatUint 10 n) = n"
  using parse_formatUint [of 10 n] by (simp add: parseUint_def)

lemma digitOf_digit: "is_digit c \<Longrightarrow> digitOf c = Some (digit_val c) \<and> digit_val c < 10 \<and> c \<noteq> CHR ''_''"
  by (auto simp: digitOf_def is_digit_def digit_val_def Let_def)

lemma scanUint_digits: "list_all is_digit s \<Longrightarrow> decimal a s < 2 ^ 64 \<Longrightarrow> scanUint 10 a s = Some (decimal a s)"
proof (induction s arbitrary: a)
  case (Cons c s)
  then have c: "digitOf c = Some (digit_val c)" "digit_val c < 10" "c \<noteq> CHR ''_''" using digitOf_digit by auto
  have "10 * a + digit_val c < 2 ^ 64" using Cons.prems(2) decimal_ge [of "10 * a + digit_val c" s] by simp
  with c Cons show ?case by (simp add: mult.commute)
qed simp

lemma parseUint0_formatUint: "n < 2 ^ 64 \<Longrightarrow> parseUint0 (formatUint 10 n) = Some n"
proof (cases "n = 0")
  case True
  then show ?thesis by (simp add: formatUint_0 parseUint0_def basePrefix_def)
next
  case False
  assume n: "n < 2 ^ 64"
  let ?s = "formatUint 10 n"
  have d: "list_all is_digit ?s" by (rule formatUint_digits)
  have b: "basePrefix ?s = (10, ?s)"
    using False formatUint_head [of n] by (simp add: basePrefix_def)
  have "CHR ''_'' \<notin> set ?s" using d digitOf_digit by (auto simp: list_all_iff)
  moreover have "scanUint 10 0 ?s = Some n" using scanUint_digits [OF d, of 0] n by (simp add: decimal_formatUint)
  ultimately show ?thesis by (simp add: parseUint0_def b)
qed

lemma digit_not_sign: "is_digit c \<Longrightarrow> c \<noteq> CHR ''-'' \<and> c \<noteq> CHR ''+'' \<and> c \<noteq> CHR ''.''"
  by (auto simp: is_digit_def)

lemma parseInt0_itoa:
  assumes "- (2 ^ 63) \<le> n" "n < 2 ^ 63"
  shows "parseInt0 (itoa n) = Some n"
proof (cases "n < 0")
  case True
  with assms have "nat (- n) \<le> 2 ^ 63" by simp
  with True parseUint0_formatUint [of "nat (- n)"] show ?thesis by (simp add: itoa_def parseInt0_def)
next
  case False
  have "is_digit (hd (formatUint 10 (nat n)))" using formatUint_digits [of "nat n"] by (cases "formatUint 10 (nat n)") auto
  with False assms parseUint0_formatUint [of "nat n"] digit_not_sign [of "hd (formatUint 10 (nat n))"] show ?thesis
    by (cases "formatUint 10 (nat n)") (auto simp: itoa_def parseInt0_def)
qed

lemma leadingInt_digits:
  "list_all is_digit ds \<Longrightarrow> decimal a ds \<le> 2 ^ 63 \<Longrightarrow> t = [] \<or> \<not> is_digit (hd t) \<Longrightarrow>
   leadingInt a (ds @ t) = Some (decimal a ds, t)"
proof (induction ds arbitrary: a)
  case Nil
  then show ?case by (cases t) auto
next
  case (Cons c ds)
  have le: "10 * a + digit_val c \<le> 2 ^ 63" using Cons.prems(2) decimal_ge [of "10 * a + digit_val c" ds] by simp
  then have "a \<le> 2 ^ 63 div 10" by simp
  with le Cons show ?case by (simp add: mult.commute not_less)
qed

lemma pow10_exact: "k \<le> 15 \<Longrightarrow> fl (10 ^ k) = 10 ^ k"
proof -
  assume "k \<le> 15"
  then have "(10::nat) ^ k \<le> 10 ^ 15" by (intro power_increasing) auto
  then have "(10::nat) ^ k < 2 ^ 53" by simp
  from fl_of_nat [OF this] show ?thesis by simp
qed

lemma leadingFraction_digits:
  "list_all is_digit ds \<Longrightarrow> decimal a ds < 10 ^ 15 \<Longrightarrow> k + length ds \<le> 15 \<Longrightarrow> t = [] \<or> \<not> is_digit (hd t) \<Longrightarrow>
   leadingFraction a (10 ^ k) False (ds @ t) = (decimal a ds, 10 ^ (k + length ds), t)"
proof (induction ds arbitrary: a k)
  case Nil
  then show ?case by (cases t) auto
next
  case (Cons c ds)
  have le: "10 * a + digit_val c < 10 ^ 15" using Cons.prems(2) decimal_ge [of "10 * a + digit_val c" ds] by simp
  have sc: "fl (10 ^ k * 10) = 10 ^ Suc k" using pow10_exact [of "Suc k"] Cons.prems(3) by (simp add: mult.commute)
  from Cons.IH [of "10 * a + digit_val c" "Suc k"] Cons.prems le sc show ?case
    by (simp add: mult.commute)
qed

section \<open>The flag parser\<close>

datatype flagError =
    FlagHelp
  | BadSyntax string
  | NotDefined string
  | NeedsArgument string
  | InvalidValue string string

fun parseFlags :: "(string \<Rightarrow> bool option) \<Rightarrow> (string \<Rightarrow> string \<Rightarrow> 's \<Rightarrow> 's option) \<Rightarrow> string list \<Rightarrow> 's \<Rightarrow> flagError + 's \<times> string list" where
  "parseFlags kind setf [] s = Inr (s, [])"
| "parseFlags kind setf (a # rest) s =
     (if length a < 2 \<or> hd a \<noteq> CHR ''-'' then Inr (s, a # rest)
      else if a = ''--'' then Inr (s, rest)
      else let full = (if a ! 1 = CHR ''-'' then drop 2 a else drop 1 a) in
        if full = [] \<or> hd full = CHR ''-'' \<or> hd full = CHR ''='' then Inl (BadSyntax a)
        else let name = takeWhile (\<lambda>c. c \<noteq> CHR ''='') full;
                 hasValue = (CHR ''='' \<in> set full);
                 value = drop (Suc (length name)) full
             in case kind name of
                  None \<Rightarrow> Inl (if name = ''help'' \<or> name = ''h'' then FlagHelp else NotDefined name)
                | Some isBool \<Rightarrow>
                    if isBool \<or> hasValue then
                      (let v = (if hasValue then value else ''true'') in
                       case setf name v s of
                         None \<Rightarrow> Inl (InvalidValue v name)
                       | Some s' \<Rightarrow> parseFlags kind setf rest s')
                    else
                      (case rest of
                         [] \<Rightarrow> Inl (NeedsArgument name)
                       | v # rest' \<Rightarrow>
                           (case setf name v s of
                              None \<Rightarrow> Inl (InvalidValue v name)
                            | Some s' \<Rightarrow> parseFlags kind setf rest' s')))"

text \<open>A flag written with its value, and the effect of a list of flags one after the other.\<close>

definition flagArg :: "string \<times> string \<Rightarrow> string" where
  "flagArg nv = CHR ''-'' # fst nv @ CHR ''='' # snd nv"

fun setAll :: "(string \<Rightarrow> string \<Rightarrow> 's \<Rightarrow> 's option) \<Rightarrow> (string \<times> string) list \<Rightarrow> 's \<Rightarrow> 's option" where
  "setAll setf [] s = Some s"
| "setAll setf ((n, v) # nvs) s = (case setf n v s of None \<Rightarrow> None | Some s' \<Rightarrow> setAll setf nvs s')"

definition flagName :: "string \<Rightarrow> bool" where
  "flagName n \<longleftrightarrow> n \<noteq> [] \<and> hd n \<noteq> CHR ''-'' \<and> CHR ''='' \<notin> set n"

lemma takeWhile_name: "CHR ''='' \<notin> set n \<Longrightarrow> takeWhile (\<lambda>c. c \<noteq> CHR ''='') (n @ CHR ''='' # v) = n"
  by (induction n) auto

lemma parseFlags_flagArgs:
  assumes "\<forall>(n, v) \<in> set nvs. flagName n \<and> kind n \<noteq> None" "setAll setf nvs s = Some s'"
  shows "parseFlags kind setf (map flagArg nvs) s = Inr (s', [])"
  using assms
proof (induction nvs arbitrary: s)
  case (Cons nv nvs)
  obtain n v where nv: "nv = (n, v)" by fastforce
  from Cons.prems nv have n: "n \<noteq> []" "hd n \<noteq> CHR ''-''" "CHR ''='' \<notin> set n" "hd n \<noteq> CHR ''=''" and k: "kind n \<noteq> None"
    by (auto simp: flagName_def hd_in_set dest: list.set_sel(1))
  obtain s1 where s1: "setf n v s = Some s1" "setAll setf nvs s1 = Some s'"
    using Cons.prems(2) nv by (auto split: option.splits)
  obtain c cs where c: "n = c # cs" using n(1) by (cases n) auto
  obtain b where b: "kind n = Some b" using k by blast
  have t: "takeWhile (\<lambda>c. c \<noteq> CHR ''='') (n @ CHR ''='' # v) = n" by (rule takeWhile_name [OF n(3)])
  have "parseFlags kind setf (map flagArg nvs) s1 = Inr (s', [])" using Cons.IH Cons.prems(1) s1(2) by simp
  then show ?case using n(2,4) b s1(1) t unfolding nv flagArg_def c by (simp add: Let_def)
qed simp

end
