(* ===== verification/BrokerMain.thy ===== *)
theory BrokerMain
  imports Scenarios GoFlag
begin

text \<open>
  The broker's command: \<^verbatim>\<open>cmd/broker/main.go\<close>. Two flags are parsed by the package \<^verbatim>\<open>flag\<close> (\<open>GoFlag\<close>), which ends the
  process itself when they are wrong; the server is made with the fixed limits of the command, the metrics endpoint is
  started beside it unless its address is empty, and the server listens and accepts (\<^verbatim>\<open>Serve\<close> and \<^verbatim>\<open>ListenAndServe\<close> of
  \<^verbatim>\<open>server.go\<close>). What the listener answers is an argument; the HTTP server is outside.
\<close>

record brokerFlags =
  bf_addr :: string
  bf_metricsAddr :: string

definition brokerDefaults :: brokerFlags where
  "brokerDefaults = \<lparr>bf_addr = '':5672'', bf_metricsAddr = '':9090''\<rparr>"

definition brokerFlagKind :: "string \<Rightarrow> bool option" where
  "brokerFlagKind n = (if n \<in> {''addr'', ''metrics-addr''} then Some False else None)"

definition brokerFlagSet :: "string \<Rightarrow> string \<Rightarrow> brokerFlags \<Rightarrow> brokerFlags option" where
  "brokerFlagSet n v f =
     (if n = ''addr'' then Some (f\<lparr>bf_addr := v\<rparr>)
      else if n = ''metrics-addr'' then Some (f\<lparr>bf_metricsAddr := v\<rparr>)
      else None)"

definition serverLimits :: ServerConfig where
  "serverLimits = \<lparr>sc_ChannelMax = 10, sc_FramesMax = 10372, sc_HeartbeatSec = 10\<rparr>"

section \<open>Listening (server.go)\<close>

text \<open>
  What \<^verbatim>\<open>ln.Accept()\<close> answers: a connection, with what its client will send and whether its socket takes writes, or an error.
\<close>

datatype accepted = Accepted "line list" bool | AcceptFails string

text \<open>
  The accept loop with the answers the listener gives: it ends with the first error and otherwise waits for the next
  connection (\<open>None\<close>). Every connection is a goroutine of its own, of which the loop only sees the start.
\<close>

fun server_Serve :: "accepted list \<Rightarrow> world \<Rightarrow> string option \<times> world" where
  "server_Serve [] w = (None, w)"
| "server_Serve (AcceptFails err # r) w = (Some err, w)"
| "server_Serve (Accepted input netok # r) w = server_Serve r (snd (acceptConn input netok w))"

definition ListenAndServe :: "(string \<Rightarrow> string + accepted list) \<Rightarrow> string \<Rightarrow> world \<Rightarrow> string option \<times> world" where
  "ListenAndServe listen addr w = (case listen addr of Inl err \<Rightarrow> (Some err, w) | Inr answers \<Rightarrow> server_Serve answers w)"

text \<open>The loop makes steps of the server's transition system, one per connection, and loses none of them.\<close>

lemma server_Serve_run: "server_step\<^sup>*\<^sup>* w (snd (server_Serve as w))"
proof (induction as w rule: server_Serve.induct)
  case (3 input netok r w)
  have "server_step w (snd (acceptConn input netok w))" by (rule step_accept) (rule prod.collapse [symmetric])
  then show ?case using 3 by (simp add: converse_rtranclp_into_rtranclp)
qed simp_all

lemma server_Serve_opens:
  "mt_ConnectionsOpened (w_metrics (snd (server_Serve (map (\<lambda>(i, ok). Accepted i ok) cs @ AcceptFails err # r) w))) =
     mt_ConnectionsOpened (w_metrics w) + length cs"
  "fst (server_Serve (map (\<lambda>(i, ok). Accepted i ok) cs @ AcceptFails err # r) w) = Some err"
  by (induction cs arbitrary: w) (auto simp: acceptConn_def NewConnection_def)

lemma ListenAndServe_run: "server_step\<^sup>*\<^sup>* w (snd (ListenAndServe listen addr w))"
  by (simp add: ListenAndServe_def server_Serve_run split: sum.split)

section \<open>The command\<close>

text \<open>The address listened on, that of the metrics endpoint, and the server.\<close>

record brokerProcess =
  bp_listen :: string
  bp_metrics :: "string option"
  bp_server :: world

text \<open>\<open>Inl\<close> is the exit code of a process that ends in \<^verbatim>\<open>flag.Parse\<close>; other arguments are ignored.\<close>

definition brokerMain :: "string list \<Rightarrow> int + brokerProcess" where
  "brokerMain args =
     (case parseFlags brokerFlagKind brokerFlagSet args brokerDefaults of
        Inl FlagHelp \<Rightarrow> Inl 0
      | Inl _ \<Rightarrow> Inl 2
      | Inr (f, _) \<Rightarrow>
          Inr \<lparr>bp_listen = bf_addr f,
               bp_metrics = (if bf_metricsAddr f \<noteq> [] then Some (bf_metricsAddr f) else None),
               bp_server = NewServer serverLimits\<rparr>)"

text \<open>Whatever the arguments, a process that starts serving does so from a state of the server's transition system.\<close>

lemma brokerMain_starts: "brokerMain args = Inr p \<Longrightarrow> server_reachable (bp_server p) \<and> w_config (bp_server p) = serverLimits"
  by (auto simp: brokerMain_def server_start_def NewServer_def split: sum.splits flagError.splits intro!: reachable.intros)

text \<open>Every pair of addresses can be asked for, and the empty one turns the metrics endpoint off.\<close>

lemma brokerMain_flags:
  "brokerMain (map flagArg [(''addr'', a), (''metrics-addr'', ma)]) =
     Inr \<lparr>bp_listen = a, bp_metrics = (if ma \<noteq> [] then Some ma else None), bp_server = NewServer serverLimits\<rparr>"
proof -
  have "parseFlags brokerFlagKind brokerFlagSet (map flagArg [(''addr'', a), (''metrics-addr'', ma)]) brokerDefaults =
      Inr (\<lparr>bf_addr = a, bf_metricsAddr = ma\<rparr>, [])"
    by (rule parseFlags_flagArgs) (simp_all add: flagName_def brokerFlagKind_def brokerFlagSet_def brokerDefaults_def del: not_None_eq)
  then show ?thesis by (simp add: brokerMain_def)
qed

lemma brokerMain_default: "brokerMain [] = Inr \<lparr>bp_listen = '':5672'', bp_metrics = Some '':9090'', bp_server = NewServer serverLimits\<rparr>"
  by (simp add: brokerMain_def brokerDefaults_def)

end
