(* ===== verification/Topology.thy ===== *)
theory Topology
  imports BenchConfig
begin

text \<open>
  The benchmark's topology: \<^verbatim>\<open>internal/bench/topology.go\<close>, and \<^verbatim>\<open>Config.Validate\<close>.

  The code reaches a channel slot through the plan of its connection and through the two capability
  lists, and changes it through either, so slots live in one list, \<open>t_slots\<close>, in the order of their
  global index, and the other lists hold indices into it. That index and position agree is one of
  the facts proved below.
\<close>

section \<open>Types\<close>

datatype ConnRole = ConnMixed | ConnPublishOnly | ConnConsumeOnly

fun ConnRole_String :: "ConnRole \<Rightarrow> string" where
  "ConnRole_String ConnMixed = ''mixed''"
| "ConnRole_String ConnPublishOnly = ''pub''"
| "ConnRole_String ConnConsumeOnly = ''cons''"

datatype Role = RoleBoth | RolePublish | RoleConsume

fun Role_String :: "Role \<Rightarrow> string" where
  "Role_String RoleBoth = ''both''"
| "Role_String RolePublish = ''publish''"
| "Role_String RoleConsume = ''consume''"

fun Role_key :: "Role \<Rightarrow> string" where
  "Role_key RoleBoth = ''both''"
| "Role_key RoleConsume = ''cons''"
| "Role_key RolePublish = []"

record channelSlot =
  sl_Conn :: nat
  sl_Ch :: nat
  sl_GlobalIndex :: nat
  sl_Role :: Role
  sl_PubGoroutines :: "nat list"
  sl_ConsGoroutines :: "nat list"
  sl_publishCapIdx :: int

record connPlan =
  cp_Conn :: nat
  cp_Role :: ConnRole
  cp_Channels :: "nat list"

record Topology =
  t_slots :: "channelSlot list"
  t_Conns :: "connPlan list"
  t_publishCapable :: "nat list"
  t_consumeCapable :: "nat list"

section \<open>Placing channels on connections\<close>

text \<open>\<^verbatim>\<open>for j := 0; j < count; j++ { b[idx(j)] = append(b[idx(j)], j) }\<close>\<close>

definition distribute :: "(nat \<Rightarrow> nat) \<Rightarrow> nat \<Rightarrow> nat \<Rightarrow> nat list list" where
  "distribute idx num m = fold (\<lambda>j bs. bs[idx j := bs ! idx j @ [j]]) [0..<num] (replicate m [])"

definition placeChannels :: "Config \<Rightarrow> config_error + nat list list" where
  "placeChannels c =
     (let n = nat (cf_Conns c); channels = nat (cf_Channels c); capN = cf_MaxChannelsPerConn c in
      if cf_ConnsDist c = DistEven then Inr (distribute (\<lambda>i. i mod n) channels n)
      else if cf_ConnsDist c = DistUneven then
        if capN \<le> 0 then Inr ((replicate n [])[0 := [0..<channels]])
        else if cf_Channels c > wrap64 (cf_Conns c * capN)
        then Inl (ChannelsDoNotFit (cf_Channels c) (cf_Conns c) capN)
        else Inr (distribute (\<lambda>i. i div nat capN) channels n)
      else Inr (replicate n []))"

definition connRole :: "Config \<Rightarrow> nat \<Rightarrow> ConnRole" where
  "connRole c i =
     (if int i < cf_PubConns c then ConnPublishOnly
      else if int i < wrap64 (cf_PubConns c + cf_ConsConns c) then ConnConsumeOnly
      else ConnMixed)"

definition newSlot :: "Config \<Rightarrow> nat \<Rightarrow> nat \<times> nat \<Rightarrow> channelSlot" where
  "newSlot c cn jg =
     \<lparr>sl_Conn = cn, sl_Ch = fst jg, sl_GlobalIndex = snd jg,
      sl_Role = (case connRole c cn of ConnPublishOnly \<Rightarrow> RolePublish | ConnConsumeOnly \<Rightarrow> RoleConsume
                 | ConnMixed \<Rightarrow> RoleBoth),
      sl_PubGoroutines = [], sl_ConsGoroutines = [], sl_publishCapIdx = -1\<rparr>"

definition connectionSlots :: "Config \<Rightarrow> nat list list \<Rightarrow> nat \<Rightarrow> channelSlot list" where
  "connectionSlots c chans cn = map (newSlot c cn) (enumerate 0 (chans ! cn))"

definition allSlots :: "Config \<Rightarrow> nat list list \<Rightarrow> channelSlot list" where
  "allSlots c chans =
     sort_key sl_GlobalIndex (concat (map (connectionSlots c chans) [0..<nat (cf_Conns c)]))"

section \<open>Roles and capabilities\<close>

definition mixedSlots :: "Config \<Rightarrow> channelSlot list \<Rightarrow> channelSlot list" where
  "mixedSlots c sls = filter (\<lambda>sl. connRole c (sl_Conn sl) = ConnMixed) sls"

text \<open>The walk over the mixed slots; slots of dedicated connections are passed over.\<close>

fun stampRoles :: "Config \<Rightarrow> int \<Rightarrow> int \<Rightarrow> channelSlot list \<Rightarrow> channelSlot list" where
  "stampRoles c pubLeft consLeft [] = []"
| "stampRoles c pubLeft consLeft (sl # sls) =
     (if connRole c (sl_Conn sl) \<noteq> ConnMixed then sl # stampRoles c pubLeft consLeft sls
      else if pubLeft > 0 then sl\<lparr>sl_Role := RolePublish\<rparr> # stampRoles c (pubLeft - 1) consLeft sls
      else if consLeft > 0 then sl\<lparr>sl_Role := RoleConsume\<rparr> # stampRoles c pubLeft (consLeft - 1) sls
      else sl\<lparr>sl_Role := RoleBoth\<rparr> # stampRoles c pubLeft consLeft sls)"

definition publishRefs :: "channelSlot list \<Rightarrow> nat list" where
  "publishRefs sls = map sl_GlobalIndex (filter (\<lambda>sl. sl_Role sl \<noteq> RoleConsume) sls)"

definition consumeRefs :: "channelSlot list \<Rightarrow> nat list" where
  "consumeRefs sls = map sl_GlobalIndex (filter (\<lambda>sl. sl_Role sl \<noteq> RolePublish) sls)"

definition updSlot :: "nat \<Rightarrow> (channelSlot \<Rightarrow> channelSlot) \<Rightarrow> channelSlot list \<Rightarrow> channelSlot list" where
  "updSlot r f sls = sls[r := f (sls ! r)]"

definition numberPublishCapable :: "nat list \<Rightarrow> channelSlot list \<Rightarrow> channelSlot list" where
  "numberPublishCapable refs sls =
     fold (\<lambda>(i, r). updSlot r (\<lambda>sl. sl\<lparr>sl_publishCapIdx := int i\<rparr>)) (enumerate 0 refs) sls"

section \<open>Placing goroutines on channels\<close>

definition placeWorkers :: "int \<Rightarrow> nat list \<Rightarrow> Distribution \<Rightarrow> int \<Rightarrow> string \<Rightarrow>
    (nat \<Rightarrow> nat \<Rightarrow> 's \<Rightarrow> 's) \<Rightarrow> 's \<Rightarrow> config_error + 's" where
  "placeWorkers num slots mode capN noun assign s =
     (let k = length slots in
      if num = 0 then Inr s
      else if k = 0 then Inl (NoCapableChannels noun num)
      else if mode = DistEven then Inr (fold (\<lambda>j. assign (slots ! (j mod k)) j) [0..<nat num] s)
      else if mode = DistUneven then
        if capN \<le> 0 then Inr (fold (\<lambda>j. assign (slots ! 0) j) [0..<nat num] s)
        else if num > wrap64 (int k * capN) then Inl (WorkersDoNotFit noun num (int k) capN)
        else Inr (fold (\<lambda>j. assign (slots ! ((j div nat capN) mod k)) j) [0..<nat num] s)
      else Inl (InvalidDistribution noun mode))"

definition assignConsumer :: "nat \<Rightarrow> nat \<Rightarrow> channelSlot list \<Rightarrow> channelSlot list" where
  "assignConsumer r j = updSlot r (\<lambda>sl. sl\<lparr>sl_ConsGoroutines := sl_ConsGoroutines sl @ [j]\<rparr>)"

definition assignPublisher :: "nat \<Rightarrow> nat \<Rightarrow> channelSlot list \<Rightarrow> channelSlot list" where
  "assignPublisher r j = updSlot r (\<lambda>sl. sl\<lparr>sl_PubGoroutines := sl_PubGoroutines sl @ [j]\<rparr>)"

definition buildTopology :: "Config \<Rightarrow> bool \<Rightarrow> config_error + Topology" where
  "buildTopology c assignWorkers =
     (case placeChannels c of
        Inl e \<Rightarrow> Inl e
      | Inr chans \<Rightarrow>
          let plans = map (\<lambda>cn. \<lparr>cp_Conn = cn, cp_Role = connRole c cn, cp_Channels = chans ! cn\<rparr>) [0..<nat (cf_Conns c)];
              slots0 = allSlots c chans;
              mixed = mixedSlots c slots0;
              carve = wrap64 (cf_PubChannels c + cf_ConsChannels c)
          in if carve > int (length mixed) then Inl (RoleCarvingOverflow carve (int (length mixed)))
             else
               let slots1 = stampRoles c (cf_PubChannels c) (cf_ConsChannels c) slots0;
                   pubs = publishRefs slots1;
                   conss = consumeRefs slots1;
                   slots2 = numberPublishCapable pubs slots1;
                   topo = (\<lambda>sls. \<lparr>t_slots = sls, t_Conns = plans, t_publishCapable = pubs, t_consumeCapable = conss\<rparr>)
               in if \<not> assignWorkers then Inr (topo slots2)
                  else if cf_Consumers c > 0 \<and> conss = [] then Inl (NoCapableChannels ''consumers'' (cf_Consumers c))
                  else case placeWorkers (cf_Consumers c) conss (cf_ChannelsDist c) (cf_MaxConsumersPerChannel c)
                              ''consumers'' assignConsumer slots2 of
                         Inl e \<Rightarrow> Inl e
                       | Inr slots3 \<Rightarrow>
                           if cf_Publishers c > 0 \<and> pubs = [] then Inl (NoCapableChannels ''publishers'' (cf_Publishers c))
                           else case placeWorkers (cf_Publishers c) pubs (cf_PubChannelsDist c)
                                       (cf_MaxPublishersPerChannel c) ''publishers'' assignPublisher slots3 of
                                  Inl e \<Rightarrow> Inl e
                                | Inr slots4 \<Rightarrow> Inr (topo slots4))"

section \<open>Validation\<close>

definition headerLen :: nat where "headerLen = 16"

definition validateFlags :: "Config \<Rightarrow> config_error option" where
  "validateFlags c =
     (if cf_Addr c = [] then Some AddrEmpty
      else if cf_Conns c \<le> 0 then Some (ConnsTooFew (cf_Conns c))
      else if cf_PubConns c < 0 then Some (PubConnsNegative (cf_PubConns c))
      else if cf_ConsConns c < 0 then Some (ConsConnsNegative (cf_ConsConns c))
      else if wrap64 (cf_PubConns c + cf_ConsConns c) > cf_Conns c
      then Some (ConnRolesExceed (wrap64 (cf_PubConns c + cf_ConsConns c)) (cf_Conns c))
      else if cf_Channels c \<le> 0 then Some (ChannelsTooFew (cf_Channels c))
      else if cf_PubChannels c < 0 then Some (PubChannelsNegative (cf_PubChannels c))
      else if cf_ConsChannels c < 0 then Some (ConsChannelsNegative (cf_ConsChannels c))
      else if cf_Publishers c < 0 then Some (PublishersNegative (cf_Publishers c))
      else if cf_Consumers c < 0 then Some (ConsumersNegative (cf_Consumers c))
      else if cf_Msgs c < 0 then Some (MsgsNegative (cf_Msgs c))
      else if cf_Size c < int headerLen then Some (SizeTooSmall (cf_Size c))
      else if cf_Report c \<le> 0 then Some (ReportNotPositive (cf_Report c))
      else if cf_DrainTimeout c \<le> 0 then Some (DrainTimeoutNotPositive (cf_DrainTimeout c))
      else if cf_Warmup c < 0 then Some (WarmupNegative (cf_Warmup c))
      else if cf_Duration c < 0 then Some (DurationNegative (cf_Duration c))
      else None)"

definition Validate :: "Config \<Rightarrow> config_error option" where
  "Validate c =
     (case validateFlags c of
        Some e \<Rightarrow> Some e
      | None \<Rightarrow>
          (case validateDistribution c of
             Some e \<Rightarrow> Some e
           | None \<Rightarrow> (case buildTopology c True of Inl e \<Rightarrow> Some e | Inr _ \<Rightarrow> None)))"

definition Build :: "Config \<Rightarrow> config_error + Topology" where
  "Build c = (case Validate c of Some e \<Rightarrow> Inl e | None \<Rightarrow> buildTopology c True)"

section \<open>Distributing into buckets\<close>

lemma partition_mset:
  "\<forall>x \<in> set xs. f x < n \<Longrightarrow> mset (concat (map (\<lambda>k. filter (\<lambda>x. f x = k) xs) [0..<n])) = mset xs"
proof (induction n arbitrary: xs)
  case (Suc n)
  let ?ys = "filter (\<lambda>x. f x < n) xs"
  have eq: "map (\<lambda>k. filter (\<lambda>x. f x = k) xs) [0..<n] = map (\<lambda>k. filter (\<lambda>x. f x = k) ?ys) [0..<n]"
    by (auto intro!: filter_cong)
  have "mset (concat (map (\<lambda>k. filter (\<lambda>x. f x = k) xs) [0..<n])) = mset ?ys"
    unfolding eq by (rule Suc.IH) simp
  moreover have "filter (\<lambda>x. f x = n) xs = filter (\<lambda>x. \<not> f x < n) xs"
    using Suc.prems by (auto intro!: filter_cong)
  ultimately show ?case using multiset_partition [of "mset xs" "\<lambda>x. f x < n"] by simp
qed simp

lemma length_distribute_fold [simp]:
  "length (fold (\<lambda>j bs. bs[idx j := bs ! idx j @ [j]]) js bs) = length bs"
  by (induction js arbitrary: bs) simp_all

lemma distribute_fold_nth:
  "\<forall>j \<in> set js. idx j < length bs \<Longrightarrow> k < length bs \<Longrightarrow>
   fold (\<lambda>j bs. bs[idx j := bs ! idx j @ [j]]) js bs ! k = bs ! k @ filter (\<lambda>j. idx j = k) js"
  by (induction js arbitrary: bs) (auto simp: nth_list_update)

text \<open>What both kinds of placement need of the function that names the bucket of an item.\<close>

locale placement =
  fixes idx :: "nat \<Rightarrow> nat" and num m :: nat
  assumes idx_less: "j < num \<Longrightarrow> idx j < m"
begin

lemma length_distribute: "length (distribute idx num m) = m"
  by (simp add: distribute_def)

lemma distribute_nth: "k < m \<Longrightarrow> distribute idx num m ! k = filter (\<lambda>j. idx j = k) [0..<num]"
  using idx_less by (simp add: distribute_def distribute_fold_nth)

lemma everyone_once: "mset (concat (distribute idx num m)) = mset [0..<num]"
proof -
  have "distribute idx num m = map (\<lambda>k. filter (\<lambda>j. idx j = k) [0..<num]) [0..<m]"
    by (rule nth_equalityI) (simp_all add: length_distribute distribute_nth)
  then show ?thesis using partition_mset [of "[0..<num]" idx m] idx_less by simp
qed

end

interpretation roundRobin: placement "\<lambda>j. j mod Suc m" num "Suc m" for m num
  by unfold_locales simp

interpretation packed: placement "\<lambda>_. 0" num "Suc m" for m num
  by unfold_locales simp

interpretation capped: placement "\<lambda>j. j div Suc k" "min num (Suc k * m)" m for k m num
  by unfold_locales (simp add: less_mult_imp_div_less mult.commute)

section \<open>Placement of channels\<close>

text \<open>The connection of a channel, in closed form.\<close>

definition chanConn :: "Config \<Rightarrow> nat \<Rightarrow> nat" where
  "chanConn c i =
     (if cf_ConnsDist c = DistEven then i mod nat (cf_Conns c)
      else if cf_MaxChannelsPerConn c \<le> 0 then 0
      else i div nat (cf_MaxChannelsPerConn c))"

lemma placement_chanConn:
  assumes "placeChannels c = Inr chans" "validateDistribution c = None" "0 < cf_Conns c"
  shows "placement (chanConn c) (nat (cf_Channels c)) (nat (cf_Conns c))"
    "chans = distribute (chanConn c) (nat (cf_Channels c)) (nat (cf_Conns c))"
proof -
  let ?n = "nat (cf_Conns c)" and ?ch = "nat (cf_Channels c)" and ?cap = "cf_MaxChannelsPerConn c"
  have dist: "cf_ConnsDist c = DistEven \<or> cf_ConnsDist c = DistUneven"
    using assms(2) by (auto simp: validateDistribution_def split: if_splits)
  have ne: "DistUneven \<noteq> DistEven" by (simp add: DistEven_def DistUneven_def)
  have fits: "i div nat ?cap < ?n"
    if "\<not> ?cap \<le> 0" "cf_Channels c \<le> wrap64 (cf_Conns c * ?cap)" "i < ?ch" for i
  proof -
    have "cf_Channels c \<le> cf_Conns c * ?cap" using that(1,2) wrap64_le [of "cf_Conns c * ?cap"] assms(3) by simp
    then have "?ch \<le> ?n * nat ?cap" using assms(3) nat_mono nat_mult_distrib by fastforce
    with that(3) show ?thesis by (simp add: less_mult_imp_div_less)
  qed
  show pl: "placement (chanConn c) ?ch ?n"
    using assms(1,3) dist ne fits
    by unfold_locales (auto simp: chanConn_def placeChannels_def Let_def split: if_splits)
  have packed: "(replicate ?n [])[0 := [0..<?ch]] = distribute (\<lambda>_. 0) ?ch ?n"
    using assms(3)
    by (intro nth_equalityI)
      (auto simp: distribute_def distribute_fold_nth nth_list_update)
  show "chans = distribute (chanConn c) ?ch ?n"
    using assms(1) dist ne packed
    by (auto simp: chanConn_def [abs_def] placeChannels_def Let_def split: if_splits)
qed

text \<open>Slots are exactly the channels in the order of their index, each on its connection.\<close>

lemma slot_index_list:
  assumes "placement (chanConn c) (nat (cf_Channels c)) (nat (cf_Conns c))"
    and chans: "chans = distribute (chanConn c) (nat (cf_Channels c)) (nat (cf_Conns c))"
  shows "map sl_GlobalIndex (allSlots c chans) = [0..<nat (cf_Channels c)]"
proof -
  let ?n = "nat (cf_Conns c)" and ?ch = "nat (cf_Channels c)"
  let ?sls = "concat (map (connectionSlots c chans) [0..<?n])"
  note pl = placement.length_distribute [OF assms(1), folded chans] placement.everyone_once [OF assms(1), folded chans]
  have "map sl_GlobalIndex (connectionSlots c chans cn) = chans ! cn" for cn
    by (simp add: connectionSlots_def newSlot_def comp_def)
  then have "map sl_GlobalIndex ?sls = concat (map ((!) chans) [0..<?n])"
    by (simp add: map_concat comp_def)
  also have "map ((!) chans) [0..<?n] = chans" using pl(1) map_nth [of chans] by simp
  finally have eq: "map sl_GlobalIndex ?sls = concat chans" .
  have "mset (map sl_GlobalIndex (allSlots c chans)) = mset (map sl_GlobalIndex ?sls)"
    by (simp add: allSlots_def)
  also have "\<dots> = mset [0..<?ch]" unfolding eq by (rule pl(2))
  finally have "mset (map sl_GlobalIndex (allSlots c chans)) = mset [0..<?ch]" .
  then have "sort [0..<?ch] = map sl_GlobalIndex (allSlots c chans)"
    by (rule properties_for_sort) (simp add: allSlots_def)
  then show ?thesis by (simp add: sorted_sort_id)
qed

lemma slot_connection:
  assumes "placement (chanConn c) (nat (cf_Channels c)) (nat (cf_Conns c))"
    and chans: "chans = distribute (chanConn c) (nat (cf_Channels c)) (nat (cf_Conns c))"
    and "sl \<in> set (allSlots c chans)"
  shows "sl_Conn sl = chanConn c (sl_GlobalIndex sl)" "sl_Conn sl < nat (cf_Conns c)"
proof -
  from assms(3) obtain cn j where sl: "cn < nat (cf_Conns c)" "j < length (chans ! cn)"
      "sl = newSlot c cn (j, chans ! cn ! j)"
    by (auto simp: allSlots_def connectionSlots_def in_set_enumerate_eq)
  moreover have "chans ! cn = filter (\<lambda>j. chanConn c j = cn) [0..<nat (cf_Channels c)]"
    unfolding chans by (rule placement.distribute_nth [OF assms(1) sl(1)])
  then have "chanConn c (chans ! cn ! j) = cn" using nth_mem [OF sl(2)] by auto
  ultimately show "sl_Conn sl = chanConn c (sl_GlobalIndex sl)" "sl_Conn sl < nat (cf_Conns c)"
    by (simp_all add: newSlot_def)
qed

section \<open>Roles\<close>

lemma length_stampRoles [simp]: "length (stampRoles c p k sls) = length sls"
  by (induction c p k sls rule: stampRoles.induct) simp_all

lemma stampRoles_frame:
  "map sl_GlobalIndex (stampRoles c p k sls) = map sl_GlobalIndex sls"
  "map sl_Conn (stampRoles c p k sls) = map sl_Conn sls"
  "map sl_Ch (stampRoles c p k sls) = map sl_Ch sls"
  "map sl_PubGoroutines (stampRoles c p k sls) = map sl_PubGoroutines sls"
  "map sl_ConsGoroutines (stampRoles c p k sls) = map sl_ConsGoroutines sls"
  by (induction c p k sls rule: stampRoles.induct) simp_all

text \<open>Of the mixed slots, exactly the requested numbers become publish-only and consume-only, in this order.\<close>

lemma stampRoles_mixed:
  "0 \<le> p \<Longrightarrow> 0 \<le> k \<Longrightarrow>
   map sl_Role (mixedSlots c (stampRoles c p k sls)) =
     take (length (mixedSlots c sls)) (replicate (nat p) RolePublish @ replicate (nat k) RoleConsume @
       replicate (length (mixedSlots c sls)) RoleBoth)"
proof (induction c p k sls rule: stampRoles.induct)
  case (2 c p k sl sls)
  have rep: "replicate (nat n) x = x # replicate (nat (n - 1)) x" if "0 < n" for n and x :: Role
  proof -
    from that have "nat n = Suc (nat (n - 1))" by simp
    then show ?thesis by simp
  qed
  have more: "take l (xs @ replicate (Suc l) x) = take l (xs @ replicate l x)" for l xs and x :: Role
    by (simp del: replicate_Suc add: take_append min_def)
  consider "connRole c (sl_Conn sl) \<noteq> ConnMixed" | "connRole c (sl_Conn sl) = ConnMixed" "0 < p"
    | "connRole c (sl_Conn sl) = ConnMixed" "p = 0" "0 < k" | "connRole c (sl_Conn sl) = ConnMixed" "p = 0" "k = 0"
    using "2.prems" by linarith
  then show ?case
  proof cases
    case 1
    with 2 show ?thesis by (simp add: mixedSlots_def)
  next
    case 2
    then show ?thesis
      using "2.IH"(2) "2.prems" more [of _ "replicate (nat (p - 1)) RolePublish @ replicate (nat k) RoleConsume" RoleBoth]
      by (simp add: mixedSlots_def rep [of p])
  next
    case 3
    then show ?thesis
      using "2.IH"(3) "2.prems" more [of _ "replicate (nat (k - 1)) RoleConsume" RoleBoth]
      by (simp add: mixedSlots_def rep [of k])
  next
    case 4
    then show ?thesis using "2.IH"(4) by (simp add: mixedSlots_def)
  qed
qed (simp add: mixedSlots_def)

section \<open>Placement of goroutines\<close>

lemma length_updSlot [simp]: "length (updSlot r f sls) = length sls"
  by (simp add: updSlot_def)

lemma updSlot_nth: "i < length sls \<Longrightarrow> updSlot r f sls ! i = (if i = r then f (sls ! i) else sls ! i)"
  by (auto simp: updSlot_def nth_list_update)

lemma fold_updSlot_length [simp]: "length (fold (\<lambda>x. updSlot (r x) (f x)) xs sls) = length sls"
  by (induction xs arbitrary: sls) simp_all

lemma fold_updSlot_frame:
  "(\<And>x sl. g (f x sl) = g sl) \<Longrightarrow> i < length sls \<Longrightarrow> g (fold (\<lambda>x. updSlot (r x) (f x)) xs sls ! i) = g (sls ! i)"
  by (induction xs arbitrary: sls) (simp_all add: updSlot_nth)

lemma fold_assignConsumer:
  "i < length sls \<Longrightarrow> fold (\<lambda>j. assignConsumer (g j) j) js sls ! i =
     (sls ! i)\<lparr>sl_ConsGoroutines := sl_ConsGoroutines (sls ! i) @ filter (\<lambda>j. g j = i) js\<rparr>"
  by (induction js arbitrary: sls) (auto simp: assignConsumer_def updSlot_nth)

lemma fold_assignPublisher:
  "i < length sls \<Longrightarrow> fold (\<lambda>j. assignPublisher (g j) j) js sls ! i =
     (sls ! i)\<lparr>sl_PubGoroutines := sl_PubGoroutines (sls ! i) @ filter (\<lambda>j. g j = i) js\<rparr>"
  by (induction js arbitrary: sls) (auto simp: assignPublisher_def updSlot_nth)

lemma length_fold_assign [simp]:
  "length (fold (\<lambda>j. assignConsumer (g j) j) js sls) = length sls"
  "length (fold (\<lambda>j. assignPublisher (g j) j) js sls) = length sls"
  by (simp_all add: assignConsumer_def assignPublisher_def)

text \<open>The position, in the list of capable slots, that a goroutine is given.\<close>

definition workerPos :: "Distribution \<Rightarrow> int \<Rightarrow> nat \<Rightarrow> nat \<Rightarrow> nat" where
  "workerPos mode capN k j =
     (if mode = DistEven then j mod k else if capN \<le> 0 then 0 else (j div nat capN) mod k)"

lemma placeWorkers_Inr:
  assumes "placeWorkers n refs mode capN noun assign s = Inr s'"
  shows "s' = fold (\<lambda>j. assign (refs ! workerPos mode capN (length refs) j) j) [0..<nat n] s"
    "0 < nat n \<Longrightarrow> refs \<noteq> []" "0 < nat n \<Longrightarrow> mode = DistEven \<or> mode = DistUneven"
    "0 < nat n \<Longrightarrow> mode \<noteq> DistEven \<Longrightarrow> 0 < capN \<Longrightarrow> n \<le> int (length refs) * capN"
proof -
  have ne: "DistUneven \<noteq> DistEven" by (simp add: DistEven_def DistUneven_def)
  show "s' = fold (\<lambda>j. assign (refs ! workerPos mode capN (length refs) j) j) [0..<nat n] s"
    "0 < nat n \<Longrightarrow> refs \<noteq> []" "0 < nat n \<Longrightarrow> mode = DistEven \<or> mode = DistUneven"
    using assms ne by (auto simp: placeWorkers_def workerPos_def [abs_def] Let_def split: if_splits)
  assume a: "0 < nat n" "mode \<noteq> DistEven" "0 < capN"
  then have "n \<le> wrap64 (int (length refs) * capN)"
    using assms by (auto simp: placeWorkers_def Let_def split: if_splits)
  also have "\<dots> \<le> int (length refs) * capN" using a(3) by (intro wrap64_le) simp
  finally show "n \<le> int (length refs) * capN" .
qed

lemma workerPos_less: "refs \<noteq> [] \<Longrightarrow> workerPos mode capN (length refs) j < length refs"
  by (simp add: workerPos_def)

section \<open>What the builder returns\<close>

lemma numberPublishCapable_fold:
  "numberPublishCapable refs sls =
     fold (\<lambda>x. updSlot (snd x) ((\<lambda>x sl. sl\<lparr>sl_publishCapIdx := int (fst x)\<rparr>) x)) (enumerate 0 refs) sls"
  by (simp add: numberPublishCapable_def case_prod_unfold)

lemma length_numberPublishCapable [simp]: "length (numberPublishCapable refs sls) = length sls"
  unfolding numberPublishCapable_fold by (rule fold_updSlot_length)

lemma numberPublishCapable_frame:
  "(\<And>i sl. g (sl\<lparr>sl_publishCapIdx := i\<rparr>) = g sl) \<Longrightarrow> i < length sls \<Longrightarrow>
   g (numberPublishCapable refs sls ! i) = g (sls ! i)"
  unfolding numberPublishCapable_fold by (rule fold_updSlot_frame) simp_all

lemma numberPublishCapable_fields:
  assumes "i < length sls"
  shows "sl_GlobalIndex (numberPublishCapable refs sls ! i) = sl_GlobalIndex (sls ! i)"
    "sl_Conn (numberPublishCapable refs sls ! i) = sl_Conn (sls ! i)"
    "sl_Role (numberPublishCapable refs sls ! i) = sl_Role (sls ! i)"
    "sl_PubGoroutines (numberPublishCapable refs sls ! i) = sl_PubGoroutines (sls ! i)"
    "sl_ConsGoroutines (numberPublishCapable refs sls ! i) = sl_ConsGoroutines (sls ! i)"
  using assms by (simp_all add: numberPublishCapable_frame)

lemma allSlots_no_goroutines:
  "sl \<in> set (allSlots c chans) \<Longrightarrow> sl_PubGoroutines sl = [] \<and> sl_ConsGoroutines sl = []"
  by (auto simp: allSlots_def connectionSlots_def newSlot_def)

text \<open>The slots before goroutines are placed.\<close>

definition roleSlots :: "Config \<Rightarrow> channelSlot list" where
  "roleSlots c = stampRoles c (cf_PubChannels c) (cf_ConsChannels c)
     (allSlots c (distribute (chanConn c) (nat (cf_Channels c)) (nat (cf_Conns c))))"

lemma Build_topology:
  assumes "Build c = Inr t"
  shows "validateFlags c = None" "validateDistribution c = None" "buildTopology c True = Inr t"
  using assms by (auto simp: Build_def Validate_def split: option.splits sum.splits)

lemma validateFlags_None:
  assumes "validateFlags c = None"
  shows "0 < cf_Conns c" "0 < cf_Channels c" "0 \<le> cf_PubChannels c" "0 \<le> cf_ConsChannels c"
    "0 \<le> cf_Publishers c" "0 \<le> cf_Consumers c" "0 \<le> cf_PubConns c" "0 \<le> cf_ConsConns c"
    "wrap64 (cf_PubConns c + cf_ConsConns c) \<le> cf_Conns c" "16 \<le> cf_Size c" "0 \<le> cf_Msgs c"
  using assms by (auto simp: validateFlags_def headerLen_def split: if_splits)

lemma Build_shape:
  assumes "Build c = Inr t"
  obtains chans slots3 where
    "placeChannels c = Inr chans" "placement (chanConn c) (nat (cf_Channels c)) (nat (cf_Conns c))"
    "chans = distribute (chanConn c) (nat (cf_Channels c)) (nat (cf_Conns c))"
    "t_Conns t = map (\<lambda>cn. \<lparr>cp_Conn = cn, cp_Role = connRole c cn, cp_Channels = chans ! cn\<rparr>) [0..<nat (cf_Conns c)]"
    "wrap64 (cf_PubChannels c + cf_ConsChannels c) \<le> int (length (mixedSlots c (allSlots c chans)))"
    "t_publishCapable t = publishRefs (roleSlots c)" "t_consumeCapable t = consumeRefs (roleSlots c)"
    "placeWorkers (cf_Consumers c) (consumeRefs (roleSlots c)) (cf_ChannelsDist c) (cf_MaxConsumersPerChannel c)
       ''consumers'' assignConsumer (numberPublishCapable (publishRefs (roleSlots c)) (roleSlots c)) = Inr slots3"
    "placeWorkers (cf_Publishers c) (publishRefs (roleSlots c)) (cf_PubChannelsDist c) (cf_MaxPublishersPerChannel c)
       ''publishers'' assignPublisher slots3 = Inr (t_slots t)"
proof -
  note B = Build_topology [OF assms]
  from B(3) obtain chans where pc: "placeChannels c = Inr chans"
    by (auto simp: buildTopology_def split: sum.splits)
  note pl = placement_chanConn [OF pc B(2) validateFlags_None(1) [OF B(1)]]
  have rs: "stampRoles c (cf_PubChannels c) (cf_ConsChannels c) (allSlots c chans) = roleSlots c"
    by (simp add: roleSlots_def pl(2))
  show thesis
    using B(3) that [OF pc pl]
    by (auto simp: buildTopology_def pc Let_def rs split: if_splits sum.splits)
qed

lemma roleSlots_fields:
  assumes pl: "placement (chanConn c) (nat (cf_Channels c)) (nat (cf_Conns c))"
  shows "length (roleSlots c) = nat (cf_Channels c)"
    "map sl_GlobalIndex (roleSlots c) = [0..<nat (cf_Channels c)]"
    "map sl_Conn (roleSlots c) = map (chanConn c) [0..<nat (cf_Channels c)]"
    "sl \<in> set (roleSlots c) \<Longrightarrow> sl_PubGoroutines sl = [] \<and> sl_ConsGoroutines sl = []"
proof -
  let ?all = "allSlots c (distribute (chanConn c) (nat (cf_Channels c)) (nat (cf_Conns c)))"
  note idx = slot_index_list [OF pl refl]
  show gi: "map sl_GlobalIndex (roleSlots c) = [0..<nat (cf_Channels c)]"
    by (simp add: roleSlots_def stampRoles_frame idx)
  show "length (roleSlots c) = nat (cf_Channels c)" using arg_cong [OF gi, of length] by simp
  have "map sl_Conn ?all = map (\<lambda>sl. chanConn c (sl_GlobalIndex sl)) ?all"
    by (rule map_cong) (simp_all add: slot_connection [OF pl refl])
  also have "\<dots> = map (chanConn c) (map sl_GlobalIndex ?all)" by simp
  finally show "map sl_Conn (roleSlots c) = map (chanConn c) [0..<nat (cf_Channels c)]"
    by (simp add: roleSlots_def stampRoles_frame idx)
  assume "sl \<in> set (roleSlots c)"
  then have "sl_PubGoroutines sl \<in> set (map sl_PubGoroutines (roleSlots c))"
    "sl_ConsGoroutines sl \<in> set (map sl_ConsGoroutines (roleSlots c))" by simp_all
  then show "sl_PubGoroutines sl = [] \<and> sl_ConsGoroutines sl = []"
    by (auto simp: roleSlots_def stampRoles_frame dest: allSlots_no_goroutines)
qed

lemma Build_slots:
  assumes B: "Build c = Inr t" and i: "i < nat (cf_Channels c)"
  shows "sl_GlobalIndex (t_slots t ! i) = i" "sl_Conn (t_slots t ! i) = chanConn c i"
    "sl_Role (t_slots t ! i) = sl_Role (roleSlots c ! i)"
    "sl_ConsGoroutines (t_slots t ! i) = filter (\<lambda>j. t_consumeCapable t !
       workerPos (cf_ChannelsDist c) (cf_MaxConsumersPerChannel c) (length (t_consumeCapable t)) j = i) [0..<nat (cf_Consumers c)]"
    "sl_PubGoroutines (t_slots t ! i) = filter (\<lambda>j. t_publishCapable t !
       workerPos (cf_PubChannelsDist c) (cf_MaxPublishersPerChannel c) (length (t_publishCapable t)) j = i) [0..<nat (cf_Publishers c)]"
proof -
  from Build_shape [OF B] obtain slots3 where
    pl: "placement (chanConn c) (nat (cf_Channels c)) (nat (cf_Conns c))"
    and caps: "t_publishCapable t = publishRefs (roleSlots c)" "t_consumeCapable t = consumeRefs (roleSlots c)"
    and c3: "placeWorkers (cf_Consumers c) (consumeRefs (roleSlots c)) (cf_ChannelsDist c) (cf_MaxConsumersPerChannel c)
       ''consumers'' assignConsumer (numberPublishCapable (publishRefs (roleSlots c)) (roleSlots c)) = Inr slots3"
    and c4: "placeWorkers (cf_Publishers c) (publishRefs (roleSlots c)) (cf_PubChannelsDist c) (cf_MaxPublishersPerChannel c)
       ''publishers'' assignPublisher slots3 = Inr (t_slots t)"
    by blast
  note rs = roleSlots_fields [OF pl]
  have len: "i < length (roleSlots c)" using i rs(1) by simp
  have nths: "sl_GlobalIndex (roleSlots c ! i) = i" "sl_Conn (roleSlots c ! i) = chanConn c i"
    using arg_cong [OF rs(2), of "\<lambda>xs. xs ! i"] arg_cong [OF rs(3), of "\<lambda>xs. xs ! i"] len i by simp_all
  have none: "sl_PubGoroutines (roleSlots c ! i) = [] \<and> sl_ConsGoroutines (roleSlots c ! i) = []"
    using rs(4) len by simp
  note eqs = placeWorkers_Inr(1) [OF c3] placeWorkers_Inr(1) [OF c4] numberPublishCapable_fields [OF len]
  show "sl_GlobalIndex (t_slots t ! i) = i" "sl_Conn (t_slots t ! i) = chanConn c i"
    "sl_Role (t_slots t ! i) = sl_Role (roleSlots c ! i)"
    "sl_ConsGoroutines (t_slots t ! i) = filter (\<lambda>j. t_consumeCapable t !
       workerPos (cf_ChannelsDist c) (cf_MaxConsumersPerChannel c) (length (t_consumeCapable t)) j = i) [0..<nat (cf_Consumers c)]"
    "sl_PubGoroutines (t_slots t ! i) = filter (\<lambda>j. t_publishCapable t !
       workerPos (cf_PubChannelsDist c) (cf_MaxPublishersPerChannel c) (length (t_publishCapable t)) j = i) [0..<nat (cf_Publishers c)]"
    using len by (simp_all add: eqs fold_assignConsumer fold_assignPublisher nths none caps)
qed

lemma Build_length:
  assumes "Build c = Inr t" shows "length (t_slots t) = nat (cf_Channels c)"
proof (rule Build_shape [OF assms])
  fix slots3
  assume pl: "placement (chanConn c) (nat (cf_Channels c)) (nat (cf_Conns c))"
    and c3: "placeWorkers (cf_Consumers c) (consumeRefs (roleSlots c)) (cf_ChannelsDist c) (cf_MaxConsumersPerChannel c)
       ''consumers'' assignConsumer (numberPublishCapable (publishRefs (roleSlots c)) (roleSlots c)) = Inr slots3"
    and c4: "placeWorkers (cf_Publishers c) (publishRefs (roleSlots c)) (cf_PubChannelsDist c) (cf_MaxPublishersPerChannel c)
       ''publishers'' assignPublisher slots3 = Inr (t_slots t)"
  show ?thesis
    by (simp add: placeWorkers_Inr(1) [OF c3] placeWorkers_Inr(1) [OF c4] roleSlots_fields(1) [OF pl])
qed

lemma map_filter_index:
  assumes "map f xs = [0..<length xs]"
  shows "map f (filter P xs) = filter (\<lambda>i. P (xs ! i)) [0..<length xs]"
proof -
  have nth: "f (xs ! i) = i" if "i < length xs" for i
    using arg_cong [OF assms, of "\<lambda>ys. ys ! i"] that by simp
  have "map f (filter P xs) = map f (filter P (map ((!) xs) [0..<length xs]))" by (simp add: map_nth)
  also have "\<dots> = map (\<lambda>i. f (xs ! i)) (filter (\<lambda>i. P (xs ! i)) [0..<length xs])"
    by (simp add: filter_map comp_def)
  also have "\<dots> = filter (\<lambda>i. P (xs ! i)) [0..<length xs]" by (rule map_idI) (auto simp: nth)
  finally show ?thesis .
qed

lemma Build_capable:
  assumes B: "Build c = Inr t"
  shows "t_publishCapable t = filter (\<lambda>i. sl_Role (t_slots t ! i) \<noteq> RoleConsume) [0..<nat (cf_Channels c)]"
    "t_consumeCapable t = filter (\<lambda>i. sl_Role (t_slots t ! i) \<noteq> RolePublish) [0..<nat (cf_Channels c)]"
proof -
  obtain pl: "placement (chanConn c) (nat (cf_Channels c)) (nat (cf_Conns c))"
    and caps: "t_publishCapable t = publishRefs (roleSlots c)" "t_consumeCapable t = consumeRefs (roleSlots c)"
    by (rule Build_shape [OF B]) blast
  note rs = roleSlots_fields [OF pl]
  note mf = map_filter_index [of sl_GlobalIndex "roleSlots c", unfolded rs(1), OF rs(2)]
  show "t_publishCapable t = filter (\<lambda>i. sl_Role (t_slots t ! i) \<noteq> RoleConsume) [0..<nat (cf_Channels c)]"
    "t_consumeCapable t = filter (\<lambda>i. sl_Role (t_slots t ! i) \<noteq> RolePublish) [0..<nat (cf_Channels c)]"
    unfolding caps publishRefs_def consumeRefs_def mf
    by (auto intro!: filter_cong simp: Build_slots(3) [OF B])
qed

lemma numberPublishCapable_snoc:
  "numberPublishCapable (refs @ [r]) sls =
     updSlot r (\<lambda>sl. sl\<lparr>sl_publishCapIdx := int (length refs)\<rparr>) (numberPublishCapable refs sls)"
  by (simp add: numberPublishCapable_def enumerate_append_eq)

lemma numberPublishCapable_idx:
  "distinct refs \<Longrightarrow> i < length sls \<Longrightarrow>
   (\<forall>p < length refs. refs ! p = i \<longrightarrow> sl_publishCapIdx (numberPublishCapable refs sls ! i) = int p) \<and>
   (i \<notin> set refs \<longrightarrow> sl_publishCapIdx (numberPublishCapable refs sls ! i) = sl_publishCapIdx (sls ! i))"
proof (induction refs rule: rev_induct)
  case (snoc r refs)
  then show ?case
    by (auto simp: numberPublishCapable_snoc updSlot_nth nth_append less_Suc_eq dest: nth_mem)
qed (simp add: numberPublishCapable_def)

lemma roleSlots_unnumbered: "sl \<in> set (roleSlots c) \<Longrightarrow> sl_publishCapIdx sl = - 1"
proof -
  have "map sl_publishCapIdx (stampRoles c p k sls) = map sl_publishCapIdx sls" for p k sls
    by (induction c p k sls rule: stampRoles.induct) simp_all
  then have "map sl_publishCapIdx (roleSlots c) =
      map sl_publishCapIdx (allSlots c (distribute (chanConn c) (nat (cf_Channels c)) (nat (cf_Conns c))))"
    by (simp add: roleSlots_def)
  moreover assume "sl \<in> set (roleSlots c)"
  then have "sl_publishCapIdx sl \<in> set (map sl_publishCapIdx (roleSlots c))" by simp
  ultimately show ?thesis by (auto simp: allSlots_def connectionSlots_def newSlot_def)
qed

text \<open>The number a publish-capable slot carries is its position in the capability list; others carry \<open>-1\<close>.\<close>

lemma Build_publishCapIdx:
  assumes B: "Build c = Inr t" and i: "i < nat (cf_Channels c)"
  shows "p < length (t_publishCapable t) \<Longrightarrow> t_publishCapable t ! p = i \<Longrightarrow> sl_publishCapIdx (t_slots t ! i) = int p"
    "i \<notin> set (t_publishCapable t) \<Longrightarrow> sl_publishCapIdx (t_slots t ! i) = - 1"
proof -
  from Build_shape [OF B] obtain slots3 where
    pl: "placement (chanConn c) (nat (cf_Channels c)) (nat (cf_Conns c))"
    and caps: "t_publishCapable t = publishRefs (roleSlots c)"
    and c3: "placeWorkers (cf_Consumers c) (consumeRefs (roleSlots c)) (cf_ChannelsDist c) (cf_MaxConsumersPerChannel c)
       ''consumers'' assignConsumer (numberPublishCapable (publishRefs (roleSlots c)) (roleSlots c)) = Inr slots3"
    and c4: "placeWorkers (cf_Publishers c) (publishRefs (roleSlots c)) (cf_PubChannelsDist c) (cf_MaxPublishersPerChannel c)
       ''publishers'' assignPublisher slots3 = Inr (t_slots t)"
    by blast
  have len: "i < length (roleSlots c)" using i roleSlots_fields(1) [OF pl] by simp
  have "sl_publishCapIdx (t_slots t ! i) = sl_publishCapIdx (numberPublishCapable (publishRefs (roleSlots c)) (roleSlots c) ! i)"
    using len by (simp add: placeWorkers_Inr(1) [OF c3] placeWorkers_Inr(1) [OF c4] fold_assignConsumer fold_assignPublisher)
  moreover have "distinct (publishRefs (roleSlots c))" using Build_capable(1) [OF B] by (simp add: caps)
  ultimately show "p < length (t_publishCapable t) \<Longrightarrow> t_publishCapable t ! p = i \<Longrightarrow> sl_publishCapIdx (t_slots t ! i) = int p"
    "i \<notin> set (t_publishCapable t) \<Longrightarrow> sl_publishCapIdx (t_slots t ! i) = - 1"
    using numberPublishCapable_idx [of "publishRefs (roleSlots c)" i "roleSlots c"] len
      roleSlots_unnumbered [OF nth_mem [OF len]] by (auto simp: caps)
qed

lemma Build_slot_conn:
  assumes B: "Build c = Inr t" and "sl \<in> set (t_slots t)"
  shows "sl_Conn sl < length (t_Conns t)"
proof -
  from assms(2) obtain i where i: "i < nat (cf_Channels c)" "sl = t_slots t ! i"
    by (auto simp: in_set_conv_nth Build_length [OF B])
  obtain pl: "placement (chanConn c) (nat (cf_Channels c)) (nat (cf_Conns c))"
    and len: "length (t_Conns t) = nat (cf_Conns c)"
    by (rule Build_shape [OF B]) simp
  show ?thesis using placement.idx_less [OF pl i(1)] Build_slots(2) [OF B i(1)] by (simp add: i(2) len)
qed

section \<open>Counting\<close>

lemma length_filter_mod:
  "0 < n \<Longrightarrow> k < n \<Longrightarrow> length (filter (\<lambda>j. j mod n = k) [0..<m]) = m div n + (if k < m mod n then 1 else 0)"
  by (induction m) (auto simp: div_Suc mod_Suc)

lemma length_filter_div:
  assumes "0 < (q :: nat)" shows "length (filter (\<lambda>j. j div q = k) [0..<m]) \<le> q"
proof -
  have "length (filter (\<lambda>j. j div q = k) [0..<m]) = card (set (filter (\<lambda>j. j div q = k) [0..<m]))"
    by (rule distinct_card [symmetric]) simp
  also have "\<dots> \<le> card {k * q ..< k * q + q}"
    using assms div_times_less_eq_dividend dividend_less_div_times
    by (intro card_mono) (auto simp: add.commute)
  finally show ?thesis by simp
qed

text \<open>How full a bucket may be: balanced to within one, or at most the cap.\<close>

definition spread :: "Distribution \<Rightarrow> int \<Rightarrow> nat \<Rightarrow> nat \<Rightarrow> nat \<Rightarrow> bool" where
  "spread mode capN num k load \<longleftrightarrow>
     (if mode = DistEven then load = num div k \<or> load = num div k + 1
      else capN \<le> 0 \<or> int load \<le> capN)"

lemma spread_workerPos:
  assumes "p < k" "mode \<noteq> DistEven \<Longrightarrow> 0 < capN \<Longrightarrow> int num \<le> int k * capN"
  shows "spread mode capN num k (length (filter (\<lambda>j. workerPos mode capN k j = p) [0..<num]))"
proof (cases "mode = DistEven \<or> capN \<le> 0")
  case False
  then have "num \<le> k * nat capN"
    using assms(2) by (metis (no_types, lifting) linorder_not_le nat_int nat_mono nat_mult_distrib of_nat_0_le_iff)
  then have "filter (\<lambda>j. workerPos mode capN k j = p) [0..<num] = filter (\<lambda>j. j div nat capN = p) [0..<num]"
    using False by (intro filter_cong) (auto simp: workerPos_def less_mult_imp_div_less)
  then show ?thesis using False length_filter_div [of "nat capN" p num] by (auto simp: spread_def)
qed (use assms(1) length_filter_mod [of k p num] in \<open>auto simp: spread_def workerPos_def\<close>)

lemma filter_nth_distinct:
  assumes "distinct refs" "p < length refs" "\<And>j. w j < length refs"
  shows "filter (\<lambda>j. refs ! w j = refs ! p) js = filter (\<lambda>j. w j = p) js"
  using assms by (intro filter_cong) (auto simp: nth_eq_iff_index_eq)

lemma worker_load:
  assumes pw: "placeWorkers n refs mode capN noun assign s = Inr s'"
    and "distinct refs" "r \<in> set refs"
  shows "spread mode capN (nat n) (length refs)
     (length (filter (\<lambda>j. refs ! workerPos mode capN (length refs) j = r) [0..<nat n]))"
proof -
  from assms(3) obtain p where p: "p < length refs" "r = refs ! p" by (auto simp: in_set_conv_nth)
  then have ne: "refs \<noteq> []" by auto
  have fits: "int (nat n) \<le> int (length refs) * capN" if "mode \<noteq> DistEven" "0 < capN"
  proof (cases "0 < nat n")
    case True
    then show ?thesis using placeWorkers_Inr(4) [OF pw True that] by simp
  qed (use that in simp)
  show ?thesis
    unfolding p(2) filter_nth_distinct [OF assms(2) p(1) workerPos_less [OF ne]]
    by (rule spread_workerPos [OF p(1)]) (rule fits)
qed

lemma mset_by_slot:
  assumes "\<And>i. i < n \<Longrightarrow> g (sls ! i) = filter (\<lambda>j. w j = i) js" "length sls = n" "\<And>j. j \<in> set js \<Longrightarrow> w j < n"
  shows "mset (concat (map g sls)) = mset js"
proof -
  have "map g sls = map (\<lambda>i. filter (\<lambda>j. w j = i) js) [0..<n]"
    using assms(1,2) by (intro nth_equalityI) simp_all
  then show ?thesis using partition_mset [of js w n] assms(3) by simp
qed

lemma Build_consumer_slot:
  assumes B: "Build c = Inr t" and j: "j < nat (cf_Consumers c)"
  shows "t_consumeCapable t ! workerPos (cf_ChannelsDist c) (cf_MaxConsumersPerChannel c) (length (t_consumeCapable t)) j
     \<in> set (t_consumeCapable t)"
proof (rule Build_shape [OF B])
  fix slots3
  assume cap: "t_consumeCapable t = consumeRefs (roleSlots c)"
    and c3: "placeWorkers (cf_Consumers c) (consumeRefs (roleSlots c)) (cf_ChannelsDist c) (cf_MaxConsumersPerChannel c)
       ''consumers'' assignConsumer (numberPublishCapable (publishRefs (roleSlots c)) (roleSlots c)) = Inr slots3"
  show ?thesis using placeWorkers_Inr(2) [OF c3] j by (intro nth_mem workerPos_less) (auto simp: cap)
qed

lemma Build_publisher_slot:
  assumes B: "Build c = Inr t" and j: "j < nat (cf_Publishers c)"
  shows "t_publishCapable t ! workerPos (cf_PubChannelsDist c) (cf_MaxPublishersPerChannel c) (length (t_publishCapable t)) j
     \<in> set (t_publishCapable t)"
proof (rule Build_shape [OF B])
  fix slots3
  assume cap: "t_publishCapable t = publishRefs (roleSlots c)"
    and c4: "placeWorkers (cf_Publishers c) (publishRefs (roleSlots c)) (cf_PubChannelsDist c) (cf_MaxPublishersPerChannel c)
       ''publishers'' assignPublisher slots3 = Inr (t_slots t)"
  show ?thesis using placeWorkers_Inr(2) [OF c4] j by (intro nth_mem workerPos_less) (auto simp: cap)
qed

lemma Build_conns:
  assumes B: "Build c = Inr t"
  shows "map cp_Conn (t_Conns t) = [0..<nat (cf_Conns c)]"
    "map cp_Channels (t_Conns t) = distribute (chanConn c) (nat (cf_Channels c)) (nat (cf_Conns c))"
    "pl \<in> set (t_Conns t) \<Longrightarrow> cp_Channels pl = filter (\<lambda>i. chanConn c i = cp_Conn pl) [0..<nat (cf_Channels c)]"
    "pl \<in> set (t_Conns t) \<Longrightarrow> cp_Conn pl < nat (cf_Conns c)"
proof -
  let ?n = "nat (cf_Conns c)" and ?d = "distribute (chanConn c) (nat (cf_Channels c)) (nat (cf_Conns c))"
  obtain P: "placement (chanConn c) (nat (cf_Channels c)) ?n"
    and eq: "t_Conns t = map (\<lambda>cn. \<lparr>cp_Conn = cn, cp_Role = connRole c cn, cp_Channels = ?d ! cn\<rparr>) [0..<?n]"
    by (rule Build_shape [OF B]) blast
  show "map cp_Conn (t_Conns t) = [0..<?n]" by (simp add: eq comp_def)
  show "map cp_Channels (t_Conns t) = ?d"
    using map_nth [of ?d] by (simp add: eq comp_def placement.length_distribute [OF P])
  show "pl \<in> set (t_Conns t) \<Longrightarrow> cp_Channels pl = filter (\<lambda>i. chanConn c i = cp_Conn pl) [0..<nat (cf_Channels c)]"
    "pl \<in> set (t_Conns t) \<Longrightarrow> cp_Conn pl < nat (cf_Conns c)"
    by (auto simp: eq placement.distribute_nth [OF P])
qed

lemma channel_load:
  assumes B: "Build c = Inr t" and k: "k < nat (cf_Conns c)"
  shows "spread (cf_ConnsDist c) (cf_MaxChannelsPerConn c) (nat (cf_Channels c)) (nat (cf_Conns c))
     (length (filter (\<lambda>i. chanConn c i = k) [0..<nat (cf_Channels c)]))"
proof (cases "cf_ConnsDist c = DistEven \<or> cf_MaxChannelsPerConn c \<le> 0")
  case True
  then show ?thesis
    using k length_filter_mod [of "nat (cf_Conns c)" k "nat (cf_Channels c)"] by (auto simp: spread_def chanConn_def)
next
  case False
  then have "chanConn c = (\<lambda>i. i div nat (cf_MaxChannelsPerConn c))" by (auto simp: chanConn_def)
  then show ?thesis
    using False length_filter_div [of "nat (cf_MaxChannelsPerConn c)" k "nat (cf_Channels c)"]
    by (simp add: spread_def le_nat_iff)
qed

section \<open>Properties\<close>

text \<open>The configuration of the witnesses below: three channels on two connections, the first of
  which only publishes.\<close>

definition smallConfig :: Config where
  "smallConfig = DefaultConfig\<lparr>cf_Conns := 2, cf_PubConns := 1, cf_Channels := 3, cf_Publishers := 2, cf_Consumers := 2\<rparr>"

text \<open>C27. A plan that is built has every channel, in the order of the global index, on exactly one
  connection; a connection's plan lists exactly the channels that name it; under the even mode the
  connections' shares differ by at most one, and under the uneven mode with a cap none exceeds it.\<close>

theorem topology_channels:
  assumes "Build c = Inr t"
  shows "map sl_GlobalIndex (t_slots t) = [0..<nat (cf_Channels c)] \<and>
    map cp_Conn (t_Conns t) = [0..<nat (cf_Conns c)] \<and>
    mset (concat (map cp_Channels (t_Conns t))) = mset [0..<nat (cf_Channels c)] \<and>
    (\<forall>pl \<in> set (t_Conns t).
       cp_Channels pl = filter (\<lambda>i. sl_Conn (t_slots t ! i) = cp_Conn pl) [0..<nat (cf_Channels c)] \<and>
       spread (cf_ConnsDist c) (cf_MaxChannelsPerConn c) (nat (cf_Channels c)) (nat (cf_Conns c)) (length (cp_Channels pl)))"
proof (intro conjI ballI)
  note S = Build_slots [OF assms] and C = Build_conns [OF assms]
  show "map sl_GlobalIndex (t_slots t) = [0..<nat (cf_Channels c)]"
    by (rule nth_equalityI) (simp_all add: Build_length [OF assms] S)
  show "map cp_Conn (t_Conns t) = [0..<nat (cf_Conns c)]" by (rule C(1))
  show "mset (concat (map cp_Channels (t_Conns t))) = mset [0..<nat (cf_Channels c)]"
    unfolding C(2) by (rule Build_shape [OF assms]) (rule placement.everyone_once)
  fix pl assume pl: "pl \<in> set (t_Conns t)"
  show "cp_Channels pl = filter (\<lambda>i. sl_Conn (t_slots t ! i) = cp_Conn pl) [0..<nat (cf_Channels c)]"
    unfolding C(3) [OF pl] by (rule filter_cong) (auto simp: S)
  show "spread (cf_ConnsDist c) (cf_MaxChannelsPerConn c) (nat (cf_Channels c)) (nat (cf_Conns c)) (length (cp_Channels pl))"
    unfolding C(3) [OF pl] by (rule channel_load [OF assms C(4) [OF pl]])
qed

theorem topology_channels_witness:
  "map (map_sum id (map cp_Channels \<circ> t_Conns)) [Build smallConfig] = [Inr [[0, 2], [1]]] \<and>
   (\<exists>t. Build smallConfig = Inr t \<and> map sl_GlobalIndex (t_slots t) = [0, 1, 2])"
proof -
  have v: "map_sum id (map cp_Channels \<circ> t_Conns) (Build smallConfig) = Inr [[0, 2], [1]]" by code_simp
  then obtain t where t: "Build smallConfig = Inr t" by (cases "Build smallConfig") simp_all
  have "map sl_GlobalIndex (t_slots t) = [0..<3]"
    using topology_channels [OF t] by (simp add: smallConfig_def)
  with v t show ?thesis by (simp add: upt_rec)
qed

text \<open>C28. Every consumer and every publisher goroutine is placed on exactly one channel; consumers
  only on channels that may consume and publishers only on channels that may publish; and the load of
  a capable channel is balanced, or within the cap, as its mode says.\<close>

theorem topology_workers:
  assumes "Build c = Inr t"
  shows "mset (concat (map sl_ConsGoroutines (t_slots t))) = mset [0..<nat (cf_Consumers c)] \<and>
    mset (concat (map sl_PubGoroutines (t_slots t))) = mset [0..<nat (cf_Publishers c)] \<and>
    (\<forall>r < length (t_slots t).
       (if r \<in> set (t_consumeCapable t)
        then sl_Role (t_slots t ! r) \<noteq> RolePublish \<and>
          spread (cf_ChannelsDist c) (cf_MaxConsumersPerChannel c) (nat (cf_Consumers c)) (length (t_consumeCapable t))
            (length (sl_ConsGoroutines (t_slots t ! r)))
        else sl_ConsGoroutines (t_slots t ! r) = []) \<and>
       (if r \<in> set (t_publishCapable t)
        then sl_Role (t_slots t ! r) \<noteq> RoleConsume \<and>
          spread (cf_PubChannelsDist c) (cf_MaxPublishersPerChannel c) (nat (cf_Publishers c)) (length (t_publishCapable t))
            (length (sl_PubGoroutines (t_slots t ! r)))
        else sl_PubGoroutines (t_slots t ! r) = []))"
proof (rule Build_shape [OF assms], intro conjI allI impI)
  fix slots3 r
  assume caps: "t_publishCapable t = publishRefs (roleSlots c)" "t_consumeCapable t = consumeRefs (roleSlots c)"
    and c3: "placeWorkers (cf_Consumers c) (consumeRefs (roleSlots c)) (cf_ChannelsDist c) (cf_MaxConsumersPerChannel c)
       ''consumers'' assignConsumer (numberPublishCapable (publishRefs (roleSlots c)) (roleSlots c)) = Inr slots3"
    and c4: "placeWorkers (cf_Publishers c) (publishRefs (roleSlots c)) (cf_PubChannelsDist c) (cf_MaxPublishersPerChannel c)
       ''publishers'' assignPublisher slots3 = Inr (t_slots t)"
  note S = Build_slots [OF assms] and L = Build_length [OF assms] and cap = Build_capable [OF assms]
  note on = Build_consumer_slot [OF assms] Build_publisher_slot [OF assms]
  have sub: "set (t_consumeCapable t) \<subseteq> {..<nat (cf_Channels c)}" "set (t_publishCapable t) \<subseteq> {..<nat (cf_Channels c)}"
    by (auto simp: cap)
  have dist: "distinct (t_consumeCapable t)" "distinct (t_publishCapable t)" by (simp_all add: cap)
  show "mset (concat (map sl_ConsGoroutines (t_slots t))) = mset [0..<nat (cf_Consumers c)]"
    by (rule mset_by_slot [OF S(4) L]) (use on(1) sub(1) in auto)
  show "mset (concat (map sl_PubGoroutines (t_slots t))) = mset [0..<nat (cf_Publishers c)]"
    by (rule mset_by_slot [OF S(5) L]) (use on(2) sub(2) in auto)
  assume "r < length (t_slots t)"
  then have r: "r < nat (cf_Channels c)" by (simp add: L)
  note loads = worker_load [OF c3, folded caps, OF dist(1)] worker_load [OF c4, folded caps, OF dist(2)]
  show "if r \<in> set (t_consumeCapable t)
        then sl_Role (t_slots t ! r) \<noteq> RolePublish \<and>
          spread (cf_ChannelsDist c) (cf_MaxConsumersPerChannel c) (nat (cf_Consumers c)) (length (t_consumeCapable t))
            (length (sl_ConsGoroutines (t_slots t ! r)))
        else sl_ConsGoroutines (t_slots t ! r) = []"
    using loads(1) on(1) S(4) [OF r] cap(2) by (auto simp: filter_empty_conv)
  show "if r \<in> set (t_publishCapable t)
        then sl_Role (t_slots t ! r) \<noteq> RoleConsume \<and>
          spread (cf_PubChannelsDist c) (cf_MaxPublishersPerChannel c) (nat (cf_Publishers c)) (length (t_publishCapable t))
            (length (sl_PubGoroutines (t_slots t ! r)))
        else sl_PubGoroutines (t_slots t ! r) = []"
    using loads(2) on(2) S(5) [OF r] cap(1) by (auto simp: filter_empty_conv)
qed

theorem topology_workers_witness:
  "\<exists>t. Build smallConfig = Inr t \<and> map sl_ConsGoroutines (t_slots t) = [[], [0, 1], []] \<and>
     mset (concat (map sl_PubGoroutines (t_slots t))) = mset [0, 1]"
proof -
  have v: "map_sum id (map sl_ConsGoroutines \<circ> t_slots) (Build smallConfig) = Inr [[], [0, 1], []]" by code_simp
  then obtain t where t: "Build smallConfig = Inr t" by (cases "Build smallConfig") simp_all
  have "mset (concat (map sl_PubGoroutines (t_slots t))) = mset [0..<2]"
    using topology_workers [OF t] by (simp add: smallConfig_def)
  with v t show ?thesis by (simp add: upt_rec)
qed

lemma roles_by_connection:
  "map (\<lambda>sl. (sl_Conn sl, sl_Role sl)) xs = map (\<lambda>sl. (sl_Conn sl, sl_Role sl)) ys \<Longrightarrow>
   map sl_Role (mixedSlots c xs) = map sl_Role (mixedSlots c ys)"
proof -
  have "map sl_Role (mixedSlots c xs) =
      map snd (filter (\<lambda>p. connRole c (fst p) = ConnMixed) (map (\<lambda>sl. (sl_Conn sl, sl_Role sl)) xs))" for xs
    by (simp add: mixedSlots_def filter_map comp_def)
  then show "map (\<lambda>sl. (sl_Conn sl, sl_Role sl)) xs = map (\<lambda>sl. (sl_Conn sl, sl_Role sl)) ys \<Longrightarrow>
      map sl_Role (mixedSlots c xs) = map sl_Role (mixedSlots c ys)" by simp
qed

lemma stampRoles_dedicated:
  "sl \<in> set (stampRoles c p k sls) \<Longrightarrow> connRole c (sl_Conn sl) \<noteq> ConnMixed \<Longrightarrow> sl \<in> set sls"
  by (induction c p k sls rule: stampRoles.induct) (auto split: if_splits)

lemma length_mixedSlots_stamp: "length (mixedSlots c (stampRoles c p k sls)) = length (mixedSlots c sls)"
  by (induction c p k sls rule: stampRoles.induct) (simp_all add: mixedSlots_def)



definition overflowConfig :: Config where
  "overflowConfig = DefaultConfig\<lparr>cf_Conns := 1, cf_PubConns := 2 ^ 63 - 1, cf_ConsConns := 1,
     cf_Channels := 1, cf_Publishers := 1, cf_Consumers := 0\<rparr>"

text \<open>The check of \<^verbatim>\<open>-pub-conns\<close> plus \<^verbatim>\<open>-cons-conns\<close> against \<^verbatim>\<open>-conns\<close> is done on
  64-bit integers: a sum that overflows is negative, passes, and a plan is built that contradicts
  the flags.\<close>

lemma validate_overflow:
  "Validate overflowConfig = None \<and> cf_Conns overflowConfig < cf_PubConns overflowConfig + cf_ConsConns overflowConfig"
  by (intro conjI) code_simp+

end
