(* ===== verification/BenchStats.thy ===== *)
theory BenchStats
  imports Topology Float64
begin

text \<open>
  The benchmark's measurements: \<^verbatim>\<open>internal/bench/metrics.go\<close>. Latencies are doubles (theory
  \<open>Float64\<close>), counters are natural numbers (they count single calls and stay far below \<open>2 ^ 64\<close>),
  times are nanoseconds. The code protects every accumulator by a lock or an atomic instruction,
  and the phase boundary by \<^verbatim>\<open>phaseMu\<close>; a call is one step, and a run is any sequence of calls.
  An index that is out of range, or a missing role, is a panic: \<open>None\<close>.
\<close>

section \<open>Latency sets\<close>

record LatencySummary =
  lt_Count :: nat
  lt_Min :: rat
  lt_Avg :: rat
  lt_Max :: rat
  lt_P50 :: rat
  lt_P95 :: rat
  lt_P99 :: rat

definition zero_LatencySummary :: LatencySummary where
  "zero_LatencySummary = \<lparr>lt_Count = 0, lt_Min = 0, lt_Avg = 0, lt_Max = 0, lt_P50 = 0, lt_P95 = 0, lt_P99 = 0\<rparr>"

record latencySet =
  ls_samples :: "rat list"
  ls_count :: nat
  ls_sum :: rat
  ls_min :: rat
  ls_max :: rat
  ls_has :: bool

definition newLatencySet :: latencySet where
  "newLatencySet = \<lparr>ls_samples = [], ls_count = 0, ls_sum = 0, ls_min = 0, ls_max = 0, ls_has = False\<rparr>"

definition latencySet_add :: "rat \<Rightarrow> latencySet \<Rightarrow> latencySet" where
  "latencySet_add v s =
     s\<lparr>ls_samples := ls_samples s @ [v],
       ls_count := ls_count s + 1,
       ls_sum := fl (ls_sum s + v),
       ls_min := (if \<not> ls_has s \<or> v < ls_min s then v else ls_min s),
       ls_max := (if \<not> ls_has s \<or> v > ls_max s then v else ls_max s),
       ls_has := True\<rparr>"

definition percentile :: "rat list \<Rightarrow> rat \<Rightarrow> rat" where
  "percentile sorted_samples p =
     (if sorted_samples = [] then 0
      else let n = int (length sorted_samples);
               idx = \<lceil>fl (fl (p / 100) * fl (of_int n))\<rceil> - 1;
               idx = (if idx < 0 then 0 else idx);
               idx = (if idx \<ge> n then n - 1 else idx)
           in sorted_samples ! nat idx)"

definition summaryLocked :: "latencySet \<Rightarrow> LatencySummary" where
  "summaryLocked s =
     (if \<not> ls_has s then zero_LatencySummary
      else let srt = (if length (ls_samples s) > 1 \<and> \<not> sorted (ls_samples s) then sort (ls_samples s) else ls_samples s)
           in \<lparr>lt_Count = ls_count s, lt_Min = ls_min s, lt_Avg = fl (ls_sum s / fl (of_nat (ls_count s))), lt_Max = ls_max s,
               lt_P50 = percentile srt 50, lt_P95 = percentile srt 95, lt_P99 = percentile srt 99\<rparr>)"

definition resetLocked :: "latencySet \<Rightarrow> latencySet" where
  "resetLocked s = s\<lparr>ls_samples := [], ls_count := 0, ls_sum := 0, ls_min := 0, ls_max := 0, ls_has := False\<rparr>"

definition snapshotReset :: "latencySet \<Rightarrow> LatencySummary \<times> latencySet" where
  "snapshotReset s = (summaryLocked s, resetLocked s)"

section \<open>The accumulator\<close>

record connStats =
  cs_published :: nat
  cs_consumed :: nat
  cs_delivered :: nat
  cs_delLatSum :: rat
  cs_delLatCount :: nat

definition zero_connStats :: connStats where
  "zero_connStats = \<lparr>cs_published = 0, cs_consumed = 0, cs_delivered = 0, cs_delLatSum = 0, cs_delLatCount = 0\<rparr>"

text \<open>\<^verbatim>\<open>pubChStats\<close> has a single counter.\<close>

type_synonym pubChStats = nat

record stats =
  st_phaseFrom :: nat
  st_published :: nat
  st_delivered :: nat
  st_consumed :: nat
  st_duplicates :: nat
  st_drops :: nat
  st_allPublished :: nat
  st_allDelivered :: nat
  st_allConsumed :: nat
  st_allAcks :: nat
  st_pubW :: nat
  st_delW :: nat
  st_consW :: nat
  st_dupW :: nat
  st_delLatTot :: latencySet
  st_ackLatTot :: latencySet
  st_delLatWin :: latencySet
  st_ackLatWin :: latencySet
  st_roleDelTot :: "(string, latencySet) gomap"
  st_roleDelWin :: "(string, latencySet) gomap"
  st_perConn :: "connStats list"
  st_perPubCh :: "pubChStats list"
  st_total :: int

definition roleKeys :: "string list" where "roleKeys = [''both'', ''cons'']"

definition newStats :: "Topology \<Rightarrow> int \<Rightarrow> stats" where
  "newStats t budget =
     \<lparr>st_phaseFrom = 0, st_published = 0, st_delivered = 0, st_consumed = 0, st_duplicates = 0, st_drops = 0,
      st_allPublished = 0, st_allDelivered = 0, st_allConsumed = 0, st_allAcks = 0,
      st_pubW = 0, st_delW = 0, st_consW = 0, st_dupW = 0,
      st_delLatTot = newLatencySet, st_ackLatTot = newLatencySet, st_delLatWin = newLatencySet, st_ackLatWin = newLatencySet,
      st_roleDelTot = map (\<lambda>k. (k, newLatencySet)) roleKeys, st_roleDelWin = map (\<lambda>k. (k, newLatencySet)) roleKeys,
      st_perConn = replicate (length (t_Conns t)) zero_connStats,
      st_perPubCh = replicate (length (t_publishCapable t)) 0, st_total = budget\<rparr>"

text \<open>Indexing a slice, and reaching a set through the role map.\<close>

definition updAt :: "nat \<Rightarrow> ('a \<Rightarrow> 'a) \<Rightarrow> 'a list \<Rightarrow> 'a list option" where
  "updAt i f xs = (if i < length xs then Some (xs[i := f (xs ! i)]) else None)"

definition addRole :: "string \<Rightarrow> rat \<Rightarrow> (string, latencySet) gomap \<Rightarrow> (string, latencySet) gomap option" where
  "addRole k v m = (if k = [] then Some m else map_option (\<lambda>s. gm_put k (latencySet_add v s) m) (gm_get m k))"

definition recordPublish :: "channelSlot \<Rightarrow> nat \<Rightarrow> rat \<Rightarrow> stats \<Rightarrow> stats option" where
  "recordPublish sl seq latUs st0 =
     (let st = st0\<lparr>st_allPublished := st_allPublished st0 + 1\<rparr> in
      if seq \<le> st_phaseFrom st then Some st
      else case updAt (sl_Conn sl) (\<lambda>cs. cs\<lparr>cs_published := cs_published cs + 1\<rparr>) (st_perConn st) of
             None \<Rightarrow> None
           | Some pc \<Rightarrow>
               case (if sl_publishCapIdx sl \<ge> 0 then updAt (nat (sl_publishCapIdx sl)) Suc (st_perPubCh st)
                     else Some (st_perPubCh st)) of
                 None \<Rightarrow> None
               | Some pp \<Rightarrow>
                   Some (st\<lparr>st_published := st_published st + 1, st_pubW := st_pubW st + 1,
                            st_perConn := pc, st_perPubCh := pp\<rparr>))"

definition recordDeliver :: "channelSlot \<Rightarrow> nat \<Rightarrow> rat \<Rightarrow> bool \<Rightarrow> stats \<Rightarrow> stats option" where
  "recordDeliver sl seq delLatUs dup st0 =
     (let st = st0\<lparr>st_allDelivered := st_allDelivered st0 + 1,
                   st_allConsumed := (if dup then st_allConsumed st0 else st_allConsumed st0 + 1)\<rparr> in
      if seq \<le> st_phaseFrom st then Some st
      else case (addRole (Role_key (sl_Role sl)) delLatUs (st_roleDelTot st),
                 addRole (Role_key (sl_Role sl)) delLatUs (st_roleDelWin st),
                 updAt (sl_Conn sl)
                   (\<lambda>cs. cs\<lparr>cs_delivered := cs_delivered cs + 1,
                            cs_consumed := (if dup then cs_consumed cs else cs_consumed cs + 1),
                            cs_delLatSum := fl (cs_delLatSum cs + delLatUs),
                            cs_delLatCount := cs_delLatCount cs + 1\<rparr>) (st_perConn st)) of
             (Some rt, Some rw, Some pc) \<Rightarrow>
               Some (st\<lparr>st_delivered := st_delivered st + 1, st_delW := st_delW st + 1,
                        st_duplicates := (if dup then st_duplicates st + 1 else st_duplicates st),
                        st_dupW := (if dup then st_dupW st + 1 else st_dupW st),
                        st_consumed := (if dup then st_consumed st else st_consumed st + 1),
                        st_consW := (if dup then st_consW st else st_consW st + 1),
                        st_delLatTot := latencySet_add delLatUs (st_delLatTot st),
                        st_delLatWin := latencySet_add delLatUs (st_delLatWin st),
                        st_roleDelTot := rt, st_roleDelWin := rw, st_perConn := pc\<rparr>)
           | _ \<Rightarrow> None)"

definition recordAck :: "nat \<Rightarrow> rat \<Rightarrow> stats \<Rightarrow> stats" where
  "recordAck seq latUs st0 =
     (let st = st0\<lparr>st_allAcks := st_allAcks st0 + 1\<rparr> in
      if seq \<le> st_phaseFrom st then st
      else st\<lparr>st_ackLatTot := latencySet_add latUs (st_ackLatTot st),
              st_ackLatWin := latencySet_add latUs (st_ackLatWin st)\<rparr>)"

definition drained :: "bool \<Rightarrow> stats \<Rightarrow> bool" where
  "drained ack st \<longleftrightarrow>
     (if ack then st_allConsumed st \<ge> st_allPublished st \<and> st_allAcks st \<ge> st_allDelivered st
      else st_consumed st \<ge> st_published st)"

definition resetAll :: "stats \<Rightarrow> stats" where
  "resetAll st =
     st\<lparr>st_published := 0, st_delivered := 0, st_consumed := 0, st_duplicates := 0, st_drops := 0,
        st_pubW := 0, st_delW := 0, st_consW := 0, st_dupW := 0,
        st_delLatTot := resetLocked (st_delLatTot st), st_ackLatTot := resetLocked (st_ackLatTot st),
        st_delLatWin := resetLocked (st_delLatWin st), st_ackLatWin := resetLocked (st_ackLatWin st),
        st_roleDelTot := map (\<lambda>(k, s). (k, resetLocked s)) (st_roleDelTot st),
        st_roleDelWin := map (\<lambda>(k, s). (k, resetLocked s)) (st_roleDelWin st),
        st_perConn := map (\<lambda>_. zero_connStats) (st_perConn st),
        st_perPubCh := map (\<lambda>_. 0) (st_perPubCh st)\<rparr>"

definition beginMeasured :: "nat \<Rightarrow> stats \<Rightarrow> nat \<times> stats" where
  "beginMeasured seq st = (seq, resetAll (st\<lparr>st_phaseFrom := seq\<rparr>))"

definition totals :: "stats \<Rightarrow> nat \<times> nat \<times> nat \<times> nat \<times> nat" where
  "totals st = (st_published st, st_delivered st, st_consumed st, st_duplicates st, st_drops st)"

record intervalRecord =
  ir_TsStart :: int
  ir_WindowMs :: rat
  ir_Published :: nat
  ir_Delivered :: nat
  ir_Consumed :: nat
  ir_Duplicates :: nat
  ir_Drops :: nat
  ir_DelLat :: LatencySummary
  ir_AckAvgUs :: rat
  ir_BothP95Us :: rat
  ir_ConsP95Us :: rat

text \<open>Reads and clears the set of a role; a missing role is a panic.\<close>

definition sampleRole :: "string \<Rightarrow> (string, latencySet) gomap \<Rightarrow> (rat \<times> (string, latencySet) gomap) option" where
  "sampleRole k m =
     (case gm_get m k of
        None \<Rightarrow> None
      | Some s \<Rightarrow> (case snapshotReset s of (sm, s') \<Rightarrow> Some (lt_P95 sm, gm_put k s' m)))"

definition sampleWindow :: "int \<Rightarrow> int \<Rightarrow> stats \<Rightarrow> (intervalRecord \<times> stats) option" where
  "sampleWindow ts fin st =
     (case (snapshotReset (st_delLatWin st), snapshotReset (st_ackLatWin st)) of
        ((dl, dw), (ack, aw)) \<Rightarrow>
          (case sampleRole ''both'' (st_roleDelWin st) of
             None \<Rightarrow> None
           | Some (both, m1) \<Rightarrow>
               (case sampleRole ''cons'' m1 of
                  None \<Rightarrow> None
                | Some (cons, m2) \<Rightarrow>
                    Some (\<lparr>ir_TsStart = ts, ir_WindowMs = fl (fl (of_int (fin - ts)) / 1000000),
                           ir_Published = st_pubW st, ir_Delivered = st_delW st, ir_Consumed = st_consW st,
                           ir_Duplicates = st_dupW st,
                           ir_Drops = (if st_published st > st_consumed st then st_published st - st_consumed st else 0),
                           ir_DelLat = dl, ir_AckAvgUs = (if lt_Count ack > 0 then lt_Avg ack else 0),
                           ir_BothP95Us = both, ir_ConsP95Us = cons\<rparr>,
                          st\<lparr>st_pubW := 0, st_delW := 0, st_consW := 0, st_dupW := 0,
                             st_delLatWin := dw, st_ackLatWin := aw, st_roleDelWin := m2\<rparr>))))"

section \<open>Latency sets in closed form\<close>

text \<open>What a set is after some samples, since it was created or last cleared.\<close>

definition setOf :: "rat list \<Rightarrow> latencySet" where
  "setOf vs =
     \<lparr>ls_samples = vs, ls_count = length vs, ls_sum = fold (\<lambda>v a. fl (a + v)) vs 0,
      ls_min = (if vs = [] then 0 else Min (set vs)), ls_max = (if vs = [] then 0 else Max (set vs)), ls_has = (vs \<noteq> [])\<rparr>"

lemma newLatencySet_setOf: "newLatencySet = setOf []"
  by (simp add: newLatencySet_def setOf_def)

lemma resetLocked_setOf [simp]: "resetLocked s = setOf []"
  by (simp add: resetLocked_def setOf_def)

lemma if_less_min_max:
  fixes v m :: rat
  shows "(if v < m then v else m) = min v m" "(if m < v then v else m) = max v m"
  by (auto simp: min_def max_def)

lemma add_setOf [simp]: "latencySet_add v (setOf vs) = setOf (vs @ [v])"
  by (cases "vs = []") (simp_all add: latencySet_add_def setOf_def if_less_min_max del: Min_gr_iff Max_less_iff)

text \<open>The nearest rank of a percentile among \<open>n\<close> samples.\<close>

definition nearestRank :: "nat \<Rightarrow> nat \<Rightarrow> nat" where
  "nearestRank p n = nat \<lceil>(of_nat (p * n) / 100 :: rat)\<rceil> - 1"

lemma nearestRank_bounds:
  assumes "0 < p" "p \<le> 100" "0 < n"
  shows "int (nearestRank p n) = \<lceil>(of_nat (p * n) / 100 :: rat)\<rceil> - 1" "nearestRank p n < n"
proof -
  have "(0::rat) < of_nat (p * n) / 100" using assms by simp
  then have lo: "1 \<le> \<lceil>(of_nat (p * n) / 100 :: rat)\<rceil>" by (simp add: le_ceiling_iff)
  have "(of_nat p :: rat) * of_nat n \<le> 100 * of_nat n" using assms by (intro mult_right_mono) simp_all
  then have hi: "\<lceil>(of_nat (p * n) / 100 :: rat)\<rceil> \<le> int n" by (simp add: ceiling_le_iff)
  show "int (nearestRank p n) = \<lceil>(of_nat (p * n) / 100 :: rat)\<rceil> - 1"
    unfolding nearestRank_def using lo by linarith
  with hi show "nearestRank p n < n" using assms(3) by linarith
qed

lemma nearestRank_mono: "p \<le> p' \<Longrightarrow> nearestRank p n \<le> nearestRank p' n"
  unfolding nearestRank_def
  by (intro diff_le_mono nat_mono ceiling_mono divide_right_mono) (simp_all add: mult_right_mono)

lemma percentile_rank:
  assumes "p \<in> {50, 95, 99 :: nat}" "vs \<noteq> []" "length vs < 2 ^ 40"
  shows "percentile vs (of_nat p) = vs ! nearestRank p (length vs)"
proof -
  have n: "0 < length vs" and p: "0 < p" "p \<le> 100" using assms by auto
  have "fl (of_int (int (length vs))) = of_nat (length vs)" using assms(3) by (simp add: fl_of_nat)
  then have "\<lceil>fl (fl (of_nat p / 100) * fl (of_int (int (length vs))))\<rceil> - 1 = int (nearestRank p (length vs))"
    using ceiling_fl_percent [OF assms(1) n assms(3)] nearestRank_bounds(1) [OF p n] by simp
  then show ?thesis
    using assms(2) nearestRank_bounds(2) [OF p n] by (simp add: percentile_def Let_def)
qed

lemma summary_setOf:
  assumes "vs \<noteq> []" "length vs < 2 ^ 40"
  shows "summaryLocked (setOf vs) =
    \<lparr>lt_Count = length vs, lt_Min = Min (set vs), lt_Avg = fl (fold (\<lambda>v a. fl (a + v)) vs 0 / of_nat (length vs)),
     lt_Max = Max (set vs), lt_P50 = sort vs ! nearestRank 50 (length vs),
     lt_P95 = sort vs ! nearestRank 95 (length vs), lt_P99 = sort vs ! nearestRank 99 (length vs)\<rparr>"
proof -
  have srt: "(if length vs > 1 \<and> \<not> sorted vs then sort vs else vs) = sort vs"
  proof (cases "length vs > 1 \<and> \<not> sorted vs")
    case False
    then have "sorted vs" by (cases vs) (auto simp: not_less)
    then show ?thesis by (simp add: sorted_sort_id)
  qed simp
  have "sort vs \<noteq> []" using assms(1) by (metis length_0_conv length_sort)
  then have pc: "percentile (sort vs) 50 = sort vs ! nearestRank 50 (length vs)"
    "percentile (sort vs) 95 = sort vs ! nearestRank 95 (length vs)"
    "percentile (sort vs) 99 = sort vs ! nearestRank 99 (length vs)"
    using assms percentile_rank [of 50 "sort vs"] percentile_rank [of 95 "sort vs"] percentile_rank [of 99 "sort vs"]
    by simp_all
  have sel: "ls_samples (setOf vs) = vs" by (simp add: setOf_def)
  show ?thesis unfolding summaryLocked_def sel srt Let_def pc using assms by (simp add: setOf_def fl_of_nat)
qed

lemma sort_Min_Max:
  assumes "i < length vs" shows "Min (set vs) \<le> sort vs ! i" "sort vs ! i \<le> Max (set vs)"
proof -
  have "sort vs ! i \<in> set (sort vs)" using assms by (intro nth_mem) simp
  then show "Min (set vs) \<le> sort vs ! i" "sort vs ! i \<le> Max (set vs)" by simp_all
qed

text \<open>
  C30. A latency set that recorded the samples \<open>vs\<close> (fewer than \<open>2 ^ 40\<close>) reports their number, least and
  greatest element, and percentiles that are exactly the nearest-rank ones of the sorted samples, although
  the rank is computed in doubles; and the reported values are ordered.
\<close>

theorem latency_summary:
  assumes "vs \<noteq> []" "length vs < 2 ^ 40" "sm = summaryLocked (fold latencySet_add vs newLatencySet)"
  shows "lt_Count sm = length vs \<and> lt_Min sm = Min (set vs) \<and> lt_Max sm = Max (set vs) \<and>
    lt_P50 sm = sort vs ! nearestRank 50 (length vs) \<and> lt_P95 sm = sort vs ! nearestRank 95 (length vs) \<and>
    lt_P99 sm = sort vs ! nearestRank 99 (length vs) \<and>
    lt_Min sm \<le> lt_P50 sm \<and> lt_P50 sm \<le> lt_P95 sm \<and> lt_P95 sm \<le> lt_P99 sm \<and> lt_P99 sm \<le> lt_Max sm"
proof -
  have "fold latencySet_add vs (setOf us) = setOf (us @ vs)" for us
    by (induction vs arbitrary: us) simp_all
  from this [of "[]"] have sm: "sm = summaryLocked (setOf vs)" by (simp add: assms(3) newLatencySet_setOf)
  have n: "0 < length vs" using assms(1) by simp
  have r: "nearestRank 50 (length vs) < length vs" "nearestRank 99 (length vs) < length vs"
    "nearestRank 95 (length vs) < length vs"
    using nearestRank_bounds(2) [of _ "length vs"] n by simp_all
  have mono: "sort vs ! nearestRank 50 (length vs) \<le> sort vs ! nearestRank 95 (length vs)"
    "sort vs ! nearestRank 95 (length vs) \<le> sort vs ! nearestRank 99 (length vs)"
    using r by (auto intro!: sorted_nth_mono nearestRank_mono)
  show ?thesis unfolding sm summary_setOf [OF assms(1,2)] using r mono by (simp add: sort_Min_Max)
qed

theorem latency_summary_witness:
  "lt_P95 (summaryLocked (fold latencySet_add [3, 1, 2] newLatencySet)) = 3 \<and>
   lt_P50 (summaryLocked (fold latencySet_add [3, 1, 2] newLatencySet)) = 2"
proof -
  have "nearestRank 95 3 = 2" "nearestRank 50 3 = 1" 
    unfolding nearestRank_def
    using ceiling_unique [of 3 "57 / 20 :: rat"] ceiling_unique [of 2 "3 / 2 :: rat"] by simp_all
  then have "nearestRank 95 (Suc (Suc (Suc 0))) = 2" "nearestRank 50 (Suc (Suc (Suc 0))) = 1"
    by (simp_all add: numeral_3_eq_3)
  then show ?thesis using latency_summary [of "[3, 1, 2]", OF _ _ refl] by simp
qed

section \<open>Runs\<close>

text \<open>The calls workers and sampler make, one after the other in some order.\<close>

datatype event =
    Published channelSlot nat rat
  | Delivered channelSlot nat rat bool
  | Acked nat rat
  | Sampled int int

fun stepEvent :: "event \<Rightarrow> stats \<Rightarrow> (stats \<times> intervalRecord list) option" where
  "stepEvent (Published sl seq lat) st = map_option (\<lambda>st'. (st', [])) (recordPublish sl seq lat st)"
| "stepEvent (Delivered sl seq lat dup) st = map_option (\<lambda>st'. (st', [])) (recordDeliver sl seq lat dup st)"
| "stepEvent (Acked seq lat) st = Some (recordAck seq lat st, [])"
| "stepEvent (Sampled ts fin) st = map_option (\<lambda>(rec, st'). (st', [rec])) (sampleWindow ts fin st)"

fun runEvents :: "event list \<Rightarrow> stats \<Rightarrow> (stats \<times> intervalRecord list) option" where
  "runEvents [] st = Some (st, [])"
| "runEvents (e # es) st =
     (case stepEvent e st of
        None \<Rightarrow> None
      | Some (st', recs) \<Rightarrow> map_option (\<lambda>(st'', recs'). (st'', recs @ recs')) (runEvents es st'))"

text \<open>Which events are counted, with the messages up to \<open>warm\<close> being warmup traffic.\<close>

fun pubOn :: "nat \<Rightarrow> event \<Rightarrow> channelSlot list" where
  "pubOn warm (Published sl seq lat) = (if warm < seq then [sl] else [])"
| "pubOn warm _ = []"

fun delOn :: "nat \<Rightarrow> event \<Rightarrow> (channelSlot \<times> rat \<times> bool) list" where
  "delOn warm (Delivered sl seq lat dup) = (if warm < seq then [(sl, lat, dup)] else [])"
| "delOn warm _ = []"

fun ackOn :: "nat \<Rightarrow> event \<Rightarrow> rat list" where
  "ackOn warm (Acked seq lat) = (if warm < seq then [lat] else [])"
| "ackOn warm _ = []"

abbreviation pubsOf :: "nat \<Rightarrow> event list \<Rightarrow> channelSlot list" where
  "pubsOf warm es \<equiv> concat (map (pubOn warm) es)"

abbreviation delsOf :: "nat \<Rightarrow> event list \<Rightarrow> (channelSlot \<times> rat \<times> bool) list" where
  "delsOf warm es \<equiv> concat (map (delOn warm) es)"

abbreviation acksOf :: "nat \<Rightarrow> event list \<Rightarrow> rat list" where
  "acksOf warm es \<equiv> concat (map (ackOn warm) es)"

definition roles_present :: "stats \<Rightarrow> bool" where
  "roles_present st \<longleftrightarrow> set roleKeys \<subseteq> dom (gm_get (st_roleDelTot st)) \<and> set roleKeys \<subseteq> dom (gm_get (st_roleDelWin st))"

definition slot_ok :: "stats \<Rightarrow> channelSlot \<Rightarrow> bool" where
  "slot_ok st sl \<longleftrightarrow> sl_Conn sl < length (st_perConn st) \<and> sl_publishCapIdx sl < int (length (st_perPubCh st))"

fun eventSlots :: "event \<Rightarrow> channelSlot list" where
  "eventSlots (Published sl _ _) = [sl]"
| "eventSlots (Delivered sl _ _ _) = [sl]"
| "eventSlots _ = []"

lemma updAt_Some: "i < length xs \<Longrightarrow> updAt i f xs = Some (xs[i := f (xs ! i)])"
  by (simp add: updAt_def)

lemma updAt_length: "updAt i f xs = Some ys \<Longrightarrow> length ys = length xs"
  by (auto simp: updAt_def split: if_splits)

lemma addRole_dom: "addRole k v m = Some m' \<Longrightarrow> dom (gm_get m') = dom (gm_get m)"
  by (auto simp: addRole_def update_conv' split: if_splits)

lemma addRole_present: "set roleKeys \<subseteq> dom (gm_get m) \<Longrightarrow> \<exists>m'. addRole (Role_key r) v m = Some m'"
  by (cases r) (auto simp: addRole_def roleKeys_def)

lemma sampleRole_present: "k \<in> dom (gm_get m) \<Longrightarrow> \<exists>p m'. sampleRole k m = Some (p, m')"
  by (auto simp: sampleRole_def snapshotReset_def)

lemma sampleRole_dom: "sampleRole k m = Some (p, m') \<Longrightarrow> dom (gm_get m') = dom (gm_get m)"
  by (clarsimp simp: sampleRole_def snapshotReset_def update_conv' insert_absorb domI split: option.splits)

text \<open>Calls never panic on slots of the topology the accumulator was made for, and keep it that way.\<close>

definition same_shape :: "stats \<Rightarrow> stats \<Rightarrow> bool" where
  "same_shape st st' \<longleftrightarrow>
     dom (gm_get (st_roleDelTot st')) = dom (gm_get (st_roleDelTot st)) \<and>
     dom (gm_get (st_roleDelWin st')) = dom (gm_get (st_roleDelWin st)) \<and>
     length (st_perConn st') = length (st_perConn st) \<and> length (st_perPubCh st') = length (st_perPubCh st) \<and>
     st_phaseFrom st' = st_phaseFrom st"

lemma same_shape_roles: "same_shape st st' \<Longrightarrow> roles_present st' = roles_present st"
  by (simp add: same_shape_def roles_present_def)

lemma same_shape_slot: "same_shape st st' \<Longrightarrow> slot_ok st' sl = slot_ok st sl"
  by (simp add: same_shape_def slot_ok_def)

lemma recordPublish_total: "slot_ok st sl \<Longrightarrow> \<exists>st'. recordPublish sl seq lat st = Some st'"
  by (auto simp: recordPublish_def Let_def updAt_def slot_ok_def)

lemma recordPublish_shape: "recordPublish sl seq lat st = Some st' \<Longrightarrow> same_shape st st'"
  by (auto simp: recordPublish_def Let_def same_shape_def updAt_length split: if_splits option.splits)

lemma recordDeliver_total: "slot_ok st sl \<Longrightarrow> roles_present st \<Longrightarrow> \<exists>st'. recordDeliver sl seq lat dup st = Some st'"
  using addRole_present [of "st_roleDelTot st" "sl_Role sl" lat] addRole_present [of "st_roleDelWin st" "sl_Role sl" lat]
  by (auto simp: recordDeliver_def Let_def updAt_def slot_ok_def roles_present_def)

lemma recordDeliver_shape: "recordDeliver sl seq lat dup st = Some st' \<Longrightarrow> same_shape st st'"
  by (clarsimp simp: recordDeliver_def Let_def same_shape_def split: if_split_asm option.splits)
    (simp_all add: updAt_length addRole_dom)

lemma recordAck_shape: "same_shape st (recordAck seq lat st)"
  by (simp add: recordAck_def Let_def same_shape_def)

lemma sampleWindow_total:
  assumes "roles_present st" shows "\<exists>rec st'. sampleWindow ts fin st = Some (rec, st')"
proof -
  from assms obtain p m where 1: "sampleRole ''both'' (st_roleDelWin st) = Some (p, m)"
    using sampleRole_present [of "''both''" "st_roleDelWin st"] by (auto simp: roles_present_def roleKeys_def)
  with assms obtain p' m' where 2: "sampleRole ''cons'' m = Some (p', m')"
    using sampleRole_present [of "''cons''" m] sampleRole_dom [OF 1] by (auto simp: roles_present_def roleKeys_def)
  show ?thesis by (simp add: sampleWindow_def snapshotReset_def 1 2)
qed

lemma sampleWindow_shape: "sampleWindow ts fin st = Some (rec, st') \<Longrightarrow> same_shape st st'"
  by (clarsimp simp: sampleWindow_def snapshotReset_def same_shape_def split: option.splits) (simp add: sampleRole_dom)

lemma stepEvent_shape: "stepEvent e st = Some (st', recs) \<Longrightarrow> same_shape st st'"
  by (cases e) (auto dest: recordPublish_shape recordDeliver_shape sampleWindow_shape simp: recordAck_shape)

lemma stepEvent_total:
  "roles_present st \<Longrightarrow> \<forall>sl \<in> set (eventSlots e). slot_ok st sl \<Longrightarrow> \<exists>st' recs. stepEvent e st = Some (st', recs)"
  using recordPublish_total recordDeliver_total sampleWindow_total by (cases e) fastforce+

lemma runEvents_total:
  "roles_present st \<Longrightarrow> \<forall>e \<in> set es. \<forall>sl \<in> set (eventSlots e). slot_ok st sl \<Longrightarrow> \<exists>st' recs. runEvents es st = Some (st', recs)"
proof (induction es arbitrary: st)
  case (Cons e es)
  from Cons.prems obtain st' recs where st': "stepEvent e st = Some (st', recs)" using stepEvent_total by fastforce
  note sh = stepEvent_shape [OF st']
  have "\<exists>st'' recs. runEvents es st' = Some (st'', recs)"
    using Cons.prems by (intro Cons.IH) (simp_all add: same_shape_roles [OF sh] same_shape_slot [OF sh])
  with st' show ?case by auto
qed simp

section \<open>What runs count\<close>

lemma runEvents_phase: "runEvents es st = Some (st', recs) \<Longrightarrow> st_phaseFrom st' = st_phaseFrom st"
proof (induction es arbitrary: st recs)
  case (Cons e es)
  from Cons.prems obtain st1 r1 r2 where "stepEvent e st = Some (st1, r1)" "runEvents es st1 = Some (st', r2)"
    by (auto split: option.splits)
  then show ?case using Cons.IH stepEvent_shape by (fastforce simp: same_shape_def)
qed simp

text \<open>
  A counter \<open>f\<close> that grows by \<open>g\<close> at every event, where an interval record takes \<open>w\<close> away (and carries
  it), satisfies the same balance over whole runs.
\<close>

locale counter =
  fixes f :: "stats \<Rightarrow> nat" and w :: "intervalRecord \<Rightarrow> nat" and g :: "nat \<Rightarrow> event \<Rightarrow> nat"
  assumes step: "stepEvent e st = Some (st', recs) \<Longrightarrow> f st' + sum_list (map w recs) = f st + g (st_phaseFrom st) e"
begin

lemma run:
  "runEvents es st = Some (st', recs) \<Longrightarrow>
   f st' + sum_list (map w recs) = f st + sum_list (map (g (st_phaseFrom st)) es)"
proof (induction es arbitrary: st recs)
  case (Cons e es)
  from Cons.prems obtain st1 r1 r2 where
    1: "stepEvent e st = Some (st1, r1)" "runEvents es st1 = Some (st', r2)" "recs = r1 @ r2"
    by (auto split: option.splits)
  then have "st_phaseFrom st1 = st_phaseFrom st" using stepEvent_shape by (simp add: same_shape_def)
  with step [OF 1(1)] Cons.IH [OF 1(2)] 1(3) show ?case by simp
qed simp

end

text \<open>A set \<open>f\<close> of latencies that records the samples \<open>g\<close> of every event records those of whole runs, in order.\<close>

locale sampleLog =
  fixes f :: "stats \<Rightarrow> latencySet" and g :: "nat \<Rightarrow> event \<Rightarrow> rat list"
  assumes step: "stepEvent e st = Some (st', recs) \<Longrightarrow> f st' = fold latencySet_add (g (st_phaseFrom st) e) (f st)"
begin

lemma run:
  "runEvents es st = Some (st', recs) \<Longrightarrow> f st' = fold latencySet_add (concat (map (g (st_phaseFrom st)) es)) (f st)"
proof (induction es arbitrary: st recs)
  case (Cons e es)
  from Cons.prems obtain st1 r1 r2 where
    1: "stepEvent e st = Some (st1, r1)" "runEvents es st1 = Some (st', r2)"
    by (auto split: option.splits)
  then have "st_phaseFrom st1 = st_phaseFrom st" using stepEvent_shape by (simp add: same_shape_def)
  with step [OF 1(1)] Cons.IH [OF 1(2)] show ?case by simp
qed simp

end

lemmas record_defs = recordPublish_def recordDeliver_def recordAck_def sampleWindow_def snapshotReset_def Let_def

abbreviation lat_of :: "channelSlot \<times> rat \<times> bool \<Rightarrow> rat" where "lat_of d \<equiv> fst (snd d)"
abbreviation dup_of :: "channelSlot \<times> rat \<times> bool \<Rightarrow> bool" where "dup_of d \<equiv> snd (snd d)"

interpretation published: counter st_published "\<lambda>_. 0" "\<lambda>c e. length (pubOn c e)"
  by unfold_locales (case_tac e; auto simp: record_defs split: if_splits option.splits)

interpretation pubW: counter st_pubW ir_Published "\<lambda>c e. length (pubOn c e)"
  by unfold_locales (case_tac e; auto simp: record_defs split: if_splits option.splits)

interpretation delivered: counter st_delivered "\<lambda>_. 0" "\<lambda>c e. length (delOn c e)"
  by unfold_locales (case_tac e; auto simp: record_defs split: if_splits option.splits)

interpretation delW: counter st_delW ir_Delivered "\<lambda>c e. length (delOn c e)"
  by unfold_locales (case_tac e; auto simp: record_defs split: if_splits option.splits)

interpretation consumed: counter st_consumed "\<lambda>_. 0" "\<lambda>c e. length (filter (Not \<circ> dup_of) (delOn c e))"
  by unfold_locales (case_tac e; auto simp: record_defs split: if_splits option.splits)

interpretation consW: counter st_consW ir_Consumed "\<lambda>c e. length (filter (Not \<circ> dup_of) (delOn c e))"
  by unfold_locales (case_tac e; auto simp: record_defs split: if_splits option.splits)

interpretation duplicates: counter st_duplicates "\<lambda>_. 0" "\<lambda>c e. length (filter dup_of (delOn c e))"
  by unfold_locales (case_tac e; auto simp: record_defs split: if_splits option.splits)

interpretation dupW: counter st_dupW ir_Duplicates "\<lambda>c e. length (filter dup_of (delOn c e))"
  by unfold_locales (case_tac e; auto simp: record_defs split: if_splits option.splits)

interpretation delLatTot: sampleLog st_delLatTot "\<lambda>c e. map lat_of (delOn c e)"
  by unfold_locales (case_tac e; auto simp: record_defs split: if_splits option.splits)

interpretation ackLatTot: sampleLog st_ackLatTot ackOn
  by unfold_locales (case_tac e; auto simp: record_defs split: if_splits option.splits)

lemma sum_updAt:
  fixes h :: "'a \<Rightarrow> nat"
  assumes "updAt i f xs = Some ys" "h (f (xs ! i)) = h (xs ! i) + k"
  shows "sum_list (map h ys) = sum_list (map h xs) + k"
proof -
  from assms(1) have i: "i < length xs" "ys = xs[i := f (xs ! i)]" by (auto simp: updAt_def split: if_splits)
  have "h (xs ! i) \<le> sum_list (map h xs)" using i(1) elem_le_sum_list [of i "map h xs"] by simp
  then show ?thesis using i assms(2) by (simp add: map_update sum_list_update)
qed

lemma nth_updAt: "updAt i f xs = Some ys \<Longrightarrow> ys ! j = (if j = i then f (xs ! j) else xs ! j)"
  by (auto simp: updAt_def nth_list_update split: if_splits)

interpretation connPublished: counter "\<lambda>st. sum_list (map cs_published (st_perConn st))" "\<lambda>_. 0" "\<lambda>c e. length (pubOn c e)"
  by unfold_locales
    (case_tac e; auto simp: record_defs sum_updAt [where k = 1] sum_updAt [where k = 0] split: if_splits option.splits)

interpretation connDelivered: counter "\<lambda>st. sum_list (map cs_delivered (st_perConn st))" "\<lambda>_. 0" "\<lambda>c e. length (delOn c e)"
  by unfold_locales
    (case_tac e; auto simp: record_defs sum_updAt [where k = 1] sum_updAt [where k = 0] split: if_splits option.splits)

interpretation connConsumed: counter "\<lambda>st. sum_list (map cs_consumed (st_perConn st))" "\<lambda>_. 0"
  "\<lambda>c e. length (filter (Not \<circ> dup_of) (delOn c e))"
  by unfold_locales
    (case_tac e; auto simp: record_defs sum_updAt [where k = 1] sum_updAt [where k = 0] split: if_splits option.splits)

interpretation rowPublished: counter "\<lambda>st. cs_published (st_perConn st ! i)" "\<lambda>_. 0"
  "\<lambda>c e. length (filter (\<lambda>sl. sl_Conn sl = i) (pubOn c e))" for i
  by unfold_locales (case_tac e; auto simp: record_defs nth_updAt split: if_splits option.splits)

interpretation rowConsumed: counter "\<lambda>st. cs_consumed (st_perConn st ! i)" "\<lambda>_. 0"
  "\<lambda>c e. length (filter (\<lambda>d. \<not> dup_of d \<and> sl_Conn (fst d) = i) (delOn c e))" for i
  by unfold_locales (case_tac e; auto simp: record_defs nth_updAt split: if_splits option.splits)

interpretation rowChannel: counter "\<lambda>st. st_perPubCh st ! i" "\<lambda>_. 0"
  "\<lambda>c e. length (filter (\<lambda>sl. sl_publishCapIdx sl = int i) (pubOn c e))" for i
  by unfold_locales (case_tac e; auto simp: record_defs nth_updAt split: if_splits option.splits)

lemma length_delsOf: "length (delsOf c es) = sum_list (map (\<lambda>e. length (delOn c e)) es)"
  "length (pubsOf c es) = sum_list (map (\<lambda>e. length (pubOn c e)) es)"
  "length (filter P (delsOf c es)) = sum_list (map (\<lambda>e. length (filter P (delOn c e))) es)"
  "length (filter Q (pubsOf c es)) = sum_list (map (\<lambda>e. length (filter Q (pubOn c e))) es)"
  by (simp_all add: length_concat filter_concat comp_def)

lemma fold_add_setOf: "fold latencySet_add vs (setOf us) = setOf (us @ vs)"
  by (induction vs arbitrary: us) simp_all

definition smallSlot :: channelSlot where
  "smallSlot = \<lparr>sl_Conn = 0, sl_Ch = 0, sl_GlobalIndex = 0, sl_Role = RoleBoth, sl_PubGoroutines = [0], sl_ConsGoroutines = [0],
     sl_publishCapIdx = 0\<rparr>"

definition smallTopology :: Topology where
  "smallTopology = \<lparr>t_slots = [smallSlot], t_Conns = [\<lparr>cp_Conn = 0, cp_Role = ConnMixed, cp_Channels = [0]\<rparr>],
     t_publishCapable = [0], t_consumeCapable = [0]\<rparr>"

text \<open>The last warmup message and a measured one, published, delivered twice and acknowledged.\<close>

definition smallRun :: "event list" where
  "smallRun = [Published smallSlot 1 5, Published smallSlot 2 5, Delivered smallSlot 1 7 False,
     Delivered smallSlot 2 9 False, Sampled 0 1000000, Delivered smallSlot 2 11 True, Acked 2 3, Sampled 1000000 2000000]"

lemmas small_defs = smallRun_def smallTopology_def smallSlot_def newStats_def beginMeasured_def resetAll_def roleKeys_def
  zero_connStats_def record_defs updAt_def addRole_def sampleRole_def

lemma smallRun_runs: "\<exists>st recs. runEvents smallRun (snd (beginMeasured 1 (newStats smallTopology 2))) = Some (st, recs)"
  by (rule runEvents_total) (simp_all add: small_defs roles_present_def slot_ok_def)

text \<open>
  C31. After the phase boundary \<open>c\<close> the counters are exactly the numbers of measured events: publishes and
  deliveries of messages numbered above \<open>c\<close>, whenever they are recorded, with every delivery either consumed or a
  duplicate; the latency sets hold exactly the measured latencies.
\<close>

theorem measured_counts:
  assumes "runEvents es (snd (beginMeasured c st)) = Some (st', recs)"
  shows "st_published st' = length (pubsOf c es) \<and> st_delivered st' = length (delsOf c es) \<and>
    st_consumed st' = length (filter (Not \<circ> dup_of) (delsOf c es)) \<and>
    st_duplicates st' = length (filter dup_of (delsOf c es)) \<and>
    st_delivered st' = st_consumed st' + st_duplicates st' \<and>
    st_delLatTot st' = setOf (map lat_of (delsOf c es)) \<and> st_ackLatTot st' = setOf (acksOf c es)"
proof -
  note r = published.run [OF assms] delivered.run [OF assms] consumed.run [OF assms] duplicates.run [OF assms]
    delLatTot.run [OF assms] ackLatTot.run [OF assms]
  have "length (delsOf c es) = length (filter (Not \<circ> dup_of) (delsOf c es)) + length (filter dup_of (delsOf c es))"
    using sum_length_filter_compl [of dup_of "delsOf c es"] by (simp add: comp_def)
  with r show ?thesis
    by (simp add: length_delsOf beginMeasured_def resetAll_def fold_add_setOf map_concat comp_def)
qed

theorem measured_counts_witness:
  "\<exists>st recs. runEvents smallRun (snd (beginMeasured 1 (newStats smallTopology 2))) = Some (st, recs) \<and>
     st_published st = 1 \<and> st_delivered st = 2 \<and> st_consumed st = 1 \<and> st_duplicates st = 1"
proof -
  obtain st recs where r: "runEvents smallRun (snd (beginMeasured 1 (newStats smallTopology 2))) = Some (st, recs)"
    using smallRun_runs by blast
  from measured_counts [OF r] r show ?thesis by (simp add: smallRun_def)
qed

text \<open>
  The interval records add up: what the rows of a run report, together with the window still open, is
  what the totals report; nothing is counted twice or lost between two rows. The rows of the connections
  add up to the totals as well.
\<close>

lemma windows_add_up:
  assumes "runEvents es (snd (beginMeasured c st)) = Some (st', recs)"
  shows "sum_list (map ir_Published recs) + st_pubW st' = st_published st' \<and>
    sum_list (map ir_Delivered recs) + st_delW st' = st_delivered st' \<and>
    sum_list (map ir_Consumed recs) + st_consW st' = st_consumed st' \<and>
    sum_list (map ir_Duplicates recs) + st_dupW st' = st_duplicates st' \<and>
    sum_list (map cs_published (st_perConn st')) = st_published st' \<and>
    sum_list (map cs_delivered (st_perConn st')) = st_delivered st' \<and>
    sum_list (map cs_consumed (st_perConn st')) = st_consumed st'"
proof -
  note t = published.run [OF assms] delivered.run [OF assms] consumed.run [OF assms] duplicates.run [OF assms]
  note w = pubW.run [OF assms] delW.run [OF assms] consW.run [OF assms] dupW.run [OF assms]
  note r = connPublished.run [OF assms] connDelivered.run [OF assms] connConsumed.run [OF assms]
  have z: "sum_list (map (\<lambda>x. 0) xs) = (0 :: nat)" for xs :: "connStats list" by simp
  from t w r show ?thesis by (simp add: beginMeasured_def resetAll_def comp_def zero_connStats_def z)
qed

lemma windows_add_up_witness:
  "\<exists>st recs. runEvents smallRun (snd (beginMeasured 1 (newStats smallTopology 2))) = Some (st, recs) \<and>
     sum_list (map ir_Delivered recs) + st_delW st = st_delivered st"
proof -
  obtain st recs where r: "runEvents smallRun (snd (beginMeasured 1 (newStats smallTopology 2))) = Some (st, recs)"
    using smallRun_runs by blast
  from windows_add_up [OF r] r show ?thesis by blast
qed

section \<open>Rows of a built topology\<close>

lemma Build_slot_ok:
  assumes B: "Build c = Inr t" and sl: "sl \<in> set (t_slots t)"
  shows "slot_ok (snd (beginMeasured k (newStats t n))) sl"
proof -
  from sl obtain i where i: "i < nat (cf_Channels c)" "sl = t_slots t ! i"
    by (auto simp: in_set_conv_nth Build_length [OF B])
  have "sl_publishCapIdx sl < int (length (t_publishCapable t))"
  proof (cases "i \<in> set (t_publishCapable t)")
    case True
    then obtain p where "p < length (t_publishCapable t)" "t_publishCapable t ! p = i" by (auto simp: in_set_conv_nth)
    with Build_publishCapIdx(1) [OF B i(1)] i(2) show ?thesis by simp
  qed (use Build_publishCapIdx(2) [OF B i(1)] i(2) in simp)
  then show ?thesis
    using Build_slot_conn [OF B sl] by (simp add: slot_ok_def beginMeasured_def resetAll_def newStats_def)
qed

lemma roles_present_new: "roles_present (snd (beginMeasured k (newStats t n)))"
  by (simp add: roles_present_def beginMeasured_def resetAll_def newStats_def roleKeys_def)

lemma publishCapIdx_slot:
  assumes B: "Build c = Inr t" and sl: "sl \<in> set (t_slots t)" and p: "p < length (t_publishCapable t)"
  shows "sl_publishCapIdx sl = int p \<longleftrightarrow> sl = t_slots t ! (t_publishCapable t ! p)"
proof -
  from sl obtain i where i: "i < nat (cf_Channels c)" "sl = t_slots t ! i"
    by (auto simp: in_set_conv_nth Build_length [OF B])
  let ?r = "t_publishCapable t ! p"
  have r: "?r < nat (cf_Channels c)" using nth_mem [OF p] by (simp add: Build_capable(1) [OF B])
  note idx = Build_publishCapIdx(1) [OF B r p refl]
  show ?thesis
  proof
    assume eq: "sl_publishCapIdx sl = int p"
    have "i \<in> set (t_publishCapable t)" using Build_publishCapIdx(2) [OF B i(1)] eq i(2) by force
    then obtain p' where p': "p' < length (t_publishCapable t)" "t_publishCapable t ! p' = i" by (auto simp: in_set_conv_nth)
    with Build_publishCapIdx(1) [OF B i(1)] eq i(2) have "p' = p" by simp
    with p' i(2) show "sl = t_slots t ! ?r" by simp
  qed (simp add: idx)
qed

text \<open>
  On the channels of a topology that was built, no record call ever indexes out of range or misses a
  role; and the reported rows are right: the row of a connection counts the measured publishes on its
  channels, and the row of a publish-capable channel those on exactly this channel.
\<close>

lemma breakdown_rows:
  assumes "Build c = Inr t" "\<forall>e \<in> set es. set (eventSlots e) \<subseteq> set (t_slots t)"
  shows "\<exists>st recs. runEvents es (snd (beginMeasured k (newStats t n))) = Some (st, recs) \<and>
    (\<forall>i < length (t_Conns t). cs_published (st_perConn st ! i) = length (filter (\<lambda>sl. sl_Conn sl = i) (pubsOf k es))) \<and>
    (\<forall>p < length (t_publishCapable t).
       st_perPubCh st ! p = length (filter (\<lambda>sl. sl = t_slots t ! (t_publishCapable t ! p)) (pubsOf k es)))"
proof -
  let ?st0 = "snd (beginMeasured k (newStats t n))"
  have "\<exists>st recs. runEvents es ?st0 = Some (st, recs)"
    using assms(2) Build_slot_ok [OF assms(1)] by (intro runEvents_total [OF roles_present_new]) blast
  then obtain st recs where r: "runEvents es ?st0 = Some (st, recs)" by blast
  have "cs_published (st_perConn st ! i) = length (filter (\<lambda>sl. sl_Conn sl = i) (pubsOf k es))" if "i < length (t_Conns t)" for i
    using rowPublished.run [OF r, of i] that
    by (simp add: length_delsOf beginMeasured_def resetAll_def newStats_def zero_connStats_def)
  moreover have "st_perPubCh st ! p = length (filter (\<lambda>sl. sl = t_slots t ! (t_publishCapable t ! p)) (pubsOf k es))"
    if p: "p < length (t_publishCapable t)" for p
  proof -
    have mem: "sl \<in> set (t_slots t)" if "sl \<in> set (pubsOf k es)" for sl
    proof -
      from that obtain e where e: "e \<in> set es" "sl \<in> set (pubOn k e)" by auto
      from e(2) have "sl \<in> set (eventSlots e)" by (cases e) (auto split: if_splits)
      with assms(2) e(1) show ?thesis by blast
    qed
    have "st_perPubCh st ! p = length (filter (\<lambda>sl. sl_publishCapIdx sl = int p) (pubsOf k es))"
      using rowChannel.run [OF r, of p] p by (simp add: length_delsOf beginMeasured_def resetAll_def newStats_def)
    also have "filter (\<lambda>sl. sl_publishCapIdx sl = int p) (pubsOf k es) =
        filter (\<lambda>sl. sl = t_slots t ! (t_publishCapable t ! p)) (pubsOf k es)"
      by (rule filter_cong [OF refl]) (rule publishCapIdx_slot [OF assms(1) mem p])
    finally show ?thesis .
  qed
  ultimately show ?thesis using r by blast
qed

lemma breakdown_rows_witness:
  "\<exists>t st recs. Build smallConfig = Inr t \<and>
     runEvents [Published (t_slots t ! 0) 5 1, Sampled 0 1] (snd (beginMeasured 4 (newStats t 8))) = Some (st, recs) \<and>
     cs_published (st_perConn st ! sl_Conn (t_slots t ! 0)) = 1"
proof -
  have v: "map_sum id (\<lambda>t. (length (t_slots t), length (t_Conns t), sl_Conn (t_slots t ! 0))) (Build smallConfig) = Inr (3, 2, 0)"
    by code_simp
  then obtain t where t: "Build smallConfig = Inr t" by (cases "Build smallConfig") simp_all
  with v have len: "length (t_slots t) = 3" "length (t_Conns t) = 2" "sl_Conn (t_slots t ! 0) = 0" by simp_all
  then have "t_slots t ! 0 \<in> set (t_slots t)" by (intro nth_mem) simp
  then show ?thesis
    using breakdown_rows [OF t, of "[Published (t_slots t ! 0) 5 1, Sampled 0 1]" 4 8] t len by fastforce
qed

end
