(* ===== verification/Worker.thy ===== *)
theory Worker
  imports BenchStats
begin

text \<open>
  The benchmark's workers: \<^verbatim>\<open>internal/bench/worker.go\<close>.

  A publisher is a state machine whose steps are the points at which it touches shared memory or
  calls the SDK (\<open>pubStep\<close>); a consumer handles one delivery per step (\<open>consumeTurn\<close>). The clock, the stop
  channel and the answers of the SDK are inputs of the steps, so nothing is assumed of them. Workers, the
  sampler and the phase boundary are interleaved by \<open>bench_step\<close>.
\<close>

section \<open>The message header\<close>

text \<open>\<^verbatim>\<open>binary.BigEndian.PutUint64\<close> and \<^verbatim>\<open>Uint64\<close>, for any number of bytes.\<close>

fun putBE :: "nat \<Rightarrow> nat \<Rightarrow> byte list" where
  "putBE 0 n = []"
| "putBE (Suc k) n = putBE k (n div 256) @ [word_of_nat n]"

definition getBE :: "byte list \<Rightarrow> nat" where
  "getBE bs = foldl (\<lambda>a b. a * 256 + unat b) 0 bs"

definition encodeHeader :: "byte list \<Rightarrow> nat \<Rightarrow> int \<Rightarrow> byte list option" where
  "encodeHeader body seq sendNanos =
     (if length body < headerLen then None
      else Some (putBE 8 seq @ putBE 8 (nat (sendNanos mod 2 ^ 64)) @ drop 16 body))"

definition decodeHeader :: "byte list \<Rightarrow> nat \<times> int" where
  "decodeHeader body =
     (if length body < headerLen then (0, 0)
      else (getBE (take 8 body), wrap64 (int (getBE (take 8 (drop 8 body))))))"

lemma length_putBE [simp]: "length (putBE k n) = k"
  by (induction k arbitrary: n) simp_all

lemma getBE_putBE: "getBE (putBE k n) = n mod 256 ^ k"
proof (induction k arbitrary: n)
  case (Suc k)
  have "getBE (putBE (Suc k) n) = (n div 256 mod 256 ^ k) * 256 + n mod 256"
    using Suc [of "n div 256"] by (simp add: getBE_def unsigned_of_nat take_bit_eq_mod)
  also have "\<dots> = n mod 256 ^ Suc k" by (simp add: mod_mult2_eq)
  finally show ?case .
qed (simp add: getBE_def)

lemma wrap64_mod: "- (2 ^ 63) \<le> t \<Longrightarrow> t < 2 ^ 63 \<Longrightarrow> wrap64 (t mod 2 ^ 64) = t"
  using wrap64_id [of t] by (simp add: wrap64_def mod_add_left_eq)

lemma header_roundtrip:
  assumes "16 \<le> length body" "seq < 2 ^ 64" "- (2 ^ 63) \<le> t" "t < 2 ^ 63"
  shows "\<exists>body'. encodeHeader body seq t = Some body' \<and> decodeHeader body' = (seq, t) \<and>
    length body' = length body \<and> drop 16 body' = drop 16 body"
proof -
  have m: "(256::nat) ^ 8 = 2 ^ 64" by simp
  have "nat (t mod 2 ^ 64) < 2 ^ 64" by (simp add: nat_less_iff)
  then have "getBE (putBE 8 seq) = seq" "getBE (putBE 8 (nat (t mod 2 ^ 64))) = nat (t mod 2 ^ 64)"
    using assms(2) unfolding getBE_putBE m by simp_all
  then show ?thesis
    using assms wrap64_mod [OF assms(3,4)] by (simp add: encodeHeader_def decodeHeader_def headerLen_def)
qed

section \<open>Shared state\<close>

record shared =
  sh_seq :: nat
  sh_sentTimes :: "int list"
  sh_seen :: "bool list"
  sh_stats :: stats
  sh_sent :: "(string \<times> string \<times> byte list) list"

datatype worker_error = BudgetExceeded nat nat | PublishFailed string | AckFailed string

section \<open>Publishers\<close>

record publishWorker =
  pw_slot :: channelSlot
  pw_exchange :: string
  pw_routingKey :: string
  pw_size :: int
  pw_msgs :: int

text \<open>
  The program counter of \<^verbatim>\<open>publishWorker.run\<close>: at the head of the loop; with a sequence number;
  with the body stamped; with the message accepted by the SDK; returned; panicked.
\<close>

datatype pubPc =
    PubLoop nat "byte list"
  | PubSeq nat "byte list" nat
  | PubStamped nat "byte list" nat
  | PubSent nat "byte list" nat
  | PubReturned "worker_error option"
  | PubPanicked

text \<open>What a step may read: the stop channel, the clock, the answer to \<^verbatim>\<open>Publish\<close> and the time it took.\<close>

record pubInput =
  pi_stop :: bool
  pi_now :: int
  pi_err :: "string option"
  pi_took :: int

definition pubStart :: "publishWorker \<Rightarrow> pubPc" where
  "pubStart w = PubLoop 0 (replicate (nat (pw_size w)) 0)"

definition micros :: "int \<Rightarrow> rat" where
  "micros nanos = fl (fl (of_int nanos) / 1000)"

fun pubStep :: "publishWorker \<Rightarrow> pubInput \<Rightarrow> pubPc \<Rightarrow> shared \<Rightarrow> pubPc \<times> shared" where
  "pubStep w inp (PubLoop i body) sh =
     (if int i \<ge> pw_msgs w then (PubReturned None, sh)
      else if pi_stop inp then (PubReturned None, sh)
      else let seq = (sh_seq sh + 1) mod 2 ^ 64; sh' = sh\<lparr>sh_seq := seq\<rparr> in
           if seq = 0 \<or> wrap64 (wrap64 (int seq) - 1) \<ge> int (length (sh_sentTimes sh))
           then (PubReturned (Some (BudgetExceeded seq (length (sh_sentTimes sh)))), sh')
           else (PubSeq i body seq, sh'))"
| "pubStep w inp (PubSeq i body seq) sh =
     (if seq - 1 < length (sh_sentTimes sh)
      then case encodeHeader body seq (pi_now inp) of
             None \<Rightarrow> (PubPanicked, sh)
           | Some body' \<Rightarrow> (PubStamped i body' seq, sh\<lparr>sh_sentTimes := (sh_sentTimes sh)[seq - 1 := pi_now inp]\<rparr>)
      else (PubPanicked, sh))"
| "pubStep w inp (PubStamped i body seq) sh =
     (case pi_err inp of
        Some e \<Rightarrow> (PubReturned (Some (PublishFailed e)), sh)
      | None \<Rightarrow> (PubSent i body seq, sh\<lparr>sh_sent := sh_sent sh @ [(pw_exchange w, pw_routingKey w, body)]\<rparr>))"
| "pubStep w inp (PubSent i body seq) sh =
     (case recordPublish (pw_slot w) seq (micros (pi_took inp)) (sh_stats sh) of
        None \<Rightarrow> (PubPanicked, sh)
      | Some st \<Rightarrow> (PubLoop (i + 1) body, sh\<lparr>sh_stats := st\<rparr>))"
| "pubStep w inp (PubReturned r) sh = (PubReturned r, sh)"
| "pubStep w inp PubPanicked sh = (PubPanicked, sh)"

section \<open>Consumers\<close>

record consumeWorker =
  cw_slot :: channelSlot
  cw_ack :: bool

record consInput =
  ci_recv :: int
  ci_ackErr :: "string option"
  ci_took :: int

datatype consOutcome = ConsNext shared | ConsReturned worker_error shared | ConsPanicked

text \<open>Where the code looks a message up: \<open>-1\<close>, or an index that may be out of range.\<close>

definition deliveryIdx :: "nat \<Rightarrow> nat \<Rightarrow> int" where
  "deliveryIdx seq n =
     (if seq > 0 \<and> wrap64 (wrap64 (int seq) - 1) < int n then wrap64 (wrap64 (int seq) - 1) else - 1)"

text \<open>Latency, duplicate flag and the updated \<^verbatim>\<open>seen\<close> slice; \<open>None\<close> is an index that panics.\<close>

definition lookupDelivery :: "nat \<Rightarrow> int \<Rightarrow> shared \<Rightarrow> (rat \<times> bool \<times> bool list) option" where
  "lookupDelivery seq recvNanos sh =
     (let n = length (sh_sentTimes sh);
          found = seq > 0 \<and> wrap64 (wrap64 (int seq) - 1) < int n;
          idx = deliveryIdx seq n in
      if found \<and> idx < 0 then None
      else let sent = sh_sentTimes sh ! nat idx;
               inSeen = (idx \<ge> 0 \<and> idx < int (length (sh_seen sh))) in
           Some (if found \<and> sent > 0 then micros (wrap64 (recvNanos - sent)) else 0,
                 inSeen \<and> sh_seen sh ! nat idx,
                 if inSeen then (sh_seen sh)[nat idx := True] else sh_seen sh))"

definition consumeTurn :: "consumeWorker \<Rightarrow> byte list \<Rightarrow> consInput \<Rightarrow> shared \<Rightarrow> consOutcome" where
  "consumeTurn w body inp sh =
     (let seq = fst (decodeHeader body) in
      case lookupDelivery seq (ci_recv inp) sh of
        None \<Rightarrow> ConsPanicked
      | Some (delLatUs, dup, seen') \<Rightarrow>
          (case recordDeliver (cw_slot w) seq delLatUs dup (sh_stats sh) of
             None \<Rightarrow> ConsPanicked
           | Some st \<Rightarrow>
               if \<not> cw_ack w then ConsNext (sh\<lparr>sh_seen := seen', sh_stats := st\<rparr>)
               else case ci_ackErr inp of
                      Some e \<Rightarrow> ConsReturned (AckFailed e) (sh\<lparr>sh_seen := seen', sh_stats := st\<rparr>)
                    | None \<Rightarrow> ConsNext (sh\<lparr>sh_seen := seen', sh_stats := recordAck seq (micros (ci_took inp)) st\<rparr>)))"

section \<open>The interleaving\<close>

record bench =
  b_pubs :: "pubPc list"
  b_sh :: shared

definition benchStart :: "publishWorker list \<Rightarrow> Topology \<Rightarrow> nat \<Rightarrow> bench" where
  "benchStart ws t budget =
     \<lparr>b_pubs = map pubStart ws,
      b_sh = \<lparr>sh_seq = 0, sh_sentTimes = replicate budget 0, sh_seen = replicate budget False,
              sh_stats = newStats t (int budget), sh_sent = []\<rparr>\<rparr>"

inductive bench_step :: "publishWorker list \<Rightarrow> bench \<Rightarrow> bench \<Rightarrow> bool" for ws where
  bench_publish: "i < length ws \<Longrightarrow> pubStep (ws ! i) inp (b_pubs b ! i) (b_sh b) = (pc, sh) \<Longrightarrow>
    - (2 ^ 63) \<le> pi_now inp \<Longrightarrow> pi_now inp < 2 ^ 63 \<Longrightarrow>
    bench_step ws b (b\<lparr>b_pubs := (b_pubs b)[i := pc], b_sh := sh\<rparr>)"
| bench_consume: "consumeTurn cw body inp (b_sh b) \<in> {ConsNext sh, ConsReturned e sh} \<Longrightarrow>
    bench_step ws b (b\<lparr>b_sh := sh\<rparr>)"
| bench_measure: "beginMeasured (sh_seq (b_sh b)) (sh_stats (b_sh b)) = (k, st) \<Longrightarrow>
    bench_step ws b (b\<lparr>b_sh := (b_sh b)\<lparr>sh_stats := st\<rparr>\<rparr>)"
| bench_sample: "sampleWindow ts fin (sh_stats (b_sh b)) = Some (rec, st) \<Longrightarrow>
    bench_step ws b (b\<lparr>b_sh := (b_sh b)\<lparr>sh_stats := st\<rparr>\<rparr>)"

section \<open>Invariant of the interleaving\<close>

text \<open>Sequence numbers taken and not yet sent, and how many a worker has taken at most.\<close>

fun heldSeqs :: "pubPc \<Rightarrow> nat list" where
  "heldSeqs (PubSeq i body seq) = [seq]"
| "heldSeqs (PubStamped i body seq) = [seq]"
| "heldSeqs _ = []"

fun taken :: "nat \<Rightarrow> pubPc \<Rightarrow> nat" where
  "taken m (PubLoop i body) = i"
| "taken m (PubSeq i body seq) = i + 1"
| "taken m (PubStamped i body seq) = i + 1"
| "taken m (PubSent i body seq) = i + 1"
| "taken m (PubReturned r) = m"
| "taken m PubPanicked = m"

abbreviation seqOf :: "string \<times> string \<times> byte list \<Rightarrow> nat" where
  "seqOf msg \<equiv> fst (decodeHeader (snd (snd msg)))"

definition pc_ok :: "nat \<Rightarrow> nat \<Rightarrow> pubPc \<Rightarrow> bool" where
  "pc_ok m sz pc \<longleftrightarrow>
     (case pc of
        PubLoop i body \<Rightarrow> i \<le> m \<and> length body = sz
      | PubSeq i body seq \<Rightarrow> i < m \<and> length body = sz
      | PubStamped i body seq \<Rightarrow> i < m \<and> length body = sz \<and> fst (decodeHeader body) = seq
      | PubSent i body seq \<Rightarrow> i < m \<and> length body = sz
      | PubReturned r \<Rightarrow> (\<forall>s n. r \<noteq> Some (BudgetExceeded s n))
      | PubPanicked \<Rightarrow> False)"

definition liveSeqs :: "bench \<Rightarrow> nat multiset" where
  "liveSeqs b = mset (map seqOf (sh_sent (b_sh b))) + (\<Sum>pc \<in># mset (b_pubs b). mset (heldSeqs pc))"

text \<open>The configuration: \<open>n\<close> workers with \<open>m\<close> messages of \<open>sz\<close> bytes each, on slots of one topology.\<close>

definition crew :: "publishWorker list \<Rightarrow> Topology \<Rightarrow> nat \<Rightarrow> nat \<Rightarrow> bool" where
  "crew ws t m sz \<longleftrightarrow>
     16 \<le> sz \<and> length ws * m < 2 ^ 63 \<and>
     (\<forall>w \<in> set ws. pw_msgs w = int m \<and> pw_size w = int sz \<and> slot_ok (newStats t 0) (pw_slot w))"

definition bench_inv :: "publishWorker list \<Rightarrow> Topology \<Rightarrow> nat \<Rightarrow> nat \<Rightarrow> bench \<Rightarrow> bool" where
  "bench_inv ws t m sz b \<longleftrightarrow>
     length (b_pubs b) = length ws \<and> (\<forall>pc \<in> set (b_pubs b). pc_ok m sz pc) \<and>
     sh_seq (b_sh b) \<le> (\<Sum>pc \<leftarrow> b_pubs b. taken m pc) \<and>
     length (sh_sentTimes (b_sh b)) = length ws * m \<and>
     (\<forall>x. count (liveSeqs b) x \<le> 1) \<and> set_mset (liveSeqs b) \<subseteq> {1..sh_seq (b_sh b)} \<and>
     (\<forall>msg \<in> set (sh_sent (b_sh b)). length (snd (snd msg)) = sz) \<and>
     length (st_perConn (sh_stats (b_sh b))) = length (t_Conns t) \<and>
     length (st_perPubCh (sh_stats (b_sh b))) = length (t_publishCapable t)"

lemma taken_le: "pc_ok m sz pc \<Longrightarrow> taken m pc \<le> m"
  by (cases pc) (auto simp: pc_ok_def)

lemma total_taken: "(\<forall>pc \<in> set pcs. pc_ok m sz pc) \<Longrightarrow> (\<Sum>pc \<leftarrow> pcs. taken m pc) \<le> length pcs * m"
  by (induction pcs) (auto dest: taken_le)

lemma sum_list_upd: "i < length xs \<Longrightarrow> (\<Sum>x \<leftarrow> xs[i := y]. f x) + f (xs ! i) = (\<Sum>x \<leftarrow> xs. f x) + (f y :: nat)"
  by (induction xs arbitrary: i) (auto split: nat.splits)

lemma held_upd:
  "i < length xs \<Longrightarrow> (\<Sum>pc \<in># mset (xs[i := y]). mset (heldSeqs pc)) + mset (heldSeqs (xs ! i)) =
     (\<Sum>pc \<in># mset xs. mset (heldSeqs pc)) + mset (heldSeqs y)"
  by (induction xs arbitrary: i) (auto split: nat.splits simp: ac_simps)

lemma bench_invD:
  assumes "bench_inv ws t m sz b"
  shows "length (b_pubs b) = length ws" "\<forall>pc \<in> set (b_pubs b). pc_ok m sz pc"
    "sh_seq (b_sh b) \<le> (\<Sum>pc \<leftarrow> b_pubs b. taken m pc)" "length (sh_sentTimes (b_sh b)) = length ws * m"
    "count (liveSeqs b) x \<le> 1" "set_mset (liveSeqs b) \<subseteq> {1..sh_seq (b_sh b)}"
    "\<forall>msg \<in> set (sh_sent (b_sh b)). length (snd (snd msg)) = sz"
    "length (st_perConn (sh_stats (b_sh b))) = length (t_Conns t)"
    "length (st_perPubCh (sh_stats (b_sh b))) = length (t_publishCapable t)"
  using assms by (simp_all add: bench_inv_def)

text \<open>A worker's step, in the terms of the invariant.\<close>

definition pub_effect :: "nat \<Rightarrow> nat \<Rightarrow> pubPc \<Rightarrow> shared \<Rightarrow> pubPc \<Rightarrow> shared \<Rightarrow> bool" where
  "pub_effect m sz pc sh pc' sh' \<longleftrightarrow>
     pc_ok m sz pc' \<and> length (sh_sentTimes sh') = length (sh_sentTimes sh) \<and>
     length (st_perConn (sh_stats sh')) = length (st_perConn (sh_stats sh)) \<and>
     length (st_perPubCh (sh_stats sh')) = length (st_perPubCh (sh_stats sh)) \<and>
     (\<exists>new. sh_seq sh' = sh_seq sh + length new \<and> distinct new \<and> set new \<subseteq> {Suc (sh_seq sh)} \<and>
        sh_seq sh' + taken m pc \<le> sh_seq sh + taken m pc' \<and>
        mset (map seqOf (sh_sent sh')) + mset (heldSeqs pc') \<subseteq># mset (map seqOf (sh_sent sh)) + mset (heldSeqs pc) + mset new) \<and>
     (\<forall>msg \<in> set (sh_sent sh') - set (sh_sent sh). length (snd (snd msg)) = sz)"

lemma pubStep_effect:
  assumes "pc_ok m sz pc" "16 \<le> sz" "pw_msgs w = int m" "length (sh_sentTimes sh) < 2 ^ 63"
    and seq: "taken m pc < m \<Longrightarrow> sh_seq sh < length (sh_sentTimes sh)"
    and held: "set (heldSeqs pc) \<subseteq> {1..length (sh_sentTimes sh)}"
    and slot: "slot_ok (sh_stats sh) (pw_slot w)"
    and time: "- (2 ^ 63) \<le> pi_now inp" "pi_now inp < 2 ^ 63"
    and st: "pubStep w inp pc sh = (pc', sh')"
  shows "pub_effect m sz pc sh pc' sh'"
proof (cases pc)
  case (PubLoop i body)
  show ?thesis
  proof (cases "int i \<ge> pw_msgs w \<or> pi_stop inp")
    case True
    then have "pc' = PubReturned None" "sh' = sh" using st PubLoop by (auto split: if_splits)
    then show ?thesis using assms(1) PubLoop by (auto simp: pub_effect_def pc_ok_def)
  next
    case False
    then have im: "i < m" using assms(3) by simp
    with seq PubLoop have lt: "sh_seq sh < length (sh_sentTimes sh)" by simp
    then have "(sh_seq sh + 1) mod 2 ^ 64 = Suc (sh_seq sh)" "wrap64 (wrap64 (int (Suc (sh_seq sh))) - 1) = int (sh_seq sh)"
      using assms(4) by (simp_all add: wrap64_id)
    then have "pc' = PubSeq i body (Suc (sh_seq sh))" "sh' = sh\<lparr>sh_seq := Suc (sh_seq sh)\<rparr>"
      using st PubLoop False lt by (auto simp: Let_def)
    then show ?thesis using assms(1) PubLoop im
      by (auto simp: pub_effect_def pc_ok_def intro!: exI [of _ "[Suc (sh_seq sh)]"])
  qed
next
  case (PubSeq i body s)
  have s: "1 \<le> s" "s \<le> length (sh_sentTimes sh)" using held PubSeq by auto
  moreover have i: "length body = sz" "i < m" using assms(1) PubSeq by (simp_all add: pc_ok_def)
  moreover obtain body' where body': "encodeHeader body s (pi_now inp) = Some body'" "decodeHeader body' = (s, pi_now inp)" "length body' = sz"
    using header_roundtrip [of body s "pi_now inp"] s assms(2,4) time i(1) by fastforce
  moreover have "s - 1 < length (sh_sentTimes sh)" using s by linarith
  ultimately have "pc' = PubStamped i body' s" "sh' = sh\<lparr>sh_sentTimes := (sh_sentTimes sh)[s - 1 := pi_now inp]\<rparr>"
    using st PubSeq by auto
  then show ?thesis using PubSeq body' i by (auto simp: pub_effect_def pc_ok_def intro!: exI [of _ "[]"])
next
  case (PubStamped i body s)
  then show ?thesis using st assms(1)
    by (auto simp: pub_effect_def pc_ok_def split: option.splits intro!: exI [of _ "[]"])
next
  case (PubSent i body s)
  obtain st' where "recordPublish (pw_slot w) s (micros (pi_took inp)) (sh_stats sh) = Some st'"
    using recordPublish_total [OF slot] by blast
  moreover note recordPublish_shape [OF this]
  ultimately show ?thesis using st PubSent assms(1)
    by (auto simp: pub_effect_def pc_ok_def same_shape_def intro!: exI [of _ "[]"])
qed (use st assms(1) in \<open>auto simp: pub_effect_def pc_ok_def intro!: exI [of _ "[]"]\<close>)

lemma liveSeqs_upd:
  assumes eff: "pub_effect m sz (b_pubs b ! i) (b_sh b) pc sh" and i: "i < length (b_pubs b)"
    and inv: "\<forall>x. count (liveSeqs b) x \<le> 1" "set_mset (liveSeqs b) \<subseteq> {1..sh_seq (b_sh b)}"
    and b': "b' = b\<lparr>b_pubs := (b_pubs b)[i := pc], b_sh := sh\<rparr>"
  shows "\<forall>x. count (liveSeqs b') x \<le> 1" "set_mset (liveSeqs b') \<subseteq> {1..sh_seq sh}"
proof -
  from eff obtain new where new: "sh_seq sh = sh_seq (b_sh b) + length new" "distinct new" "set new \<subseteq> {Suc (sh_seq (b_sh b))}"
    "mset (map seqOf (sh_sent sh)) + mset (heldSeqs pc) \<subseteq># mset (map seqOf (sh_sent (b_sh b))) + mset (heldSeqs (b_pubs b ! i)) + mset new"
    unfolding pub_effect_def by blast
  let ?H = "\<lambda>xs. \<Sum>pc \<in># mset xs. mset (heldSeqs pc)"
  have "liveSeqs b' + mset (heldSeqs (b_pubs b ! i)) =
      mset (map seqOf (sh_sent sh)) + mset (heldSeqs pc) + ?H (b_pubs b)"
    using held_upd [OF i, of pc] by (simp add: liveSeqs_def b' ac_simps)
  also have "\<dots> \<subseteq># mset (map seqOf (sh_sent (b_sh b))) + mset (heldSeqs (b_pubs b ! i)) + mset new + ?H (b_pubs b)"
    using new(4) by (rule subset_mset.add_right_mono)
  also have "\<dots> = (liveSeqs b + mset new) + mset (heldSeqs (b_pubs b ! i))" by (simp add: liveSeqs_def ac_simps)
  finally have sub: "liveSeqs b' \<subseteq># liveSeqs b + mset new" by simp
  have fresh: "Suc (sh_seq (b_sh b)) \<notin># liveSeqs b" using inv(2) by auto
  show "\<forall>x. count (liveSeqs b') x \<le> 1"
  proof
    fix x
    have "count (liveSeqs b') x \<le> count (liveSeqs b) x + count (mset new) x"
      using mset_subset_eq_count [OF sub, of x] by simp
    moreover have "count (liveSeqs b) x = 0" if "x \<in> set new" using that new(3) fresh by (auto simp: count_eq_zero_iff)
    moreover have "count (mset new) x = of_bool (x \<in> set new)" using new(2) by (simp add: distinct_count_atmost_1)
    ultimately show "count (liveSeqs b') x \<le> 1" using spec [OF inv(1), of x] by (cases "x \<in> set new") simp_all
  qed
  have "length new = card (set new)" using new(2) by (simp add: distinct_card)
  then have "set new \<subseteq> {1..sh_seq sh}" using new(1,3) by (cases new) auto
  moreover have "set_mset (liveSeqs b) \<subseteq> {1..sh_seq sh}" by (rule order_trans [OF inv(2)]) (simp add: new(1))
  ultimately show "set_mset (liveSeqs b') \<subseteq> {1..sh_seq sh}" using set_mset_mono [OF sub]
    unfolding set_mset_union set_mset_mset by blast
qed

lemma bench_inv_publish:
  assumes inv: "bench_inv ws t m sz b" and cr: "crew ws t m sz" and i: "i < length ws"
    and time: "- (2 ^ 63) \<le> pi_now inp" "pi_now inp < 2 ^ 63"
    and st: "pubStep (ws ! i) inp (b_pubs b ! i) (b_sh b) = (pc, sh)"
  shows "bench_inv ws t m sz (b\<lparr>b_pubs := (b_pubs b)[i := pc], b_sh := sh\<rparr>)"
proof -
  note D = bench_invD [OF inv]
  have w: "ws ! i \<in> set ws" using i by simp
  have i': "i < length (b_pubs b)" using i D(1) by simp
  have ok: "pc_ok m sz (b_pubs b ! i)" using D(2) i' by simp
  have lt: "sh_seq (b_sh b) < length (sh_sentTimes (b_sh b))" if "taken m (b_pubs b ! i) < m"
  proof -
    have "(\<Sum>pc \<leftarrow> (b_pubs b)[i := PubPanicked]. taken m pc) + taken m (b_pubs b ! i) = (\<Sum>pc \<leftarrow> b_pubs b. taken m pc) + m"
      using sum_list_upd [OF i', of "taken m" PubPanicked] by simp
    moreover have "(\<Sum>pc \<leftarrow> (b_pubs b)[i := PubPanicked]. taken m pc) \<le> length ws * m"
    proof -
      have "(\<Sum>pc \<leftarrow> pcs. taken m pc) \<le> length pcs * m" if "\<forall>pc \<in> set pcs. taken m pc \<le> m" for pcs
        using that by (induction pcs) auto
      moreover have "\<forall>pc \<in> set ((b_pubs b)[i := PubPanicked]). taken m pc \<le> m"
        using D(2) set_update_subset_insert [of "b_pubs b" i PubPanicked] taken_le [of m sz] by fastforce
      ultimately show ?thesis using D(1) by (metis length_list_update)
    qed
    ultimately show ?thesis using D(3,4) that by linarith
  qed
  have held: "set (heldSeqs (b_pubs b ! i)) \<subseteq> {1..length (sh_sentTimes (b_sh b))}"
  proof -
    have "set (heldSeqs (b_pubs b ! i)) \<subseteq> set_mset (liveSeqs b)" using i' by (auto simp: liveSeqs_def)
    moreover have "sh_seq (b_sh b) \<le> length ws * m" using D(1,3) total_taken [OF D(2)] by simp
    ultimately show ?thesis using D(4,6) by fastforce
  qed
  have slot: "slot_ok (sh_stats (b_sh b)) (pw_slot (ws ! i))"
    using cr w D(8,9) by (simp add: crew_def slot_ok_def newStats_def)
  have len: "length (sh_sentTimes (b_sh b)) < 2 ^ 63" using cr D(4) by (simp add: crew_def)
  have m: "pw_msgs (ws ! i) = int m" "16 \<le> sz" using cr w by (simp_all add: crew_def)
  have eff: "pub_effect m sz (b_pubs b ! i) (b_sh b) pc sh"
    by (rule pubStep_effect [OF ok m(2,1) len lt held slot time st])
  note live = liveSeqs_upd [OF eff i' _ D(6) refl] D(5)
  have "sh_seq sh \<le> (\<Sum>pc \<leftarrow> (b_pubs b)[i := pc]. taken m pc)"
    using eff D(3) sum_list_upd [OF i', of "taken m" pc] unfolding pub_effect_def by fastforce
  moreover have "\<forall>msg \<in> set (sh_sent sh). length (snd (snd msg)) = sz"
    using eff D(7) unfolding pub_effect_def by blast
  moreover have "\<forall>p \<in> set ((b_pubs b)[i := pc]). pc_ok m sz p"
    using eff D(2) set_update_subset_insert [of "b_pubs b" i pc] unfolding pub_effect_def by blast
  ultimately show ?thesis using eff D(1,4,8,9) live unfolding bench_inv_def pub_effect_def by simp
qed

lemma bench_inv_stats:
  assumes "bench_inv ws t m sz b" "length (st_perConn st) = length (st_perConn (sh_stats (b_sh b)))"
    "length (st_perPubCh st) = length (st_perPubCh (sh_stats (b_sh b)))"
  shows "bench_inv ws t m sz (b\<lparr>b_sh := (b_sh b)\<lparr>sh_seen := sn, sh_stats := st\<rparr>\<rparr>)"
  using assms unfolding bench_inv_def liveSeqs_def by simp

lemma consumeTurn_effect:
  assumes "consumeTurn cw body inp sh \<in> {ConsNext sh', ConsReturned e sh'}"
  obtains sn st where "sh' = sh\<lparr>sh_seen := sn, sh_stats := st\<rparr>" "same_shape (sh_stats sh) st"
proof -
  have trans: "same_shape st (recordAck s l st')" if "same_shape st st'" for st st' s l
    using that recordAck_shape [of st' s l] by (simp add: same_shape_def)
  let ?seq = "fst (decodeHeader body)"
  from assms obtain lat dup sn where l: "lookupDelivery ?seq (ci_recv inp) sh = Some (lat, dup, sn)"
    by (cases "lookupDelivery ?seq (ci_recv inp) sh") (auto simp: consumeTurn_def Let_def)
  with assms obtain st where r: "recordDeliver (cw_slot cw) ?seq lat dup (sh_stats sh) = Some st"
    by (cases "recordDeliver (cw_slot cw) ?seq lat dup (sh_stats sh)") (auto simp: consumeTurn_def Let_def)
  have "sh' = sh\<lparr>sh_seen := sn, sh_stats := st\<rparr> \<or> sh' = sh\<lparr>sh_seen := sn, sh_stats := recordAck ?seq (micros (ci_took inp)) st\<rparr>"
    using assms l r by (auto simp: consumeTurn_def Let_def split: if_split_asm option.splits)
  then show thesis using that trans recordDeliver_shape [OF r] by blast
qed

lemma bench_inv_step: "bench_step ws b b' \<Longrightarrow> crew ws t m sz \<Longrightarrow> bench_inv ws t m sz b \<Longrightarrow> bench_inv ws t m sz b'"
proof (induction rule: bench_step.induct)
  case (bench_publish i inp b pc sh)
  then show ?case by (intro bench_inv_publish)
next
  case (bench_consume cw body inp b sh e)
  then obtain sn st where "sh = (b_sh b)\<lparr>sh_seen := sn, sh_stats := st\<rparr>" "same_shape (sh_stats (b_sh b)) st"
    using consumeTurn_effect by blast
  then show ?case using bench_inv_stats [OF bench_consume(3), of st sn] by (simp add: same_shape_def)
next
  case (bench_measure b k st)
  then have "length (st_perConn st) = length (st_perConn (sh_stats (b_sh b)))"
    "length (st_perPubCh st) = length (st_perPubCh (sh_stats (b_sh b)))"
    by (auto simp: beginMeasured_def resetAll_def)
  then show ?case using bench_inv_stats [OF bench_measure(3), of st "sh_seen (b_sh b)"] by simp
next
  case (bench_sample ts fin b rec st)
  then show ?case
    using bench_inv_stats [OF bench_sample(3), of st "sh_seen (b_sh b)"] sampleWindow_shape [OF bench_sample(1)]
    by (simp add: same_shape_def)
qed

lemma bench_inv_start:
  assumes "crew ws t m sz" shows "bench_inv ws t m sz (benchStart ws t (length ws * m))"
proof -
  have H: "(\<Sum>pc \<in># image_mset pubStart (mset ws). mset (heldSeqs pc)) = {#}"
    by (induction ws) (simp_all add: pubStart_def)
  have "pw_size w = int sz" if "w \<in> set ws" for w using assms that by (simp add: crew_def)
  then show ?thesis
    unfolding bench_inv_def by (auto simp: H benchStart_def liveSeqs_def pc_ok_def pubStart_def newStats_def)
qed

interpretation benchRun: transition_system "\<lambda>b. crew ws t m sz \<and> b = benchStart ws t (length ws * m)" "bench_step ws"
  "\<lambda>b. crew ws t m sz \<and> bench_inv ws t m sz b" for ws t m sz
  by unfold_locales (auto intro: bench_inv_start bench_inv_step)

section \<open>Properties of publishers\<close>

lemma distinct_by_count: "(\<And>x. count (mset xs) x \<le> 1) \<Longrightarrow> distinct xs"
proof (induction xs)
  case (Cons a xs)
  have "count (mset xs) x \<le> 1" for x
    using order_trans [OF _ Cons.prems [of x], of "count (mset xs) x"] by simp
  moreover have "a \<notin> set xs" using Cons.prems [of a] by simp
  ultimately show ?case using Cons.IH by simp
qed simp

text \<open>
  C32. However publishers, consumers, sampler and phase boundary interleave, whatever the SDK answers: no two messages
  are sent with the same sequence number, the numbers lie within the budget, every body has the configured size,
  and no publisher panics or runs out of the budget of \<open>length ws * m\<close> messages.
\<close>

theorem publishers_never_collide:
  assumes "reachable (\<lambda>b. crew ws t m sz \<and> b = benchStart ws t (length ws * m)) (bench_step ws) b"
  shows "distinct (map seqOf (sh_sent (b_sh b))) \<and> set (map seqOf (sh_sent (b_sh b))) \<subseteq> {1..length ws * m} \<and>
    (\<forall>msg \<in> set (sh_sent (b_sh b)). length (snd (snd msg)) = sz) \<and>
    (\<forall>pc \<in> set (b_pubs b). pc \<noteq> PubPanicked \<and> (\<forall>s n. pc \<noteq> PubReturned (Some (BudgetExceeded s n))))"
proof -
  have inv: "bench_inv ws t m sz b" using benchRun.inv_reachable [OF assms] by simp
  note D = bench_invD [OF inv]
  have "count (mset (map seqOf (sh_sent (b_sh b)))) x \<le> 1" for x
    using D(5) [of x] by (simp add: liveSeqs_def)
  then have "distinct (map seqOf (sh_sent (b_sh b)))" by (rule distinct_by_count)
  moreover have "set (map seqOf (sh_sent (b_sh b))) \<subseteq> {1..length ws * m}"
  proof -
    have "set (map seqOf (sh_sent (b_sh b))) \<subseteq> set_mset (liveSeqs b)" by (auto simp: liveSeqs_def)
    moreover have "sh_seq (b_sh b) \<le> length ws * m" using D(1,3) total_taken [OF D(2)] by simp
    ultimately show ?thesis using D(6) by fastforce
  qed
  moreover have "pc \<noteq> PubPanicked \<and> (\<forall>s n. pc \<noteq> PubReturned (Some (BudgetExceeded s n)))" if "pc \<in> set (b_pubs b)" for pc
    using D(2) that by (cases pc) (auto simp: pc_ok_def)
  ultimately show ?thesis using D(7) by blast
qed

text \<open>
  A publisher on its own: at each of its steps the shared state may be anything the other goroutines have made of it.
\<close>

fun pubRun :: "publishWorker \<Rightarrow> (pubInput \<times> shared) list \<Rightarrow> pubPc \<Rightarrow> pubPc" where
  "pubRun w [] pc = pc"
| "pubRun w ((inp, sh) # steps) pc = pubRun w steps (fst (pubStep w inp pc sh))"

text \<open>How many steps a publisher that sends \<open>m\<close> messages has left at most: four per message, and one to return.\<close>

fun stepsLeft :: "nat \<Rightarrow> pubPc \<Rightarrow> nat" where
  "stepsLeft m (PubLoop i _) = Suc (4 * (m - i))"
| "stepsLeft m (PubSeq i _ _) = Suc (Suc (Suc (Suc (4 * (m - Suc i)))))"
| "stepsLeft m (PubStamped i _ _) = Suc (Suc (Suc (4 * (m - Suc i))))"
| "stepsLeft m (PubSent i _ _) = Suc (Suc (4 * (m - Suc i)))"
| "stepsLeft m (PubReturned _) = 0"
| "stepsLeft m PubPanicked = 0"

lemma stepsLeft_pubStep: "stepsLeft (nat (pw_msgs w)) (fst (pubStep w inp pc sh)) \<le> stepsLeft (nat (pw_msgs w)) pc - 1"
proof (cases pc)
  case (PubLoop i body)
  show ?thesis
  proof (cases "int i \<ge> pw_msgs w")
    case False
    then have "nat (pw_msgs w) - i = Suc (nat (pw_msgs w) - Suc i)" by simp
    then show ?thesis by (simp add: PubLoop Let_def)
  qed (simp add: PubLoop)
qed (auto split: option.split)

lemma stepsLeft_pubRun: "stepsLeft (nat (pw_msgs w)) (pubRun w steps pc) \<le> stepsLeft (nat (pw_msgs w)) pc - length steps"
proof (induction w steps pc rule: pubRun.induct)
  case (2 w inp sh steps pc)
  then show ?case using stepsLeft_pubStep [of w inp pc sh] by simp
qed simp

text \<open>
  C33. The loop of \<^verbatim>\<open>publishWorker.run\<close> ends: whatever the SDK answers, whether or not the stop channel is closed, and
  whatever the other workers do to the shared state between any two of its steps, a publisher has left its loop
  after four steps per message and one more.
\<close>

theorem publisher_terminates:
  assumes "4 * nat (pw_msgs w) < length steps"
  shows "pubRun w steps (pubStart w) = PubPanicked \<or> (\<exists>r. pubRun w steps (pubStart w) = PubReturned r)"
proof -
  have "stepsLeft (nat (pw_msgs w)) (pubRun w steps (pubStart w)) = 0"
    using stepsLeft_pubRun [of w steps "pubStart w"] assms by (simp add: pubStart_def)
  then show ?thesis by (cases "pubRun w steps (pubStart w)") auto
qed

definition smallWorker :: publishWorker where
  "smallWorker = \<lparr>pw_slot = smallSlot, pw_exchange = ''ex'', pw_routingKey = ''rk'', pw_size = 16, pw_msgs = 1\<rparr>"

definition smallInput :: pubInput where
  "smallInput = \<lparr>pi_stop = False, pi_now = 7, pi_err = None, pi_took = 1000\<rparr>"

text \<open>One worker, up to the point where its message is sent.\<close>

lemma smallBench:
  "\<exists>b. reachable (\<lambda>b. crew [smallWorker] smallTopology 1 16 \<and> b = benchStart [smallWorker] smallTopology (length [smallWorker] * 1))
         (bench_step [smallWorker]) b \<and> length (sh_sent (b_sh b)) = 1"
proof -
  let ?start = "\<lambda>b. crew [smallWorker] smallTopology 1 16 \<and> b = benchStart [smallWorker] smallTopology (length [smallWorker] * 1)"
  let ?R = "reachable ?start (bench_step [smallWorker])"
  have step: "?R (b\<lparr>b_pubs := (b_pubs b)[0 := pc], b_sh := sh\<rparr>)"
    if "?R b" "pubStep smallWorker smallInput (b_pubs b ! 0) (b_sh b) = (pc, sh)" for b pc sh
    using that by (intro reach_step [OF that(1)] bench_publish [where inp = smallInput]) (simp_all add: smallInput_def)
  define z where "z = replicate 16 (0 :: byte)"
  obtain body' where enc: "encodeHeader z 1 7 = Some body'" using header_roundtrip [of z 1 7] by (auto simp: z_def)
  define b0 where "b0 = benchStart [smallWorker] smallTopology 1"
  have crew: "crew [smallWorker] smallTopology 1 16"
    by (simp add: crew_def smallWorker_def smallTopology_def slot_ok_def newStats_def smallSlot_def)
  have 0: "?R b0" by (rule reach_start) (use crew in \<open>simp add: b0_def\<close>)
  have pc0: "b_pubs b0 = [PubLoop 0 z]" "sh_seq (b_sh b0) = 0" "sh_sentTimes (b_sh b0) = [0]" "sh_sent (b_sh b0) = []"
    by (simp_all add: b0_def benchStart_def pubStart_def smallWorker_def z_def)
  have w1: "wrap64 1 = 1" "wrap64 0 = 0" by (simp_all add: wrap64_def)
  note 1 = step [OF 0, of "PubSeq 0 z 1" "(b_sh b0)\<lparr>sh_seq := 1\<rparr>"]
  let ?b1 = "b0\<lparr>b_pubs := [PubSeq 0 z 1], b_sh := (b_sh b0)\<lparr>sh_seq := 1\<rparr>\<rparr>"
  have r1: "?R ?b1" using 1 by (simp add: pc0 smallWorker_def smallInput_def w1)
  let ?b2 = "?b1\<lparr>b_pubs := [PubStamped 0 body' 1], b_sh := (b_sh ?b1)\<lparr>sh_sentTimes := [7]\<rparr>\<rparr>"
  have r2: "?R ?b2"
    using step [OF r1, of "PubStamped 0 body' 1" "(b_sh ?b1)\<lparr>sh_sentTimes := [7]\<rparr>"] enc by (simp add: pc0 smallInput_def)
  let ?b3 = "?b2\<lparr>b_pubs := [PubSent 0 body' 1], b_sh := (b_sh ?b2)\<lparr>sh_sent := [(''ex'', ''rk'', body')]\<rparr>\<rparr>"
  have "?R ?b3"
    using step [OF r2, of "PubSent 0 body' 1" "(b_sh ?b2)\<lparr>sh_sent := [(''ex'', ''rk'', body')]\<rparr>"]
    by (simp add: pc0 smallInput_def smallWorker_def)
  then show ?thesis by (intro exI [of _ ?b3]) simp
qed

theorem publishers_never_collide_witness:
  "\<exists>b :: bench. length (sh_sent (b_sh b)) = 1 \<and> set (map seqOf (sh_sent (b_sh b))) \<subseteq> {1..1}"
proof -
  obtain b where r: "reachable (\<lambda>b. crew [smallWorker] smallTopology 1 16 \<and>
      b = benchStart [smallWorker] smallTopology (length [smallWorker] * 1)) (bench_step [smallWorker]) b"
    and l: "length (sh_sent (b_sh b)) = 1"
    using smallBench by blast
  show ?thesis by (rule exI [of _ b]) (use publishers_never_collide [OF r] l in simp)
qed

theorem publisher_terminates_witness:
  "let sh = b_sh (benchStart [smallWorker] smallTopology 1); steps = replicate 5 (smallInput, sh) in
   pubRun smallWorker steps (pubStart smallWorker) = PubPanicked \<or>
   (\<exists>r. pubRun smallWorker steps (pubStart smallWorker) = PubReturned r)"
  using publisher_terminates [of smallWorker "replicate 5 (smallInput, b_sh (benchStart [smallWorker] smallTopology 1))"]
  by (simp add: Let_def smallWorker_def)

section \<open>Properties of consumers\<close>

text \<open>The deliveries of all consumers, in the order they are handled.\<close>

fun consumeAll :: "(consumeWorker \<times> byte list \<times> consInput) list \<Rightarrow> shared \<Rightarrow> shared option" where
  "consumeAll [] sh = Some sh"
| "consumeAll ((w, body, inp) # ds) sh =
     (case consumeTurn w body inp sh of ConsNext sh' \<Rightarrow> consumeAll ds sh' | _ \<Rightarrow> None)"

lemma recordDeliver_counts:
  assumes "recordDeliver sl seq lat dup st = Some st'"
  shows "st_allDelivered st' = st_allDelivered st + 1" "st_allConsumed st' = st_allConsumed st + of_bool (\<not> dup)"
    "st_allAcks st' = st_allAcks st" "st_allPublished st' = st_allPublished st"
  using assms by (auto simp: recordDeliver_def Let_def split: if_split_asm option.splits)

lemma recordAck_counts:
  "st_allDelivered (recordAck seq lat st) = st_allDelivered st" "st_allConsumed (recordAck seq lat st) = st_allConsumed st"
  "st_allAcks (recordAck seq lat st) = st_allAcks st + 1" "st_allPublished (recordAck seq lat st) = st_allPublished st"
  by (simp_all add: recordAck_def Let_def)

definition consumable :: "consumeWorker \<times> byte list \<times> consInput \<Rightarrow> shared \<Rightarrow> bool" where
  "consumable d sh \<longleftrightarrow>
     fst (decodeHeader (fst (snd d))) \<in> {1..length (sh_sentTimes sh)} \<and> length (sh_seen sh) = length (sh_sentTimes sh) \<and>
     length (sh_sentTimes sh) < 2 ^ 63 \<and> ci_ackErr (snd (snd d)) = None \<and> slot_ok (sh_stats sh) (cw_slot (fst d)) \<and> roles_present (sh_stats sh)"

lemma consumeTurn_known:
  assumes ok: "consumable (w, body, inp) sh" and seq: "seq = fst (decodeHeader body)"
  obtains st where "consumeTurn w body inp sh = ConsNext (sh\<lparr>sh_seen := (sh_seen sh)[seq - 1 := True], sh_stats := st\<rparr>)"
    "same_shape (sh_stats sh) st" "st_allDelivered st = st_allDelivered (sh_stats sh) + 1"
    "st_allConsumed st = st_allConsumed (sh_stats sh) + of_bool (\<not> sh_seen sh ! (seq - 1))"
    "st_allAcks st = st_allAcks (sh_stats sh) + of_bool (cw_ack w)" "st_allPublished st = st_allPublished (sh_stats sh)"
proof -
  have s: "1 \<le> seq" "seq \<le> length (sh_sentTimes sh)" "length (sh_seen sh) = length (sh_sentTimes sh)"
    "length (sh_sentTimes sh) < 2 ^ 63" "ci_ackErr inp = None" "slot_ok (sh_stats sh) (cw_slot w)" "roles_present (sh_stats sh)"
    using ok by (auto simp: consumable_def seq)
  have w: "wrap64 (wrap64 (int seq) - 1) = int (seq - 1)" using s by (simp add: wrap64_id of_nat_diff)
  have "nat (int seq - 1) = seq - 1" "int (seq - 1) < int (length (sh_sentTimes sh))" using s by linarith+
  then have "\<exists>lat. lookupDelivery seq (ci_recv inp) sh = Some (lat, sh_seen sh ! (seq - 1), (sh_seen sh)[seq - 1 := True])"
    using s w by (simp add: lookupDelivery_def deliveryIdx_def Let_def)
  then obtain lat where l: "lookupDelivery seq (ci_recv inp) sh = Some (lat, sh_seen sh ! (seq - 1), (sh_seen sh)[seq - 1 := True])" ..
  obtain st where r: "recordDeliver (cw_slot w) seq lat (sh_seen sh ! (seq - 1)) (sh_stats sh) = Some st"
    using recordDeliver_total [OF s(6,7)] by blast
  let ?st = "if cw_ack w then recordAck seq (micros (ci_took inp)) st else st"
  have "consumeTurn w body inp sh = ConsNext (sh\<lparr>sh_seen := (sh_seen sh)[seq - 1 := True], sh_stats := ?st\<rparr>)"
    using l r s(5) by (simp add: consumeTurn_def seq Let_def)
  moreover have "same_shape (sh_stats sh) ?st"
    using recordDeliver_shape [OF r] recordAck_shape [of st] by (simp add: same_shape_def)
  ultimately show thesis using recordDeliver_counts [OF r] by (intro that [of ?st]) (simp_all add: recordAck_counts)
qed

lemma consumeAll_known:
  assumes "\<forall>d \<in> set ds. consumable d sh"
  shows "\<exists>sh'. consumeAll ds sh = Some sh' \<and>
    st_allDelivered (sh_stats sh') = st_allDelivered (sh_stats sh) + length ds \<and>
    st_allConsumed (sh_stats sh') = st_allConsumed (sh_stats sh) +
      card {s \<in> (\<lambda>d. fst (decodeHeader (fst (snd d)))) ` set ds. \<not> sh_seen sh ! (s - 1)} \<and>
    st_allAcks (sh_stats sh') = st_allAcks (sh_stats sh) + length (filter (\<lambda>d. cw_ack (fst d)) ds) \<and>
    st_allPublished (sh_stats sh') = st_allPublished (sh_stats sh)"
  using assms
proof (induction ds arbitrary: sh)
  case (Cons d ds)
  obtain w body inp where d: "d = (w, body, inp)" by (cases d) auto
  define seq where "seq = fst (decodeHeader body)"
  have ok: "consumable (w, body, inp) sh" using Cons.prems d by simp
  then have s: "1 \<le> seq" "seq \<le> length (sh_seen sh)" by (auto simp: consumable_def seq_def)
  obtain st where t: "consumeTurn w body inp sh = ConsNext (sh\<lparr>sh_seen := (sh_seen sh)[seq - 1 := True], sh_stats := st\<rparr>)"
    "same_shape (sh_stats sh) st" "st_allDelivered st = st_allDelivered (sh_stats sh) + 1"
    "st_allConsumed st = st_allConsumed (sh_stats sh) + of_bool (\<not> sh_seen sh ! (seq - 1))"
    "st_allAcks st = st_allAcks (sh_stats sh) + of_bool (cw_ack w)" "st_allPublished st = st_allPublished (sh_stats sh)"
    by (rule consumeTurn_known [OF ok seq_def])
  let ?sh = "sh\<lparr>sh_seen := (sh_seen sh)[seq - 1 := True], sh_stats := st\<rparr>" and ?q = "\<lambda>d. fst (decodeHeader (fst (snd d)))"
  have "\<forall>d \<in> set ds. consumable d ?sh"
    using Cons.prems by (simp add: consumable_def same_shape_slot [OF t(2)] same_shape_roles [OF t(2)])
  from Cons.IH [OF this] obtain sh' where sh': "consumeAll ds ?sh = Some sh'"
    "st_allDelivered (sh_stats sh') = st_allDelivered st + length ds"
    "st_allConsumed (sh_stats sh') = st_allConsumed st + card {s \<in> ?q ` set ds. \<not> sh_seen ?sh ! (s - 1)}"
    "st_allAcks (sh_stats sh') = st_allAcks st + length (filter (\<lambda>d. cw_ack (fst d)) ds)"
    "st_allPublished (sh_stats sh') = st_allPublished st"
    by auto
  have pos: "1 \<le> s" if "s \<in> ?q ` set ds" for s using Cons.prems that by (auto simp: consumable_def)
  let ?A = "{s \<in> ?q ` set ds. \<not> sh_seen ?sh ! (s - 1)}"
  have "seq \<notin> ?A" using s by (simp add: nth_list_update)
  moreover have "{s \<in> ?q ` set (d # ds). \<not> sh_seen sh ! (s - 1)} = ?A \<union> (if sh_seen sh ! (seq - 1) then {} else {seq})"
    using s pos by (force simp: d seq_def nth_list_update)
  ultimately have "card {s \<in> ?q ` set (d # ds). \<not> sh_seen sh ! (s - 1)} = card ?A + of_bool (\<not> sh_seen sh ! (seq - 1))"
    by simp
  with sh' t d show ?case by simp
qed simp

text \<open>
  C34. Deliveries of known messages, spread over any consumers and in any order, are all counted, and a message is
  counted as consumed exactly once however often it is delivered; with acknowledging consumers the run counts as drained
  as soon as every published message has been delivered at least once.
\<close>

theorem consumed_once:
  assumes "\<forall>d \<in> set ds. consumable d sh" "\<forall>i < length (sh_seen sh). \<not> sh_seen sh ! i"
    "seqs = (\<lambda>d. fst (decodeHeader (fst (snd d)))) ` set ds"
    "st_allDelivered (sh_stats sh) = 0" "st_allConsumed (sh_stats sh) = 0"
  shows "\<exists>sh'. consumeAll ds sh = Some sh' \<and> st_allDelivered (sh_stats sh') = length ds \<and>
    st_allConsumed (sh_stats sh') = card seqs \<and>
    ((\<forall>d \<in> set ds. cw_ack (fst d)) \<and> st_allPublished (sh_stats sh) \<le> card seqs \<longrightarrow> drained True (sh_stats sh'))"
proof -
  have fresh: "{s \<in> seqs. \<not> sh_seen sh ! (s - 1)} = seqs"
  proof -
    have "\<not> sh_seen sh ! (s - 1)" if "s \<in> seqs" for s
    proof -
      have "1 \<le> s" "s \<le> length (sh_seen sh)" using assms(1) that by (auto simp: assms(3) consumable_def)
      then have "s - 1 < length (sh_seen sh)" by linarith
      then show ?thesis using assms(2) by blast
    qed
    then show ?thesis by blast
  qed
  from consumeAll_known [OF assms(1)] obtain sh' where sh': "consumeAll ds sh = Some sh'"
    "st_allDelivered (sh_stats sh') = length ds" "st_allConsumed (sh_stats sh') = card seqs"
    "st_allAcks (sh_stats sh') = st_allAcks (sh_stats sh) + length (filter (\<lambda>d. cw_ack (fst d)) ds)"
    "st_allPublished (sh_stats sh') = st_allPublished (sh_stats sh)"
    using assms(4,5) fresh unfolding assms(3) by auto
  moreover have "filter (\<lambda>d. cw_ack (fst d)) ds = ds" if "\<forall>d \<in> set ds. cw_ack (fst d)" using that by simp
  ultimately show ?thesis by (auto simp: drained_def)
qed

definition smallShared :: shared where
  "smallShared = \<lparr>sh_seq = 2, sh_sentTimes = [5, 6], sh_seen = [False, False], sh_stats = newStats smallTopology 2, sh_sent = []\<rparr>"

definition smallDelivery :: "byte list \<Rightarrow> consumeWorker \<times> byte list \<times> consInput" where
  "smallDelivery body = (\<lparr>cw_slot = smallSlot, cw_ack = True\<rparr>, body, \<lparr>ci_recv = 9, ci_ackErr = None, ci_took = 1\<rparr>)"

theorem consumed_once_witness:
  "\<exists>body sh'. fst (decodeHeader body) = 2 \<and>
     consumeAll [smallDelivery body, smallDelivery body] smallShared = Some sh' \<and>
     st_allDelivered (sh_stats sh') = 2 \<and> st_allConsumed (sh_stats sh') = 1"
proof -
  obtain body where "decodeHeader body = (2, 0)" using header_roundtrip [of "replicate 16 0" 2 0] by auto
  then have b: "fst (decodeHeader body) = 2" by simp
  have c: "consumable (smallDelivery body) smallShared"
    by (simp add: consumable_def smallDelivery_def smallShared_def b smallTopology_def newStats_def slot_ok_def
        roles_present_def roleKeys_def smallSlot_def)
  have "\<forall>i < length (sh_seen smallShared). \<not> sh_seen smallShared ! i"
    by (auto simp: smallShared_def less_Suc_eq)
  then show ?thesis
    using consumed_once [of "[smallDelivery body, smallDelivery body]" smallShared, OF _ _ refl] c b
    by (fastforce simp: smallDelivery_def smallShared_def newStats_def)
qed

text \<open>
  The bounds check of a consumer converts the sequence number to a signed integer: a delivery whose first eight bytes
  read more than \<open>2 ^ 63\<close> passes the check with a negative index, and the consumer panics.
\<close>

lemma consumer_panics_on_large_seq:
  "consumeTurn \<lparr>cw_slot = smallSlot, cw_ack = True\<rparr> [128, 0, 0, 0, 0, 0, 0, 1, 0, 0, 0, 0, 0, 0, 0, 0]
     \<lparr>ci_recv = 9, ci_ackErr = None, ci_took = 1\<rparr> smallShared = ConsPanicked"
proof -
  have "fst (decodeHeader [128, 0, 0, 0, 0, 0, 0, 1, 0, 0, 0, 0, 0, 0, 0, 0]) = 2 ^ 63 + 1"
    by (simp add: decodeHeader_def headerLen_def getBE_def)
  then show ?thesis
    by (simp add: consumeTurn_def lookupDelivery_def deliveryIdx_def smallShared_def wrap64_def)
qed

end
