(* ===== verification/Csv.thy ===== *)
theory Csv
  imports BenchStats Bufio
begin

text \<open>
  The interval report: \<^verbatim>\<open>internal/bench/csv.go\<close>, with what it uses of \<^verbatim>\<open>strconv\<close>, \<^verbatim>\<open>strings\<close>
  and \<^verbatim>\<open>time\<close>. The buffered file a report goes to is that of the theory \<open>Bufio\<close>.
\<close>

section \<open>Formatting\<close>

definition padLeft :: "nat \<Rightarrow> string \<Rightarrow> string" where
  "padLeft k s = replicate (k - length s) CHR ''0'' @ s"

text \<open>\<^verbatim>\<open>strconv.FormatFloat(x, 'f', prec, 64)\<close>: the decimal nearest to the exact value, ties to even.\<close>

definition formatFixed :: "nat \<Rightarrow> rat \<Rightarrow> string" where
  "formatFixed prec x =
     (let n = nat (round_even (\<bar>x\<bar> * 10 ^ prec)) in
      (if x < 0 then ''-'' else []) @ formatUint 10 (n div 10 ^ prec) @
      (if prec = 0 then [] else ''.'' @ padLeft prec (formatUint 10 (n mod 10 ^ prec))))"

text \<open>Year, month and day of a day counted from 1 January 1970, and the layout \<^verbatim>\<open>2006-01-02T15:04:05Z07:00\<close>.\<close>

definition civil :: "int \<Rightarrow> int \<times> int \<times> int" where
  "civil day =
     (let z = day + 719468; era = z div 146097; doe = z mod 146097;
          yoe = (doe - doe div 1460 + doe div 36524 - doe div 146096) div 365;
          doy = doe - (365 * yoe + yoe div 4 - yoe div 100);
          mp = (5 * doy + 2) div 153;
          d = doy - (153 * mp + 2) div 5 + 1;
          m = (if mp < 10 then mp + 3 else mp - 9)
      in (yoe + era * 400 + (if m \<le> 2 then 1 else 0), m, d))"

definition padInt :: "nat \<Rightarrow> int \<Rightarrow> string" where
  "padInt k n = (if n < 0 then ''-'' else []) @ padLeft k (formatUint 10 (nat \<bar>n\<bar>))"

definition zoneSuffix :: "int \<Rightarrow> string" where
  "zoneSuffix zone =
     (if zone = 0 then ''Z''
      else let mins = \<bar>zone\<bar> div 60 in
           (if zone < 0 then ''-'' else ''+'') @ padInt 2 (mins div 60) @ '':'' @ padInt 2 (mins mod 60))"

definition rfc3339 :: "int \<Rightarrow> int \<Rightarrow> string" where
  "rfc3339 zone nanos =
     (let secs = nanos div 1000000000 + zone; sod = secs mod 86400 in
      case civil (secs div 86400) of
        (y, m, d) \<Rightarrow>
          padInt 4 y @ ''-'' @ padInt 2 m @ ''-'' @ padInt 2 d @ ''T'' @
          padInt 2 (sod div 3600) @ '':'' @ padInt 2 (sod mod 3600 div 60) @ '':'' @ padInt 2 (sod mod 60) @ zoneSuffix zone)"

section \<open>Rows\<close>

definition csvColumns :: "string list" where
  "csvColumns =
     [''ts_start_rfc3339'', ''window_ms'', ''published'', ''delivered'', ''consumed'',
      ''pub_rate_per_s'', ''delivered_rate_per_s'', ''consumed_rate_per_s'',
      ''avg_delivery_lat_us'', ''min_delivery_lat_us'', ''max_delivery_lat_us'',
      ''p50_delivery_lat_us'', ''p95_delivery_lat_us'', ''p99_delivery_lat_us'',
      ''avg_ack_lat_us'', ''duplicates'', ''drops_cumulative'', ''both_lat_p95_us'', ''cons_lat_p95_us'']"

definition perSec :: "nat \<Rightarrow> rat \<Rightarrow> rat" where
  "perSec n windowMs = (if windowMs \<le> 0 then 0 else fl (fl (of_nat n) / fl (windowMs / 1000)))"

definition csvRow :: "int \<Rightarrow> intervalRecord \<Rightarrow> string list" where
  "csvRow zone r =
     [rfc3339 zone (ir_TsStart r),
      formatFixed 1 (ir_WindowMs r),
      formatUint 10 (ir_Published r),
      formatUint 10 (ir_Delivered r),
      formatUint 10 (ir_Consumed r),
      formatFixed 2 (perSec (ir_Published r) (ir_WindowMs r)),
      formatFixed 2 (perSec (ir_Delivered r) (ir_WindowMs r)),
      formatFixed 2 (perSec (ir_Consumed r) (ir_WindowMs r)),
      formatFixed 2 (lt_Avg (ir_DelLat r)),
      formatFixed 2 (lt_Min (ir_DelLat r)),
      formatFixed 2 (lt_Max (ir_DelLat r)),
      formatFixed 2 (lt_P50 (ir_DelLat r)),
      formatFixed 2 (lt_P95 (ir_DelLat r)),
      formatFixed 2 (lt_P99 (ir_DelLat r)),
      formatFixed 2 (ir_AckAvgUs r),
      formatUint 10 (ir_Duplicates r),
      formatUint 10 (ir_Drops r),
      formatFixed 2 (ir_BothP95Us r),
      formatFixed 2 (ir_ConsP95Us r)]"

definition csvLine :: "string list \<Rightarrow> string" where
  "csvLine fs = join '','' fs @ ''\<newline>''"

section \<open>The report writer\<close>

record csvWriter =
  cv_w :: "bufioWriter option"
  cv_n :: nat
  cv_err :: "io_error option"

text \<open>A line goes through the buffer unless an error is retained; a dropped writer is a nil pointer.\<close>

definition writeLine :: "string \<Rightarrow> csvWriter \<Rightarrow> (io_error option \<times> csvWriter) option" where
  "writeLine l c =
     (case cv_err c of
        Some e \<Rightarrow> Some (Some e, c)
      | None \<Rightarrow>
          (case cv_w c of
             None \<Rightarrow> None
           | Some b \<Rightarrow>
               (case bufio_Write l b of
                  (Some e, b') \<Rightarrow> Some (Some e, c\<lparr>cv_w := Some b', cv_err := Some e\<rparr>)
                | (None, b') \<Rightarrow> Some (None, c\<lparr>cv_w := Some b'\<rparr>))))"

definition writeHeader :: "csvWriter \<Rightarrow> (io_error option \<times> csvWriter) option" where
  "writeHeader c = writeLine (csvLine csvColumns) c"

definition writeInterval :: "int \<Rightarrow> intervalRecord \<Rightarrow> csvWriter \<Rightarrow> (io_error option \<times> csvWriter) option" where
  "writeInterval zone r c =
     (case writeLine (csvLine (csvRow zone r)) c of
        Some (None, c') \<Rightarrow> Some (None, c'\<lparr>cv_n := cv_n c' + 1\<rparr>)
      | x \<Rightarrow> x)"

definition csv_flush :: "csvWriter \<Rightarrow> (io_error option \<times> csvWriter) option" where
  "csv_flush c =
     (case cv_err c of
        Some e \<Rightarrow> Some (Some e, c)
      | None \<Rightarrow>
          (case cv_w c of
             None \<Rightarrow> None
           | Some b \<Rightarrow>
               (case bufio_Flush b of
                  (Some e, b') \<Rightarrow> Some (Some e, c\<lparr>cv_w := Some b', cv_err := Some e\<rparr>)
                | (None, b') \<Rightarrow> Some (None, c\<lparr>cv_w := Some b'\<rparr>))))"

text \<open>The writer with the destination it was dropped from, which the engine closes next.\<close>

definition csv_close :: "csvWriter \<Rightarrow> io_error option \<times> csvWriter \<times> dst option" where
  "csv_close c =
     (case cv_w c of
        None \<Rightarrow> (cv_err c, c, None)
      | Some b \<Rightarrow>
          (case cv_err c of
             None \<Rightarrow> (case bufio_Flush b of (e, b') \<Rightarrow> (e, c\<lparr>cv_w := None, cv_err := e\<rparr>, Some (bw_dst b')))
           | Some e \<Rightarrow> (Some e, c\<lparr>cv_w := None\<rparr>, Some (bw_dst b))))"

definition newCSVWriter :: "dst \<Rightarrow> (io_error + csvWriter) option" where
  "newCSVWriter d =
     (case writeHeader \<lparr>cv_w = Some \<lparr>bw_buf = [], bw_err = None, bw_dst = d\<rparr>, cv_n = 0, cv_err = None\<rparr> of
        None \<Rightarrow> None
      | Some (Some e, c) \<Rightarrow> Some (Inl e)
      | Some (None, c) \<Rightarrow>
          (case csv_flush c of
             None \<Rightarrow> None
           | Some (Some e, c') \<Rightarrow> Some (Inl e)
           | Some (None, c') \<Rightarrow> Some (Inr c')))"

section \<open>What reaches the destination\<close>

definition csv_inv :: "string \<Rightarrow> csvWriter \<Rightarrow> bool" where
  "csv_inv tx c \<longleftrightarrow> (\<exists>b. cv_w c = Some b \<and> buf_inv tx b \<and> cv_err c = bw_err b)"

lemma csv_inv_writeLine:
  assumes "csv_inv tx c"
  shows "\<exists>e c'. writeLine l c = Some (e, c') \<and> csv_inv (tx @ l) c' \<and> e = cv_err c' \<and> (cv_err c \<noteq> None \<longrightarrow> e = cv_err c)"
proof -
  from assms obtain b where b: "cv_w c = Some b" "buf_inv tx b" "cv_err c = bw_err b" by (auto simp: csv_inv_def)
  show ?thesis
  proof (cases "cv_err c")
    case None
    obtain e b' where w: "bufio_Write l b = (e, b')" by fastforce
    with None b buf_inv_Write [OF b(2) w] show ?thesis
      by (cases "bw_err b'") (auto simp: writeLine_def csv_inv_def)
  next
    case (Some e)
    then show ?thesis using b buf_inv_extend [OF b(2), of l] by (auto simp: writeLine_def csv_inv_def)
  qed
qed

lemma csv_inv_flush:
  assumes "csv_inv tx c"
  shows "\<exists>e c'. csv_flush c = Some (e, c') \<and> csv_inv tx c' \<and> e = cv_err c' \<and> (cv_err c \<noteq> None \<longrightarrow> e = cv_err c)"
proof -
  from assms obtain b where b: "cv_w c = Some b" "buf_inv tx b" "cv_err c = bw_err b" by (auto simp: csv_inv_def)
  obtain e b' where w: "bufio_Flush b = (e, b')" by fastforce
  with b buf_inv_Flush [OF b(2) w] show ?thesis
    by (cases "bw_err b"; cases "bw_err b'") (auto simp: csv_flush_def csv_inv_def)
qed

text \<open>The calls the sampler makes between opening and closing a report.\<close>

datatype csvOp = OpInterval intervalRecord | OpFlush

fun opText :: "int \<Rightarrow> csvOp \<Rightarrow> string" where
  "opText zone (OpInterval r) = csvLine (csvRow zone r)"
| "opText zone OpFlush = []"

fun runCsv :: "int \<Rightarrow> csvOp list \<Rightarrow> csvWriter \<Rightarrow> (io_error option list \<times> csvWriter) option" where
  "runCsv zone [] c = Some ([], c)"
| "runCsv zone (p # ps) c =
     (case (case p of OpInterval r \<Rightarrow> writeInterval zone r c | OpFlush \<Rightarrow> csv_flush c) of
        None \<Rightarrow> None
      | Some (e, c') \<Rightarrow> map_option (\<lambda>(es, c''). (e # es, c'')) (runCsv zone ps c'))"

definition reportText :: "int \<Rightarrow> csvOp list \<Rightarrow> string" where
  "reportText zone ps = csvLine csvColumns @ concat (map (opText zone) ps)"

lemma csv_inv_op:
  assumes "csv_inv tx c"
  shows "\<exists>e c'. (case p of OpInterval r \<Rightarrow> writeInterval zone r c | OpFlush \<Rightarrow> csv_flush c) = Some (e, c') \<and>
    csv_inv (tx @ opText zone p) c' \<and> e = cv_err c' \<and> (cv_err c \<noteq> None \<longrightarrow> e = cv_err c)"
proof (cases p)
  case (OpInterval r)
  from csv_inv_writeLine [OF assms, of "csvLine (csvRow zone r)"] obtain e c' where
    w: "writeLine (csvLine (csvRow zone r)) c = Some (e, c')" "csv_inv (tx @ csvLine (csvRow zone r)) c'"
      "e = cv_err c'" "cv_err c \<noteq> None \<longrightarrow> e = cv_err c" by blast
  moreover have "csv_inv x (c'\<lparr>cv_n := k\<rparr>) = csv_inv x c'" for x k by (simp add: csv_inv_def)
  ultimately show ?thesis using OpInterval by (cases "cv_err c'") (auto simp: writeInterval_def)
next
  case OpFlush
  then show ?thesis using csv_inv_flush [OF assms] by simp
qed

lemma csv_inv_run:
  "csv_inv tx c \<Longrightarrow> \<exists>es c'. runCsv zone ps c = Some (es, c') \<and> csv_inv (tx @ concat (map (opText zone) ps)) c' \<and>
     (\<forall>e \<in> set (cv_err c # es). e \<noteq> None \<longrightarrow> cv_err c' = e)"
proof (induction ps arbitrary: tx c)
  case (Cons p ps)
  from csv_inv_op [OF Cons.prems, where p = p and zone = zone] obtain e c1 where
    1: "(case p of OpInterval r \<Rightarrow> writeInterval zone r c | OpFlush \<Rightarrow> csv_flush c) = Some (e, c1)"
      "csv_inv (tx @ opText zone p) c1" "e = cv_err c1" "cv_err c \<noteq> None \<longrightarrow> e = cv_err c" by blast
  from Cons.IH [OF 1(2)] obtain es c' where
    2: "runCsv zone ps c1 = Some (es, c')" "csv_inv ((tx @ opText zone p) @ concat (map (opText zone) ps)) c'"
      "\<forall>e \<in> set (cv_err c1 # es). e \<noteq> None \<longrightarrow> cv_err c' = e" by blast
  show ?case using 1 2 by (intro exI [of _ "e # es"] exI [of _ c']) auto
qed auto

lemma newCSVWriter_inv: "newCSVWriter d = Some (Inr c) \<Longrightarrow> d_out d = [] \<Longrightarrow> csv_inv (csvLine csvColumns) c \<and> cv_err c = None"
proof -
  assume new: "newCSVWriter d = Some (Inr c)" and d: "d_out d = []"
  let ?c0 = "\<lparr>cv_w = Some \<lparr>bw_buf = [], bw_err = None, bw_dst = d\<rparr>, cv_n = 0, cv_err = None\<rparr>"
  have "csv_inv [] ?c0" using d by (simp add: csv_inv_def buf_inv_def)
  from csv_inv_writeLine [OF this, of "csvLine csvColumns"] obtain e1 c1 where
    1: "writeLine (csvLine csvColumns) ?c0 = Some (e1, c1)" "csv_inv (csvLine csvColumns) c1" by auto
  from csv_inv_flush [OF 1(2)] obtain e2 c2 where
    2: "csv_flush c1 = Some (e2, c2)" "csv_inv (csvLine csvColumns) c2" "e2 = cv_err c2" by blast
  show ?thesis using new 1 2 by (auto simp: newCSVWriter_def writeHeader_def split: option.splits)
qed

text \<open>
  C35. A report is never truncated silently. Whatever the destination accepts, what it holds after the report is closed is an
  initial part of header and rows; it is all of them unless closing reports an error; and an error of any call in between
  is reported again by closing.
\<close>

theorem report_no_silent_loss:
  assumes "newCSVWriter d = Some (Inr c)" "d_out d = []"
  shows "\<exists>es c' e c'' d'. runCsv zone ps c = Some (es, c') \<and> csv_close c' = (e, c'', Some d') \<and>
    prefix (d_out d') (reportText zone ps) \<and> (e = None \<longrightarrow> d_out d' = reportText zone ps) \<and>
    (\<forall>x \<in> set es. x \<noteq> None \<longrightarrow> e = x)"
proof -
  from newCSVWriter_inv [OF assms] have "csv_inv (csvLine csvColumns) c" by blast
  from csv_inv_run [OF this, of zone ps] obtain es c' where
    r: "runCsv zone ps c = Some (es, c')" "csv_inv (reportText zone ps) c'" "\<forall>x \<in> set es. x \<noteq> None \<longrightarrow> cv_err c' = x"
    by (auto simp: reportText_def)
  then obtain b where b: "cv_w c' = Some b" "buf_inv (reportText zone ps) b" "cv_err c' = bw_err b" by (auto simp: csv_inv_def)
  obtain e b' where fl: "bufio_Flush b = (e, b')" by fastforce
  note B = buf_inv_Flush [OF b(2) fl]
  show ?thesis
  proof (cases "bw_err b")
    case None
    then have "\<forall>x \<in> set es. x = None" using r(3) b(3) by fastforce
    with r(1) b None fl B show ?thesis by (auto simp: csv_close_def buf_inv_def)
  next
    case (Some e')
    with r b show ?thesis by (auto simp: csv_close_def buf_inv_def)
  qed
qed

definition failingDst :: dst where
  "failingDst = \<lparr>d_out = [], d_plan = [None, Some 3]\<rparr>"

theorem report_no_silent_loss_witness:
  "\<exists>c es c' e c'' d'. newCSVWriter failingDst = Some (Inr c) \<and> runCsv 0 [OpFlush] c = Some (es, c') \<and>
     csv_close c' = (e, c'', Some d') \<and> prefix (d_out d') (reportText 0 [OpFlush])"
proof -
  have "\<exists>c. newCSVWriter failingDst = Some (Inr c)"
    by (simp add: newCSVWriter_def writeHeader_def writeLine_def failingDst_def csvLine_def csvColumns_def
        bufio_Write.simps bufSize_def csv_flush_def bufio_Flush_def dst_Write_def)
  then obtain c where c: "newCSVWriter failingDst = Some (Inr c)" by blast
  show ?thesis using report_no_silent_loss [OF c, of 0 "[OpFlush]"] c by (fastforce simp: failingDst_def)
qed

section \<open>Reports are read back\<close>

definition plain :: "string \<Rightarrow> bool" where
  "plain s \<longleftrightarrow> CHR '','' \<notin> set s \<and> CHR 0x0A \<notin> set s"

lemma plain_append [simp]: "plain (s @ t) \<longleftrightarrow> plain s \<and> plain t"
  by (auto simp: plain_def)

lemma plain_formatUint [simp]: "plain (formatUint 10 n)"
  using formatUint_digits [of n] by (auto simp: plain_def list_all_iff is_digit_def)

lemma plain_Cons [simp]: "plain []" "plain (x # s) \<longleftrightarrow> x \<noteq> CHR '','' \<and> x \<noteq> CHR 0x0A \<and> plain s"
  by (auto simp: plain_def)

lemma plain_padLeft [simp]: "plain s \<Longrightarrow> plain (padLeft k s)"
  by (auto simp: plain_def padLeft_def)

lemma plain_padInt [simp]: "plain (padInt k n)"
  by (simp add: padInt_def)

lemma plain_formatFixed [simp]: "plain (formatFixed k x)"
  by (simp add: formatFixed_def Let_def)

lemma plain_rfc3339 [simp]: "plain (rfc3339 zone nanos)"
  by (simp add: rfc3339_def zoneSuffix_def Let_def split: prod.split)

lemma plain_csvRow: "f \<in> set (csvRow zone r) \<Longrightarrow> plain f"
  by (auto simp: csvRow_def)

lemma plain_csvColumns: "f \<in> set csvColumns \<Longrightarrow> plain f"
  by (auto simp: csvColumns_def plain_def)

lemma join_plain: "\<forall>f \<in> set fs. plain f \<Longrightarrow> CHR 0x0A \<notin> set (join '','' fs)"
  by (induction "'',''" fs rule: join.induct) (auto simp: plain_def)

lemma splitOn_lines:
  "\<forall>fs \<in> set rows. \<forall>f \<in> set fs. plain f \<Longrightarrow>
   splitOn CHR 0x0A (concat (map csvLine rows)) = map (join '','') rows @ [[]]"
  by (induction rows) (auto simp: csvLine_def splitOn_append join_plain)

fun rowsOf :: "csvOp list \<Rightarrow> intervalRecord list" where
  "rowsOf [] = []"
| "rowsOf (OpInterval r # ps) = r # rowsOf ps"
| "rowsOf (OpFlush # ps) = rowsOf ps"

text \<open>
  C36. Reading a report line by line and cutting lines at commas gives back exactly the column names and one row of
  as many fields for every interval, in order.
\<close>

theorem report_reads_back:
  "map (splitOn CHR '','') (butlast (splitOn CHR 0x0A (reportText zone ps))) = csvColumns # map (csvRow zone) (rowsOf ps) \<and>
   list_all (\<lambda>row. length row = length csvColumns) (map (csvRow zone) (rowsOf ps))"
proof -
  have eq: "reportText zone ps = concat (map csvLine (csvColumns # map (csvRow zone) (rowsOf ps)))"
    by (induction ps rule: rowsOf.induct) (simp_all add: reportText_def)
  let ?rows = "csvColumns # map (csvRow zone) (rowsOf ps)"
  have pl: "\<forall>fs \<in> set ?rows. \<forall>f \<in> set fs. plain f" by (auto dest: plain_csvRow plain_csvColumns)
  have "splitOn CHR '','' (join '','' fs) = fs" if "fs \<in> set ?rows" for fs
    using that pl by (intro splitOn_join) (auto simp: plain_def csvColumns_def csvRow_def)
  then have "map (splitOn CHR '','' \<circ> join '','') ?rows = ?rows" by (intro map_idI) simp
  then show ?thesis unfolding eq splitOn_lines [OF pl] by (simp add: comp_def list_all_iff csvRow_def csvColumns_def)
qed

end
