(* ===== verification/Engine.thy ===== *)
theory Engine
  imports Worker Csv "HOL-Library.Monad_Syntax"
begin

text \<open>
  The benchmark's engine: \<^verbatim>\<open>internal/bench/engine.go\<close>.

  The SDK, the file system, the clock and the scheduler are outside of the program: their answers are the fields of
  \<open>runEnv\<close>, over which every theorem quantifies. The measured phase is a list of segments, each the calls the workers
  made (\<open>event\<close>) until the sampler's next tick. The clients and the file a run opens and closes are recorded in a trace.
\<close>

section \<open>Names\<close>

definition formatInt :: "nat \<Rightarrow> int \<Rightarrow> string" where
  "formatInt base n = (if n < 0 then CHR ''-'' # formatUint base (nat (- n)) else formatUint base (nat n))"

definition newRunID :: "string \<Rightarrow> int \<Rightarrow> nat \<Rightarrow> string \<times> nat" where
  "newRunID nonce now runIDSeq =
     (let s = runIDSeq + 1 in (formatInt 36 now @ ''-'' @ formatUint 36 s @ ''-'' @ nonce, s))"

text \<open>\<^verbatim>\<open>runIDNonce\<close>: eight random bytes in hexadecimal, or the process id when there is no randomness.\<close>

definition hexByte :: "byte \<Rightarrow> string" where
  "hexByte b = [digit_char (unat b div 16), digit_char (unat b mod 16)]"

definition runIDNonce :: "byte list option \<Rightarrow> nat \<Rightarrow> string" where
  "runIDNonce rnd pid = (case rnd of Some bs \<Rightarrow> concat (map hexByte bs) | None \<Rightarrow> formatUint 36 pid)"

definition exchangeOf :: "string \<Rightarrow> string" where "exchangeOf runid = ''bench.ex.'' @ runid"
definition queueOf :: "string \<Rightarrow> string" where "queueOf runid = ''bench.q.'' @ runid"
definition routingKeyOf :: "string \<Rightarrow> string" where "routingKeyOf runid = ''bench.rk.'' @ runid"

section \<open>The summary\<close>

record TopoConnRow =
  tr_Channels :: nat
  tr_Role :: string

record TopologySummary =
  ts_Conns :: "TopoConnRow list"
  ts_PublishCapable :: nat
  ts_ConsumeCapable :: nat

record RoleRow =
  rr_P95Us :: rat
  rr_N :: nat

record ByConnRow =
  bc_Conn :: nat
  bc_Published :: nat
  bc_Consumed :: nat
  bc_PubRatePerSec :: rat
  bc_AvgDeliveryLatUs :: rat

record ByPubChRow =
  bp_Conn :: nat
  bp_Ch :: nat
  bp_Published :: nat
  bp_RatePerSec :: rat

text \<open>The values of \<^verbatim>\<open>summaryConfig\<close>'s map.\<close>

datatype cfgValue = CfgString string | CfgInt int | CfgBool bool

record Summary =
  sm_RunID :: string
  sm_Config :: "(string, cfgValue) gomap"
  sm_Topology :: TopologySummary
  sm_Published :: nat
  sm_Delivered :: nat
  sm_Consumed :: nat
  sm_Duplicates :: nat
  sm_Drops :: nat
  sm_ElapsedMs :: int
  sm_ConsumedRatePerSec :: rat
  sm_DeliveryLatency :: LatencySummary
  sm_AckLatency :: LatencySummary
  sm_ByRole :: "(string, RoleRow) gomap"
  sm_ByConn :: "ByConnRow list"
  sm_ByPublishChannel :: "ByPubChRow list"

record Result =
  rs_RunID :: string
  rs_CSVPath :: string
  rs_Summary :: Summary

text \<open>
  \<^verbatim>\<open>time.Duration.String\<close>. \<open>fmtFrac\<close> writes the fraction of \<open>v / 10 ^ prec\<close> without trailing zeros, with its point.
\<close>

definition fmtFrac :: "nat \<Rightarrow> nat \<Rightarrow> string" where
  "fmtFrac prec v =
     (let ds = rev (dropWhile (\<lambda>c. c = CHR ''0'') (rev (padLeft prec (formatUint 10 (v mod 10 ^ prec)))))
      in if ds = [] then [] else CHR ''.'' # ds)"

definition microSign :: string where "microSign = [CHR 0xC2, CHR 0xB5]"

definition durText :: "nat \<Rightarrow> string" where
  "durText u =
     (if u < 1000 then formatUint 10 u @ ''ns''
      else if u < 1000000 then formatUint 10 (u div 1000) @ fmtFrac 3 u @ microSign @ ''s''
      else if u < 1000000000 then formatUint 10 (u div 1000000) @ fmtFrac 6 u @ ''ms''
      else let secs = u div 1000000000 in
           (if secs \<ge> 3600 then formatUint 10 (secs div 3600) @ ''h'' else []) @
           (if secs \<ge> 60 then formatUint 10 (secs div 60 mod 60) @ ''m'' else []) @
           formatUint 10 (secs mod 60) @ fmtFrac 9 u @ ''s'')"

definition Duration_String :: "int \<Rightarrow> string" where
  "Duration_String d = (if d = 0 then ''0s'' else (if d < 0 then ''-'' else []) @ durText (nat \<bar>d\<bar>))"

definition summaryConfig :: "Config \<Rightarrow> (string, cfgValue) gomap" where
  "summaryConfig c =
     [(''addr'', CfgString (cf_Addr c)),
      (''conns'', CfgInt (cf_Conns c)),
      (''pub-conns'', CfgInt (cf_PubConns c)),
      (''cons-conns'', CfgInt (cf_ConsConns c)),
      (''channels'', CfgInt (cf_Channels c)),
      (''pub-channels'', CfgInt (cf_PubChannels c)),
      (''cons-channels'', CfgInt (cf_ConsChannels c)),
      (''conns-distribution'', CfgString (cf_ConnsDist c)),
      (''channels-distribution'', CfgString (cf_ChannelsDist c)),
      (''pub-channels-distribution'', CfgString (cf_PubChannelsDist c)),
      (''max-channels-per-conn'', CfgInt (cf_MaxChannelsPerConn c)),
      (''max-consumers-per-channel'', CfgInt (cf_MaxConsumersPerChannel c)),
      (''max-publishers-per-channel'', CfgInt (cf_MaxPublishersPerChannel c)),
      (''publishers'', CfgInt (cf_Publishers c)),
      (''consumers'', CfgInt (cf_Consumers c)),
      (''msgs'', CfgInt (cf_Msgs c)),
      (''size'', CfgInt (cf_Size c)),
      (''ack'', CfgBool (cf_Ack c)),
      (''prefetch'', CfgInt (cf_Prefetch c)),
      (''duration'', CfgString (Duration_String (cf_Duration c))),
      (''warmup'', CfgString (Duration_String (cf_Warmup c))),
      (''report'', CfgString (Duration_String (cf_Report c))),
      (''drain-timeout'', CfgString (Duration_String (cf_DrainTimeout c))),
      (''output'', CfgString (cf_Output c)),
      (''quiet'', CfgBool (cf_Quiet c))]"

text \<open>\<^verbatim>\<open>Duration.Seconds\<close>.\<close>

definition Seconds :: "int \<Rightarrow> rat" where
  "Seconds d = fl (fl (of_int (d div 1000000000)) + fl (fl (of_int (d mod 1000000000)) / 1000000000))"

definition rate :: "nat \<Rightarrow> rat \<Rightarrow> rat" where
  "rate n elapsedSec = (if elapsedSec > 0 then fl (fl (of_nat n) / elapsedSec) else 0)"

definition byConnRow :: "rat \<Rightarrow> nat \<times> connStats \<Rightarrow> ByConnRow" where
  "byConnRow elapsedSec ics =
     (case ics of (i, cs) \<Rightarrow>
        \<lparr>bc_Conn = i, bc_Published = cs_published cs, bc_Consumed = cs_consumed cs,
         bc_PubRatePerSec = rate (cs_published cs) elapsedSec,
         bc_AvgDeliveryLatUs = (if cs_delLatCount cs > 0 then fl (cs_delLatSum cs / fl (of_nat (cs_delLatCount cs))) else 0)\<rparr>)"

text \<open>The row of the publish-capable channel with number \<open>idx\<close>; a counter that is missing panics.\<close>

definition byPubChRow :: "rat \<Rightarrow> Topology \<Rightarrow> stats \<Rightarrow> nat \<times> nat \<Rightarrow> ByPubChRow option" where
  "byPubChRow elapsedSec t st ir =
     (case ir of (idx, r) \<Rightarrow>
        if idx < length (st_perPubCh st)
        then Some \<lparr>bp_Conn = sl_Conn (t_slots t ! r), bp_Ch = sl_Ch (t_slots t ! r), bp_Published = st_perPubCh st ! idx,
                   bp_RatePerSec = rate (st_perPubCh st ! idx) elapsedSec\<rparr>
        else None)"

definition roleRow :: "stats \<Rightarrow> string \<Rightarrow> (string \<times> RoleRow) option" where
  "roleRow st k =
     map_option (\<lambda>s. let sm = summaryLocked s in (k, \<lparr>rr_P95Us = lt_P95 sm, rr_N = lt_Count sm\<rparr>)) (gm_get (st_roleDelTot st) k)"

definition buildSummary :: "string \<Rightarrow> Config \<Rightarrow> Topology \<Rightarrow> stats \<Rightarrow> int \<Rightarrow> Summary option" where
  "buildSummary runid c t st elapsed =
     (let elapsedSec = Seconds elapsed in
      case (those (map (roleRow st) roleKeys), those (map (byPubChRow elapsedSec t st) (enumerate 0 (t_publishCapable t)))) of
        (Some byRole, Some byPubCh) \<Rightarrow>
          (case totals st of
             (pub, del, cons, dup, drops) \<Rightarrow>
               Some \<lparr>sm_RunID = runid, sm_Config = summaryConfig c,
                     sm_Topology = \<lparr>ts_Conns = map (\<lambda>cp. \<lparr>tr_Channels = length (cp_Channels cp), tr_Role = ConnRole_String (cp_Role cp)\<rparr>) (t_Conns t),
                                    ts_PublishCapable = length (t_publishCapable t), ts_ConsumeCapable = length (t_consumeCapable t)\<rparr>,
                     sm_Published = pub, sm_Delivered = del, sm_Consumed = cons, sm_Duplicates = dup, sm_Drops = drops,
                     sm_ElapsedMs = elapsed div 1000000, sm_ConsumedRatePerSec = rate cons elapsedSec,
                     sm_DeliveryLatency = summaryLocked (st_delLatTot st), sm_AckLatency = summaryLocked (st_ackLatTot st),
                     sm_ByRole = byRole, sm_ByConn = map (byConnRow elapsedSec) (enumerate 0 (st_perConn st)),
                     sm_ByPublishChannel = byPubCh\<rparr>)
      | _ \<Rightarrow> None)"

section \<open>The plan\<close>

definition boolText :: "bool \<Rightarrow> string" where
  "boolText b = (if b then ''true'' else ''false'')"

definition dec :: "nat \<Rightarrow> string" where "dec n = formatUint 10 n"

definition planHead :: "string \<Rightarrow> Config \<Rightarrow> int \<Rightarrow> string" where
  "planHead runid c budget =
     ''benchmark '' @ runid @ '': conns='' @ itoa (cf_Conns c) @ '' (pub='' @ itoa (cf_PubConns c) @ '' cons='' @ itoa (cf_ConsConns c) @
     '' mixed='' @ itoa (wrap64 (wrap64 (cf_Conns c - cf_PubConns c) - cf_ConsConns c)) @ '') channels='' @ itoa (cf_Channels c) @
     '' publishers='' @ itoa (cf_Publishers c) @ '' consumers='' @ itoa (cf_Consumers c) @ '' msgs='' @ itoa (cf_Msgs c) @
     '' total='' @ itoa budget @ '' size='' @ itoa (cf_Size c) @ '' ack='' @ boolText (cf_Ack c)"

definition planConn :: "string \<Rightarrow> Topology \<Rightarrow> connPlan \<Rightarrow> string" where
  "planConn runid t cp =
     ''benchmark '' @ runid @ '': conn'' @ dec (cp_Conn cp) @ '' ['' @ ConnRole_String (cp_Role cp) @ ''] '' @
     dec (length (cp_Channels cp)) @ '' channel(s): '' @
     join '', '' (map (\<lambda>r. let sl = t_slots t ! r in
       ''ch'' @ dec (sl_Ch sl) @ ''='' @ Role_String (sl_Role sl) @ ''(pub'' @ dec (length (sl_PubGoroutines sl)) @
       ''/cons'' @ dec (length (sl_ConsGoroutines sl)) @ '')'') (cp_Channels cp))"

definition planCapable :: "string \<Rightarrow> string \<Rightarrow> Topology \<Rightarrow> nat list \<Rightarrow> string" where
  "planCapable runid what t refs =
     ''benchmark '' @ runid @ '': '' @ what @ ''('' @ dec (length refs) @ ''): '' @
     join '', '' (map (\<lambda>r. let sl = t_slots t ! r in
       ''c'' @ dec (sl_Conn sl) @ ''.ch'' @ dec (sl_Ch sl) @ ''('' @ Role_String (sl_Role sl) @ '')'') refs)"

definition printPlan :: "string \<Rightarrow> Config \<Rightarrow> Topology \<Rightarrow> int \<Rightarrow> string list" where
  "printPlan runid c t budget =
     [planHead runid c budget,
      ''benchmark '' @ runid @ '': exchange='' @ exchangeOf runid @ '' queue='' @ queueOf runid @ '' routing_key='' @ routingKeyOf runid] @
     map (planConn runid t) (t_Conns t) @
     [planCapable runid ''publish-capable'' t (t_publishCapable t), planCapable runid ''consume-capable'' t (t_consumeCapable t)]"

section \<open>The sampler\<close>

text \<open>
  State of the sampler goroutine: where the current window began, the report, and whether it still runs (it returns at
  the first error of the report).
\<close>

record sampler =
  sa_windowStart :: int
  sa_csv :: csvWriter
  sa_running :: bool

definition writeWindow :: "int \<Rightarrow> int \<Rightarrow> sampler \<Rightarrow> stats \<Rightarrow> (intervalRecord list \<times> sampler \<times> stats) option" where
  "writeWindow zone now sa st =
     (if \<not> sa_running sa then Some ([], sa, st)
      else case sampleWindow (sa_windowStart sa) now st of
             None \<Rightarrow> None
           | Some (rec, st') \<Rightarrow>
               (case writeInterval zone rec (sa_csv sa) of
                  None \<Rightarrow> None
                | Some (Some e, c) \<Rightarrow> Some ([rec], sa\<lparr>sa_csv := c, sa_running := False\<rparr>, st')
                | Some (None, c) \<Rightarrow>
                    (case csv_flush c of
                       None \<Rightarrow> None
                     | Some (Some e, c') \<Rightarrow> Some ([rec], sa\<lparr>sa_csv := c', sa_running := False\<rparr>, st')
                     | Some (None, c') \<Rightarrow> Some ([rec], sa\<lparr>sa_csv := c', sa_windowStart := now\<rparr>, st'))))"

text \<open>The last window, whose errors are left to \<^verbatim>\<open>close\<close>.\<close>

definition lastWindow :: "int \<Rightarrow> int \<Rightarrow> sampler \<Rightarrow> stats \<Rightarrow> (intervalRecord list \<times> sampler \<times> stats) option" where
  "lastWindow zone now sa st =
     (if \<not> sa_running sa then Some ([], sa, st)
      else case sampleWindow (sa_windowStart sa) now st of
             None \<Rightarrow> None
           | Some (rec, st') \<Rightarrow>
               (case writeInterval zone rec (sa_csv sa) of
                  None \<Rightarrow> None
                | Some (_, c) \<Rightarrow>
                    (case csv_flush c of
                       None \<Rightarrow> None
                     | Some (_, c') \<Rightarrow> Some ([rec], sa\<lparr>sa_csv := c', sa_running := False\<rparr>, st'))))"

text \<open>Ticks of the sampler, each after the workers' calls up to it.\<close>

fun ticks :: "int \<Rightarrow> (event list \<times> int) list \<Rightarrow> sampler \<Rightarrow> stats \<Rightarrow> (intervalRecord list \<times> sampler \<times> stats) option" where
  "ticks zone [] sa st = Some ([], sa, st)"
| "ticks zone ((es, now) # segs) sa st =
     do {
       (st1, _) \<leftarrow> runEvents es st;
       (rows, sa1, st2) \<leftarrow> writeWindow zone now sa st1;
       (rows', sa2, st3) \<leftarrow> ticks zone segs sa1 st2;
       Some (rows @ rows', sa2, st3)
     }"

text \<open>The layout \<^verbatim>\<open>15:04:05.000\<close>.\<close>

definition clockText :: "int \<Rightarrow> int \<Rightarrow> string" where
  "clockText zone nanos =
     (let sod = (nanos div 1000000000 + zone) mod 86400 in
      padInt 2 (sod div 3600) @ '':'' @ padInt 2 (sod mod 3600 div 60) @ '':'' @ padInt 2 (sod mod 60) @ ''.'' @
      padInt 3 (nanos mod 1000000000 div 1000000))"

definition logInterval :: "int \<Rightarrow> string \<Rightarrow> intervalRecord \<Rightarrow> string" where
  "logInterval zone runid rec =
     ''benchmark '' @ runid @ '': interval t='' @ clockText zone (ir_TsStart rec) @ '' published='' @ dec (ir_Published rec) @
     '' delivered='' @ dec (ir_Delivered rec) @ '' consumed='' @ dec (ir_Consumed rec) @ '' dup='' @ dec (ir_Duplicates rec)"

section \<open>Warmup and drain\<close>

text \<open>What ends the warmup: the context, the last publisher, or the timer.\<close>

datatype warmEnd = WarmCtxDone | WarmPubDone | WarmElapsed

text \<open>
  One look of the drain loop at the counters, with whether the deadline has passed and whether the context is done while
  it waits. \<open>None\<close>: the looks given are not enough to leave the loop.
\<close>

record poll =
  po_stats :: stats
  po_late :: bool
  po_ctxDone :: bool

datatype drainEnd = Drained | TimedOut | DrainInterrupted

fun drainLoop :: "bool \<Rightarrow> poll list \<Rightarrow> drainEnd option" where
  "drainLoop ack [] = None"
| "drainLoop ack (p # ps) =
     (if drained ack (po_stats p) then Some Drained
      else if po_late p then Some TimedOut
      else if po_ctxDone p then Some DrainInterrupted
      else drainLoop ack ps)"

definition needDrain :: "Config \<Rightarrow> bool \<Rightarrow> stats \<Rightarrow> bool" where
  "needDrain c interrupted st \<longleftrightarrow>
     \<not> interrupted \<and> cf_Consumers c > 0 \<and> (if cf_Ack c then st_allPublished st > 0 else st_published st > 0)"

definition storeDrops :: "bool \<Rightarrow> stats \<Rightarrow> stats" where
  "storeDrops interrupted st =
     (if \<not> interrupted \<and> st_published st > st_consumed st then st\<lparr>st_drops := st_published st - st_consumed st\<rparr> else st)"

text \<open>Whether the drain ends interrupted.\<close>

definition drainPhase :: "Config \<Rightarrow> bool \<Rightarrow> poll list \<Rightarrow> stats \<Rightarrow> bool option" where
  "drainPhase c ctxDone polls st =
     (if needDrain c ctxDone st then map_option (\<lambda>r. r = DrainInterrupted) (drainLoop (cf_Ack c) polls) else Some ctxDone)"

text \<open>
  The measured phase: ticks until the publishers are done, ticks while the queue drains, the drops, ticks while the
  workers are stopped, and the last window when none runs any more.
\<close>

record phase =
  ph_segs :: "(event list \<times> int) list"
  ph_pubEvents :: "event list"
  ph_ctxDone :: bool
  ph_polls :: "poll list"
  ph_drainSegs :: "(event list \<times> int) list"
  ph_drainEvents :: "event list"
  ph_stopSegs :: "(event list \<times> int) list"
  ph_lastEvents :: "event list"
  ph_end :: int

definition measuredPhase :: "Config \<Rightarrow> int \<Rightarrow> phase \<Rightarrow> sampler \<Rightarrow> stats \<Rightarrow> (intervalRecord list \<times> sampler \<times> stats) option" where
  "measuredPhase c zone ph sa st =
     do {
       (rows1, sa1, st1) \<leftarrow> ticks zone (ph_segs ph) sa st;
       (st2, _) \<leftarrow> runEvents (ph_pubEvents ph) st1;
       interrupted \<leftarrow> drainPhase c (ph_ctxDone ph) (ph_polls ph) st2;
       (rows2, sa2, st3) \<leftarrow> ticks zone (ph_drainSegs ph) sa1 st2;
       (st4, _) \<leftarrow> runEvents (ph_drainEvents ph) st3;
       (rows3, sa3, st5) \<leftarrow> ticks zone (ph_stopSegs ph) sa2 (storeDrops interrupted st4);
       (st6, _) \<leftarrow> runEvents (ph_lastEvents ph) st5;
       (rows4, sa4, st7) \<leftarrow> lastWindow zone (ph_end ph) sa3 st6;
       Some (rows1 @ rows2 @ rows3 @ rows4, sa4, st7)
     }"

section \<open>Clients, files and the run\<close>

datatype act = ClientOpened nat | ClientClosed nat | FileOpened string | FileClosed string

datatype run_error =
    ConfigRejected config_error
  | SetupConnect string | SetupChannel string | DeclareExchangeFailed string string
  | DeclareQueueFailed string string | BindFailed string string string
  | ConnectFailed nat string | OpenChannelFailed nat string
  | CreateCSVFailed string string | WriteCSVFailed string io_error
  | ConsumeFailed nat nat string
  | WarmupInterrupted | WarmupExceeded int int
  | Interrupted | WorkerFailures "worker_error list"

text \<open>
  The answers of the SDK: to the \<open>i\<close>th \<^verbatim>\<open>Connect\<close> (the setup client is number 0), to opening the \<open>k\<close>th channel of
  a client, to the declarations, and to the \<open>k\<close>th \<^verbatim>\<open>Consume\<close> on a slot.
\<close>

record sdk =
  sdk_Connect :: "nat \<Rightarrow> string option"
  sdk_OpenChannel :: "nat \<Rightarrow> nat \<Rightarrow> string option"
  sdk_DeclareExchange :: "string option"
  sdk_DeclareQueue :: "string option"
  sdk_BindQueue :: "string option"
  sdk_Consume :: "nat \<Rightarrow> nat \<Rightarrow> string option"

definition closeClients :: "nat list \<Rightarrow> act list" where
  "closeClients clients = map ClientClosed clients"

definition setupFixture :: "sdk \<Rightarrow> string \<Rightarrow> run_error option \<times> act list" where
  "setupFixture k runid =
     (case sdk_Connect k 0 of
        Some e \<Rightarrow> (Some (SetupConnect e), [])
      | None \<Rightarrow>
          (case sdk_OpenChannel k 0 0 of
             Some e \<Rightarrow> (Some (SetupChannel e), [ClientOpened 0, ClientClosed 0])
           | None \<Rightarrow>
               (case sdk_DeclareExchange k of
                  Some e \<Rightarrow> (Some (DeclareExchangeFailed (exchangeOf runid) e), [ClientOpened 0, ClientClosed 0])
                | None \<Rightarrow>
                    (case sdk_DeclareQueue k of
                       Some e \<Rightarrow> (Some (DeclareQueueFailed (queueOf runid) e), [ClientOpened 0, ClientClosed 0])
                     | None \<Rightarrow>
                         (case sdk_BindQueue k of
                            Some e \<Rightarrow> (Some (BindFailed (queueOf runid) (exchangeOf runid) e), [ClientOpened 0, ClientClosed 0])
                          | None \<Rightarrow> (None, [ClientOpened 0, ClientClosed 0]))))))"

text \<open>The first error of a list of answers.\<close>

fun firstErr :: "'e option list \<Rightarrow> 'e option" where
  "firstErr [] = None"
| "firstErr (Some e # xs) = Some e"
| "firstErr (None # xs) = firstErr xs"

text \<open>The clients of the connections \<open>i\<close> and above; \<open>clients\<close> are those already there.\<close>

fun openClients :: "sdk \<Rightarrow> nat \<Rightarrow> connPlan list \<Rightarrow> nat list \<Rightarrow> run_error option \<times> nat list \<times> act list" where
  "openClients k i [] clients = (None, clients, [])"
| "openClients k i (cp # cps) clients =
     (case sdk_Connect k (Suc i) of
        Some e \<Rightarrow> (Some (ConnectFailed i e), clients, closeClients clients)
      | None \<Rightarrow>
          (let clients' = clients @ [Suc i] in
           case firstErr (map (sdk_OpenChannel k (Suc i)) [0..<length (cp_Channels cp)]) of
             Some e \<Rightarrow> (Some (OpenChannelFailed i e), clients', ClientOpened (Suc i) # closeClients clients')
           | None \<Rightarrow>
               (case openClients k (Suc i) cps clients' of
                  (r, cs, acts) \<Rightarrow> (r, cs, ClientOpened (Suc i) # acts))))"

definition openCSV :: "(string \<Rightarrow> string option) \<Rightarrow> Config \<Rightarrow> string \<Rightarrow> run_error + string \<times> bool" where
  "openCSV create c runid =
     (if cf_Output c = ''-'' then Inr (''-'', False)
      else let path = (if cf_Output c = [] then ''bench-'' @ runid @ ''.csv'' else cf_Output c) in
           case create path of
             Some e \<Rightarrow> Inl (CreateCSVFailed path e)
           | None \<Rightarrow> Inr (path, True))"

definition startConsumers :: "sdk \<Rightarrow> Topology \<Rightarrow> run_error option" where
  "startConsumers k t =
     firstErr (concat (map (\<lambda>r. let sl = t_slots t ! r in
       map (\<lambda>j. map_option (ConsumeFailed (sl_Conn sl) (sl_Ch sl)) (sdk_Consume k r j)) [0..<length (sl_ConsGoroutines sl)])
       (t_consumeCapable t)))"

record runEnv =
  re_nonce :: string
  re_now :: int
  re_runIDSeq :: nat
  re_zone :: int
  re_sdk :: sdk
  re_create :: "string \<Rightarrow> string option"
  re_plan :: "nat option list"
  re_fileClose :: "io_error option"
  re_warm :: warmEnd
  re_warmEvents :: "event list"
  re_cutoff :: nat
  re_phaseStart :: int
  re_phase :: phase
  re_ctxErr :: bool
  re_workerErrs :: "worker_error list"
  re_elapsed :: int

text \<open>The end of a run: closing the report and the file, and which error is returned.\<close>

definition finishRun :: "Config \<Rightarrow> runEnv \<Rightarrow> string \<Rightarrow> string \<times> bool \<Rightarrow> Topology \<Rightarrow> csvWriter \<Rightarrow> stats \<Rightarrow> (run_error + Result) option" where
  "finishRun c env runid file t csv st =
     (let csvErr = (case csv_close csv of
                      (Some e, _) \<Rightarrow> Some e
                    | (None, _) \<Rightarrow> if snd file then re_fileClose env else None) in
      if re_ctxErr env then Some (Inl Interrupted)
      else if re_workerErrs env \<noteq> [] then Some (Inl (WorkerFailures (re_workerErrs env)))
      else case csvErr of
             Some e \<Rightarrow> Some (Inl (WriteCSVFailed (fst file) e))
           | None \<Rightarrow> map_option (\<lambda>sm. Inr \<lparr>rs_RunID = runid, rs_CSVPath = fst file, rs_Summary = sm\<rparr>)
                       (buildSummary runid c t st (re_elapsed env)))"

text \<open>Warmup: the error it ends the run with, or the counters the measured phase starts from.\<close>

definition warmup :: "Config \<Rightarrow> runEnv \<Rightarrow> stats \<Rightarrow> (run_error + stats) option" where
  "warmup c env st0 =
     (let budget = wrap64 (cf_Publishers c * cf_Msgs c) in
      if \<not> (cf_Warmup c > 0 \<and> budget > 0) then Some (Inr st0)
      else do {
        (st1, _) \<leftarrow> runEvents (re_warmEvents env) st0;
        case re_warm env of
          WarmCtxDone \<Rightarrow> Some (Inl WarmupInterrupted)
        | WarmPubDone \<Rightarrow> Some (Inl (WarmupExceeded (cf_Warmup c) budget))
        | WarmElapsed \<Rightarrow>
            (case beginMeasured (re_cutoff env) st1 of
               (cutoff, st2) \<Rightarrow>
                 if int cutoff \<ge> budget then Some (Inl (WarmupExceeded (cf_Warmup c) budget)) else Some (Inr st2))
      })"

text \<open>
  What a run does once the clients are there; the trace ends with what it closes. A negative budget makes \<^verbatim>\<open>make\<close>
  panic, which is the result \<open>None\<close>, as is a panic of a worker.
\<close>

definition runWithClients :: "Config \<Rightarrow> runEnv \<Rightarrow> string \<Rightarrow> Topology \<Rightarrow> nat list \<Rightarrow> (run_error + Result) option \<times> act list" where
  "runWithClients c env runid t clients =
     (case openCSV (re_create env) c runid of
        Inl e \<Rightarrow> (Some (Inl e), closeClients clients)
      | Inr (path, isFile) \<Rightarrow>
          (let opened = (if isFile then [FileOpened path] else []); closed = (if isFile then [FileClosed path] else []);
               fin = opened @ closeClients clients @ closed in
           case newCSVWriter \<lparr>d_out = [], d_plan = re_plan env\<rparr> of
             None \<Rightarrow> (None, opened)
           | Some (Inl e) \<Rightarrow> (Some (Inl (WriteCSVFailed path e)), fin)
           | Some (Inr csv) \<Rightarrow>
               if wrap64 (cf_Publishers c * cf_Msgs c) < 0 then (None, opened)
               else
               (case startConsumers (re_sdk env) t of
                  Some e \<Rightarrow> (Some (Inl e), fin)
                | None \<Rightarrow>
                    (case warmup c env (newStats t (wrap64 (cf_Publishers c * cf_Msgs c))) of
                       None \<Rightarrow> (None, opened)
                     | Some (Inl e) \<Rightarrow> (Some (Inl e), fin)
                     | Some (Inr st) \<Rightarrow>
                         (case measuredPhase c (re_zone env) (re_phase env)
                                 \<lparr>sa_windowStart = re_phaseStart env, sa_csv = csv, sa_running = True\<rparr> st of
                            None \<Rightarrow> (None, opened)
                          | Some (rows, sa, st') \<Rightarrow>
                              (finishRun c env runid (path, isFile) t (sa_csv sa) st', fin))))))"

definition Run :: "Config \<Rightarrow> runEnv \<Rightarrow> (run_error + Result) option \<times> act list" where
  "Run c env =
     (case Validate c of
        Some e \<Rightarrow> (Some (Inl (ConfigRejected e)), [])
      | None \<Rightarrow>
          (case Build c of
             Inl e \<Rightarrow> (Some (Inl (ConfigRejected e)), [])
           | Inr t \<Rightarrow>
               (let runid = fst (newRunID (re_nonce env) (re_now env) (re_runIDSeq env)) in
                case setupFixture (re_sdk env) runid of
                  (Some e, acts) \<Rightarrow> (Some (Inl e), acts)
                | (None, acts) \<Rightarrow>
                    (case openClients (re_sdk env) 0 (t_Conns t) [] of
                       (Some e, _, acts') \<Rightarrow> (Some (Inl e), acts @ acts')
                     | (None, clients, acts') \<Rightarrow>
                         (case runWithClients c env runid t clients of
                            (r, acts'') \<Rightarrow> (r, acts @ acts' @ acts''))))))"

section \<open>Identifiers are unique\<close>

lemma formatUint_no: "2 \<le> base \<Longrightarrow> base \<le> 36 \<Longrightarrow> CHR ''-'' \<notin> set (formatUint base n)"
proof
  assume b: "2 \<le> base" "base \<le> 36" and m: "CHR ''-'' \<in> set (formatUint base n)"
  from formatUint_chars [OF m b(1)] b(2) obtain d where d: "d < 36" "CHR ''-'' = digit_char d" by (meson order_less_le_trans)
  then have "(of_char (digit_char d) :: nat) = 45" by (simp flip: d(2))
  moreover have "(of_char (digit_char d) :: nat) = (if d < 10 then 48 + d else 87 + d)" using d(1) by (simp add: digit_char_def)
  ultimately show False by (simp split: if_splits)
qed

text \<open>
  Two calls of \<^verbatim>\<open>newRunID\<close> in one process give different identifiers, at whatever times they are made, and so do the
  exchanges, queues and routing keys named after them.
\<close>

lemma run_ids_unique:
  assumes "0 \<le> now" "0 \<le> now'" "s \<noteq> s'"
  shows "fst (newRunID nonce now s) \<noteq> fst (newRunID nonce now' s') \<and>
    exchangeOf (fst (newRunID nonce now s)) \<noteq> exchangeOf (fst (newRunID nonce now' s')) \<and>
    queueOf (fst (newRunID nonce now s)) \<noteq> queueOf (fst (newRunID nonce now' s')) \<and>
    routingKeyOf (fst (newRunID nonce now s)) \<noteq> routingKeyOf (fst (newRunID nonce now' s'))"
proof -
  have "splitOn CHR ''-'' (fst (newRunID nonce now s)) = formatUint 36 (nat now) # formatUint 36 (s + 1) # splitOn CHR ''-'' nonce"
    if "0 \<le> now" for now s
    using that by (simp add: newRunID_def formatInt_def splitOn_append formatUint_no)
  from this [OF assms(1), of s] this [OF assms(2), of s'] have "fst (newRunID nonce now s) \<noteq> fst (newRunID nonce now' s')"
    using assms(3) by (auto simp: formatUint_inject)
  then show ?thesis by (simp add: exchangeOf_def queueOf_def routingKeyOf_def)
qed

section \<open>Everything opened is closed\<close>

definition balanced :: "act list \<Rightarrow> bool" where
  "balanced acts \<longleftrightarrow>
     (\<forall>i. count_list acts (ClientOpened i) = count_list acts (ClientClosed i)) \<and>
     (\<forall>f. count_list acts (FileOpened f) = count_list acts (FileClosed f))"

lemma count_closeClients [simp]:
  "count_list (closeClients cs) (ClientOpened i) = 0" "count_list (closeClients cs) (ClientClosed i) = count_list cs i"
  "count_list (closeClients cs) (FileOpened f) = 0" "count_list (closeClients cs) (FileClosed f) = 0"
  by (induction cs) (auto simp: closeClients_def)

lemma balanced_setup: "balanced (snd (setupFixture k runid))"
  by (simp add: balanced_def setupFixture_def split: option.split)

lemma openClients_count:
  "openClients k i cps clients = (r, cs, acts) \<Longrightarrow>
   count_list acts (ClientOpened n) + count_list clients n =
     (if r = None then count_list cs n else count_list acts (ClientClosed n)) \<and>
   (r = None \<longrightarrow> count_list acts (ClientClosed n) = 0) \<and> count_list acts (FileOpened f) = 0 \<and> count_list acts (FileClosed f) = 0"
proof (induction k i cps clients arbitrary: r cs acts rule: openClients.induct)
  case (2 k i cp cps clients)
  show ?case
  proof (cases "sdk_Connect k (Suc i)")
    case (Some e)
    with "2.prems" show ?thesis by auto
  next
    case None
    show ?thesis
    proof (cases "firstErr (map (sdk_OpenChannel k (Suc i)) [0..<length (cp_Channels cp)])")
      case (Some e)
      with None "2.prems" show ?thesis by (auto simp: Let_def)
    next
      case ok: None
      obtain r' cs' acts' where rec: "openClients k (Suc i) cps (clients @ [Suc i]) = (r', cs', acts')" by (metis prod_cases3)
      from "2.IH" [OF None refl ok rec] None ok rec "2.prems" show ?thesis by (auto simp: Let_def split: if_splits)
    qed
  qed
qed simp

lemma runWithClients_count:
  assumes "runWithClients c env runid t clients = (Some r, acts)"
  shows "count_list acts (ClientOpened n) = 0" "count_list acts (ClientClosed n) = count_list clients n"
    "count_list acts (FileOpened f) = count_list acts (FileClosed f)"
proof -
  from assms have
    "acts = closeClients clients \<or> (\<exists>path. acts = FileOpened path # closeClients clients @ [FileClosed path])"
    by (auto simp: runWithClients_def Let_def split: sum.splits option.splits prod.splits if_split_asm)
  then show "count_list acts (ClientOpened n) = 0" "count_list acts (ClientClosed n) = count_list clients n"
    "count_list acts (FileOpened f) = count_list acts (FileClosed f)"
    by auto
qed

lemma balanced_append: "balanced xs \<Longrightarrow> balanced ys \<Longrightarrow> balanced (xs @ ys)"
  by (simp add: balanced_def)

text \<open>
  C37. On every path through a run, whichever call fails, every client and every file that was opened is closed, as often
  as it was opened.
\<close>

theorem run_closes_everything:
  assumes "Run c env = (Some r, acts)"
  shows "balanced acts"
proof -
  let ?runid = "fst (newRunID (re_nonce env) (re_now env) (re_runIDSeq env))"
  obtain e1 a1 where 1: "setupFixture (re_sdk env) ?runid = (e1, a1)" by fastforce
  have b1: "balanced a1" using balanced_setup [of "re_sdk env" ?runid] 1 by simp
  show ?thesis
  proof (cases "Validate c = None \<and> e1 = None")
    case False
    then show ?thesis using assms 1 b1
      by (auto simp: Run_def Let_def balanced_def split: option.splits sum.splits prod.splits)
  next
    case True
    show ?thesis
    proof (cases "Build c")
      case (Inl e)
      with True assms show ?thesis by (auto simp: Run_def balanced_def)
    next
      case (Inr t)
      obtain e2 cs a2 where 2: "openClients (re_sdk env) 0 (t_Conns t) [] = (e2, cs, a2)" by (metis prod_cases3)
      note C = openClients_count [OF 2]
      show ?thesis
      proof (cases e2)
        case (Some e)
        have "balanced a2" using C Some by (simp add: balanced_def)
        moreover have "acts = a1 @ a2" using assms True Inr 1 2 Some by (simp add: Run_def Let_def)
        ultimately show ?thesis using b1 balanced_append by simp
      next
        case None
        obtain r3 a3 where 3: "runWithClients c env ?runid t cs = (r3, a3)" by fastforce
        have eq: "r3 = Some r" "acts = a1 @ a2 @ a3" using assms True Inr 1 2 None 3 by (simp_all add: Run_def Let_def)
        have "balanced (a2 @ a3)" using C None runWithClients_count [OF 3 [unfolded eq(1)]] by (simp add: balanced_def)
        then show ?thesis using b1 balanced_append by (simp add: eq(2))
      qed
    qed
  qed
qed

section \<open>The report adds up\<close>

text \<open>Workers only record.\<close>

fun fromWorker :: "event \<Rightarrow> bool" where
  "fromWorker (Sampled _ _) \<longleftrightarrow> False"
| "fromWorker _ \<longleftrightarrow> True"

lemma runEvents_no_rows: "\<forall>e \<in> set es. fromWorker e \<Longrightarrow> runEvents es st = Some (st', recs) \<Longrightarrow> recs = []"
proof (induction es arbitrary: st recs)
  case (Cons e es)
  then show ?case by (cases e) (auto split: option.splits)
qed simp

definition phase_ok :: "phase \<Rightarrow> bool" where
  "phase_ok ph \<longleftrightarrow>
     (\<forall>e \<in> set (concat (map fst (ph_segs ph @ ph_drainSegs ph @ ph_stopSegs ph)) @
                ph_pubEvents ph @ ph_drainEvents ph @ ph_lastEvents ph). fromWorker e)"

text \<open>
  A total \<open>T\<close> and its window counter \<open>W\<close>, which grow together; the rows of a phase carry what the window lost.
\<close>

locale window = tot: counter T "\<lambda>_. 0" g + win: counter W w g
  for T W :: "stats \<Rightarrow> nat" and w :: "intervalRecord \<Rightarrow> nat" and g :: "nat \<Rightarrow> event \<Rightarrow> nat" +
  assumes drops: "T (storeDrops i st) = T st" "W (storeDrops i st) = W st"
    and reset: "sampleWindow ts fin st = Some (rec, st') \<Longrightarrow> W st' = 0"
begin

definition bal :: "stats \<Rightarrow> intervalRecord list \<Rightarrow> stats \<Rightarrow> bool" where
  "bal st rows st' \<longleftrightarrow> T st' + W st = T st + W st' + sum_list (map w rows)"

lemma bal_trans: "bal st rows st' \<Longrightarrow> bal st' rows' st'' \<Longrightarrow> bal st (rows @ rows') st''"
  by (simp add: bal_def)

lemma bal_runEvents:
  assumes "runEvents es st = Some (st', recs)" shows "bal st recs st'"
  using tot.run [OF assms] win.run [OF assms] by (simp add: bal_def)

lemma bal_sample: "sampleWindow ts fin st = Some (rec, st') \<Longrightarrow> bal st [rec] st'"
  using bal_runEvents [of "[Sampled ts fin]" st st' "[rec]"] by simp

lemma bal_writeWindow: "writeWindow zone now sa st = Some (rows, sa', st') \<Longrightarrow> bal st rows st'"
  by (auto simp: writeWindow_def split: if_splits option.splits prod.splits dest: bal_sample) (simp_all add: bal_def)

lemma bal_ticks:
  "\<forall>e \<in> set (concat (map fst segs)). fromWorker e \<Longrightarrow> ticks zone segs sa st = Some (rows, sa', st') \<Longrightarrow> bal st rows st'"
proof (induction zone segs sa st arbitrary: rows rule: ticks.induct)
  case (2 zone es now segs sa st)
  from "2.prems"(2) obtain st1 recs rows1 sa1 st2 rows2 where
    r: "runEvents es st = Some (st1, recs)" "writeWindow zone now sa st1 = Some (rows1, sa1, st2)"
       "ticks zone segs sa1 st2 = Some (rows2, sa', st')" "rows = rows1 @ rows2"
    by (auto simp: bind_eq_Some_conv)
  have "recs = []" using "2.prems"(1) by (intro runEvents_no_rows [OF _ r(1)]) simp
  then have "bal st [] st1" using bal_runEvents [OF r(1)] by simp
  moreover have "bal st2 rows2 st'" using "2.IH" r "2.prems"(1) by simp
  ultimately show ?case using bal_trans bal_writeWindow [OF r(2)] r(4) by (metis append_Nil)
qed (simp add: bal_def)

lemma bal_lastWindow:
  "lastWindow zone now sa st = Some (rows, sa', st') \<Longrightarrow> bal st rows st' \<and> (sa_running sa \<longrightarrow> W st' = 0)"
  by (auto simp: lastWindow_def split: if_splits option.splits prod.splits dest: bal_sample reset) (simp_all add: bal_def)

end

interpretation pubWindow: window st_published st_pubW ir_Published "\<lambda>c e. length (pubOn c e)"
  by unfold_locales (auto simp: storeDrops_def sampleWindow_def split: option.splits prod.splits)

interpretation delWindow: window st_delivered st_delW ir_Delivered "\<lambda>c e. length (delOn c e)"
  by unfold_locales (auto simp: storeDrops_def sampleWindow_def split: option.splits prod.splits)

interpretation consWindow: window st_consumed st_consW ir_Consumed "\<lambda>c e. length (filter (Not \<circ> dup_of) (delOn c e))"
  by unfold_locales (auto simp: storeDrops_def sampleWindow_def split: option.splits prod.splits)

interpretation dupWindow: window st_duplicates st_dupW ir_Duplicates "\<lambda>c e. length (filter dup_of (delOn c e))"
  by unfold_locales (auto simp: storeDrops_def sampleWindow_def split: option.splits prod.splits)

text \<open>The sampler and its report: what was written, and that it only stops at an error.\<close>

definition sampler_inv :: "string \<Rightarrow> sampler \<Rightarrow> bool" where
  "sampler_inv tx sa \<longleftrightarrow> csv_inv tx (sa_csv sa) \<and> (sa_running sa \<or> cv_err (sa_csv sa) \<noteq> None)"

lemma writeInterval_inv:
  assumes "csv_inv tx c"
  shows "\<exists>e c'. writeInterval zone r c = Some (e, c') \<and> csv_inv (tx @ csvLine (csvRow zone r)) c' \<and> e = cv_err c'"
  using csv_inv_op [OF assms, where p = "OpInterval r" and zone = zone] by auto

lemma sampled_row: "sampleWindow ts fin st = Some (rec, st') \<Longrightarrow> ir_TsStart rec = ts"
  by (auto simp: sampleWindow_def split: option.splits prod.splits)

lemma sampler_inv_writeWindow:
  assumes inv: "sampler_inv tx sa" and w: "writeWindow zone now sa st = Some (rows, sa', st')"
  shows "sampler_inv (tx @ concat (map (csvLine \<circ> csvRow zone) rows)) sa' \<and>
    (sa_running sa' \<longrightarrow> sa_running sa \<and> map ir_TsStart rows = [sa_windowStart sa] \<and> sa_windowStart sa' = now)"
proof (cases "sa_running sa")
  case False
  with inv w show ?thesis by (simp add: writeWindow_def)
next
  case True
  with w obtain rec st1 where s: "sampleWindow (sa_windowStart sa) now st = Some (rec, st1)"
    by (auto simp: writeWindow_def split: option.splits)
  from inv have c0: "csv_inv tx (sa_csv sa)" by (simp add: sampler_inv_def)
  obtain e1 c1 where 1: "writeInterval zone rec (sa_csv sa) = Some (e1, c1)" "csv_inv (tx @ csvLine (csvRow zone rec)) c1" "e1 = cv_err c1"
    using writeInterval_inv [OF c0, of zone rec] by blast
  obtain e2 c2 where 2: "csv_flush c1 = Some (e2, c2)" "csv_inv (tx @ csvLine (csvRow zone rec)) c2" "e2 = cv_err c2"
    using csv_inv_flush [OF 1(2)] by blast
  show ?thesis
    using True w s 1 2 sampled_row [OF s]
    by (cases "cv_err c1"; cases "cv_err c2") (auto simp: writeWindow_def sampler_inv_def)
qed

lemma sampler_inv_ticks:
  "sampler_inv tx sa \<Longrightarrow> ticks zone segs sa st = Some (rows, sa', st') \<Longrightarrow>
   sampler_inv (tx @ concat (map (csvLine \<circ> csvRow zone) rows)) sa' \<and>
   (sa_running sa' \<longrightarrow> sa_running sa \<and> map ir_TsStart rows @ [sa_windowStart sa'] = sa_windowStart sa # map snd segs)"
proof (induction zone segs sa st arbitrary: tx rows rule: ticks.induct)
  case (2 zone es now segs sa st)
  from "2.prems"(2) obtain st1 recs rows1 sa1 st2 rows2 where
    r: "runEvents es st = Some (st1, recs)" "writeWindow zone now sa st1 = Some (rows1, sa1, st2)"
       "ticks zone segs sa1 st2 = Some (rows2, sa', st')" "rows = rows1 @ rows2"
    by (auto simp: bind_eq_Some_conv)
  note w = sampler_inv_writeWindow [OF "2.prems"(1) r(2)]
  have "sampler_inv ((tx @ concat (map (csvLine \<circ> csvRow zone) rows1)) @ concat (map (csvLine \<circ> csvRow zone) rows2)) sa' \<and>
    (sa_running sa' \<longrightarrow> sa_running sa1 \<and> map ir_TsStart rows2 @ [sa_windowStart sa'] = sa_windowStart sa1 # map snd segs)"
    using "2.IH" [OF r(1) refl r(2) refl refl conjunct1 [OF w] r(3)] .
  with w r(4) show ?case by (auto simp: comp_def)
qed auto

lemma sampler_inv_lastWindow:
  assumes inv: "sampler_inv tx sa" and w: "lastWindow zone now sa st = Some (rows, sa', st')"
  shows "csv_inv (tx @ concat (map (csvLine \<circ> csvRow zone) rows)) (sa_csv sa') \<and>
    (cv_err (sa_csv sa') = None \<longrightarrow> sa_running sa \<and> map ir_TsStart rows = [sa_windowStart sa])"
proof (cases "sa_running sa")
  case False
  with inv w show ?thesis by (simp add: lastWindow_def sampler_inv_def)
next
  case True
  with w obtain rec st1 where s: "sampleWindow (sa_windowStart sa) now st = Some (rec, st1)"
    by (auto simp: lastWindow_def split: option.splits)
  from inv have c0: "csv_inv tx (sa_csv sa)" by (simp add: sampler_inv_def)
  obtain e1 c1 where 1: "writeInterval zone rec (sa_csv sa) = Some (e1, c1)" "csv_inv (tx @ csvLine (csvRow zone rec)) c1" "e1 = cv_err c1"
    using writeInterval_inv [OF c0, of zone rec] by blast
  obtain e2 c2 where 2: "csv_flush c1 = Some (e2, c2)" "csv_inv (tx @ csvLine (csvRow zone rec)) c2" "e2 = cv_err c2"
    using csv_inv_flush [OF 1(2)] by blast
  show ?thesis using True w s 1 2 sampled_row [OF s] by (auto simp: lastWindow_def)
qed

lemma measuredPhase_steps:
  assumes "measuredPhase c zone ph sa st = Some (rows, sa', st')"
  obtains rows1 sa1 st1 st2 rs2 i rows2 sa2 st3 st4 rs4 rows3 sa3 st5 st6 rs6 rows4 where
    "ticks zone (ph_segs ph) sa st = Some (rows1, sa1, st1)" "runEvents (ph_pubEvents ph) st1 = Some (st2, rs2)"
    "drainPhase c (ph_ctxDone ph) (ph_polls ph) st2 = Some i"
    "ticks zone (ph_drainSegs ph) sa1 st2 = Some (rows2, sa2, st3)" "runEvents (ph_drainEvents ph) st3 = Some (st4, rs4)"
    "ticks zone (ph_stopSegs ph) sa2 (storeDrops i st4) = Some (rows3, sa3, st5)" "runEvents (ph_lastEvents ph) st5 = Some (st6, rs6)"
    "lastWindow zone (ph_end ph) sa3 st6 = Some (rows4, sa', st')" "rows = rows1 @ rows2 @ rows3 @ rows4"
  using assms by (auto simp: measuredPhase_def bind_eq_Some_conv)

text \<open>What the report holds when no error was met: all rows, one after the other without gaps.\<close>

lemma phase_report:
  assumes m: "measuredPhase c zone ph sa st = Some (rows, sa', st')" and inv: "sampler_inv tx sa"
  shows "csv_inv (tx @ concat (map (csvLine \<circ> csvRow zone) rows)) (sa_csv sa') \<and>
    (cv_err (sa_csv sa') = None \<longrightarrow>
       map ir_TsStart rows = sa_windowStart sa # map snd (ph_segs ph @ ph_drainSegs ph @ ph_stopSegs ph) \<and>
       (\<exists>sa3 st6 rows4. lastWindow zone (ph_end ph) sa3 st6 = Some (rows4, sa', st') \<and> sa_running sa3))"
proof (rule measuredPhase_steps [OF m])
  fix rows1 sa1 st1 st2 rs2 i rows2 sa2 st3 st4 rs4 rows3 sa3 st5 st6 rs6 rows4
  assume s: "ticks zone (ph_segs ph) sa st = Some (rows1, sa1, st1)"
    "ticks zone (ph_drainSegs ph) sa1 st2 = Some (rows2, sa2, st3)"
    "ticks zone (ph_stopSegs ph) sa2 (storeDrops i st4) = Some (rows3, sa3, st5)"
    "lastWindow zone (ph_end ph) sa3 st6 = Some (rows4, sa', st')" and rows: "rows = rows1 @ rows2 @ rows3 @ rows4"
  note 1 = sampler_inv_ticks [OF inv s(1)]
  note 2 = sampler_inv_ticks [OF conjunct1 [OF 1] s(2)]
  note 3 = sampler_inv_ticks [OF conjunct1 [OF 2] s(3)]
  note 4 = sampler_inv_lastWindow [OF conjunct1 [OF 3] s(4)]
  have "map ir_TsStart rows = sa_windowStart sa # map snd (ph_segs ph @ ph_drainSegs ph @ ph_stopSegs ph) \<and> sa_running sa3"
    if "cv_err (sa_csv sa') = None"
  proof -
    from that 4 have r4: "sa_running sa3" "map ir_TsStart rows4 = [sa_windowStart sa3]" by blast+
    with 3 have r3: "sa_running sa2" "map ir_TsStart rows3 @ [sa_windowStart sa3] = sa_windowStart sa2 # map snd (ph_stopSegs ph)" by blast+
    with 2 have r2: "sa_running sa1" "map ir_TsStart rows2 @ [sa_windowStart sa2] = sa_windowStart sa1 # map snd (ph_drainSegs ph)" by blast+
    with 1 have r1: "map ir_TsStart rows1 @ [sa_windowStart sa1] = sa_windowStart sa # map snd (ph_segs ph)" by blast
    have "map ir_TsStart rows = (map ir_TsStart rows1 @ [sa_windowStart sa1]) @ map snd (ph_drainSegs ph) @ map snd (ph_stopSegs ph)"
      using r2(2) r3(2) r4(2) rows by (simp del: append_assoc add: append_assoc [symmetric]) (simp add: append_Cons [symmetric] del: append_Cons)
    then show ?thesis using r1 r4(1) by simp
  qed
  then show ?thesis using 4 s(4) rows by auto
qed

context window
begin

lemma bal_phase:
  assumes ok: "phase_ok ph" and m: "measuredPhase c zone ph sa st = Some (rows, sa', st')"
  shows "bal st rows st'"
proof (rule measuredPhase_steps [OF m])
  fix rows1 sa1 st1 st2 rs2 i rows2 sa2 st3 st4 rs4 rows3 sa3 st5 st6 rs6 rows4
  assume s: "ticks zone (ph_segs ph) sa st = Some (rows1, sa1, st1)" "runEvents (ph_pubEvents ph) st1 = Some (st2, rs2)"
    "ticks zone (ph_drainSegs ph) sa1 st2 = Some (rows2, sa2, st3)" "runEvents (ph_drainEvents ph) st3 = Some (st4, rs4)"
    "ticks zone (ph_stopSegs ph) sa2 (storeDrops i st4) = Some (rows3, sa3, st5)" "runEvents (ph_lastEvents ph) st5 = Some (st6, rs6)"
    "lastWindow zone (ph_end ph) sa3 st6 = Some (rows4, sa', st')" and rows: "rows = rows1 @ rows2 @ rows3 @ rows4"
  have P: "\<forall>e \<in> set (ph_pubEvents ph). fromWorker e" "\<forall>e \<in> set (ph_drainEvents ph). fromWorker e"
    "\<forall>e \<in> set (ph_lastEvents ph). fromWorker e" "\<forall>e \<in> set (concat (map fst (ph_segs ph))). fromWorker e"
    "\<forall>e \<in> set (concat (map fst (ph_drainSegs ph))). fromWorker e" "\<forall>e \<in> set (concat (map fst (ph_stopSegs ph))). fromWorker e"
    using ok by (auto simp: phase_ok_def)
  have "bal st1 [] st2" "bal st3 [] st4" "bal st5 [] st6"
    using bal_runEvents [OF s(2)] bal_runEvents [OF s(4)] bal_runEvents [OF s(6)]
      runEvents_no_rows [OF P(1) s(2)] runEvents_no_rows [OF P(2) s(4)] runEvents_no_rows [OF P(3) s(6)] by simp_all
  moreover note bal_ticks [OF P(4) s(1)] bal_ticks [OF P(5) s(3)] bal_ticks [OF P(6) s(5)]
  moreover have "bal st6 rows4 st'" using bal_lastWindow [OF s(7)] by simp
  ultimately show ?thesis by (simp add: bal_def drops rows)
qed

lemma rows_total:
  assumes "phase_ok ph" "measuredPhase c zone ph sa st = Some (rows, sa', st')" "T st = W st" "sampler_inv tx sa" "cv_err (sa_csv sa') = None"
  shows "sum_list (map w rows) = T st'"
proof -
  from phase_report [OF assms(2,4)] assms(5) obtain sa3 st6 rows4 where
    "lastWindow zone (ph_end ph) sa3 st6 = Some (rows4, sa', st')" "sa_running sa3" by blast
  then have "W st' = 0" using bal_lastWindow by blast
  then show ?thesis using bal_phase [OF assms(1,2)] assms(3) by (simp add: bal_def)
qed

end

lemma csv_close_complete:
  assumes "csv_inv tx c" "csv_close c = (None, c', x)"
  shows "\<exists>d. x = Some d \<and> d_out d = tx" "cv_err c = None"
proof -
  from assms(1) obtain b where b: "cv_w c = Some b" "buf_inv tx b" "cv_err c = bw_err b" by (auto simp: csv_inv_def)
  then show err: "cv_err c = None" using assms(2) by (cases "bw_err b") (auto simp: csv_close_def)
  obtain e b' where fl: "bufio_Flush b = (e, b')" by fastforce
  note B = buf_inv_Flush [OF b(2) fl]
  have "e = None" "x = Some (bw_dst b')" using assms(2) b(1) err fl by (auto simp: csv_close_def)
  then show "\<exists>d. x = Some d \<and> d_out d = tx" using B by (simp add: buf_inv_def)
qed

lemma warmup_fresh:
  assumes "warmup c env (newStats t n) = Some (Inr st)"
  shows "st_published st = 0" "st_pubW st = 0" "st_delivered st = 0" "st_delW st = 0" "st_consumed st = 0" "st_consW st = 0"
    "st_duplicates st = 0" "st_dupW st = 0"
proof -
  have "st = newStats t n \<or> (\<exists>st1. st = snd (beginMeasured (re_cutoff env) st1))"
    using assms by (cases "re_warm env") (auto simp: warmup_def Let_def bind_eq_Some_conv beginMeasured_def split: if_splits)
  then show "st_published st = 0" "st_pubW st = 0" "st_delivered st = 0" "st_delW st = 0" "st_consumed st = 0" "st_consW st = 0"
    "st_duplicates st = 0" "st_dupW st = 0"
    by (auto simp: newStats_def beginMeasured_def resetAll_def)
qed

text \<open>What a successful run has been through.\<close>

lemma Run_Result:
  assumes "Run c env = (Some (Inr res), acts)"
  obtains t path isFile csv st rows sa st' where
    "Build c = Inr t" "newCSVWriter \<lparr>d_out = [], d_plan = re_plan env\<rparr> = Some (Inr csv)"
    "warmup c env (newStats t (wrap64 (cf_Publishers c * cf_Msgs c))) = Some (Inr st)"
    "measuredPhase c (re_zone env) (re_phase env) \<lparr>sa_windowStart = re_phaseStart env, sa_csv = csv, sa_running = True\<rparr> st = Some (rows, sa, st')"
    "finishRun c env (fst (newRunID (re_nonce env) (re_now env) (re_runIDSeq env))) (path, isFile) t (sa_csv sa) st' = Some (Inr res)"
  using assms
  by (auto simp: Run_def runWithClients_def Let_def split: option.splits sum.splits prod.splits if_split_asm)

lemma finishRun_Result:
  assumes "finishRun c env runid file t csv st = Some (Inr res)"
  shows "\<not> re_ctxErr env" "re_workerErrs env = []" "fst (csv_close csv) = None"
    "buildSummary runid c t st (re_elapsed env) = Some (rs_Summary res)" "rs_RunID res = runid"
  using assms by (auto simp: finishRun_def Let_def split: if_split_asm option.splits prod.splits)

lemma buildSummary_totals:
  "buildSummary runid c t st el = Some sm \<Longrightarrow>
   sm_Published sm = st_published st \<and> sm_Delivered sm = st_delivered st \<and> sm_Consumed sm = st_consumed st \<and>
   sm_Duplicates sm = st_duplicates st \<and> sm_Drops sm = st_drops st"
  by (auto simp: buildSummary_def totals_def Let_def split: option.splits)

text \<open>
  C38. A run that returns a result was not interrupted, no worker failed, and its report is complete: the file holds the header
  and all rows, the rows cover the measured phase without a gap, and the published, delivered, consumed and duplicate
  columns add up to the numbers of the summary.
\<close>

theorem run_report_totals:
  assumes "Run c env = (Some (Inr res), acts)" "phase_ok (re_phase env)"
  shows "\<not> re_ctxErr env \<and> re_workerErrs env = [] \<and>
    (\<exists>rows csv csv' d. csv_close csv = (None, csv', Some d) \<and> d_out d = reportText (re_zone env) (map OpInterval rows) \<and>
       map ir_TsStart rows = re_phaseStart env #
         map snd (ph_segs (re_phase env) @ ph_drainSegs (re_phase env) @ ph_stopSegs (re_phase env)) \<and>
       sum_list (map ir_Published rows) = sm_Published (rs_Summary res) \<and>
       sum_list (map ir_Delivered rows) = sm_Delivered (rs_Summary res) \<and>
       sum_list (map ir_Consumed rows) = sm_Consumed (rs_Summary res) \<and>
       sum_list (map ir_Duplicates rows) = sm_Duplicates (rs_Summary res))"
proof (rule Run_Result [OF assms(1)])
  fix t path isFile csv st rows sa st'
  let ?sa = "\<lparr>sa_windowStart = re_phaseStart env, sa_csv = csv, sa_running = True\<rparr>"
  assume new: "newCSVWriter \<lparr>d_out = [], d_plan = re_plan env\<rparr> = Some (Inr csv)"
    and wu: "warmup c env (newStats t (wrap64 (cf_Publishers c * cf_Msgs c))) = Some (Inr st)"
    and mp: "measuredPhase c (re_zone env) (re_phase env) ?sa st = Some (rows, sa, st')"
    and fin: "finishRun c env (fst (newRunID (re_nonce env) (re_now env) (re_runIDSeq env))) (path, isFile) t (sa_csv sa) st' = Some (Inr res)"
  note F = finishRun_Result [OF fin] and z = warmup_fresh [OF wu]
  have inv: "sampler_inv (csvLine csvColumns) ?sa" using newCSVWriter_inv [OF new] by (simp add: sampler_inv_def)
  note R = phase_report [OF mp inv]
  obtain csv' x where cl: "csv_close (sa_csv sa) = (None, csv', x)" using F(3) by (metis prod.collapse)
  note C = csv_close_complete [OF conjunct1 [OF R] cl]
  from C(1) obtain d where d: "x = Some d"
    "d_out d = csvLine csvColumns @ concat (map (csvLine \<circ> csvRow (re_zone env)) rows)" by blast
  have "d_out d = reportText (re_zone env) (map OpInterval rows)" by (simp add: d(2) reportText_def comp_def)
  moreover have "map ir_TsStart rows = re_phaseStart env # map snd (ph_segs (re_phase env) @ ph_drainSegs (re_phase env) @ ph_stopSegs (re_phase env))"
    using R C(2) by simp
  moreover note totals = pubWindow.rows_total [OF assms(2) mp _ inv C(2)] delWindow.rows_total [OF assms(2) mp _ inv C(2)]
    consWindow.rows_total [OF assms(2) mp _ inv C(2)] dupWindow.rows_total [OF assms(2) mp _ inv C(2)]
  ultimately show ?thesis
    using F(1,2) cl d(1) z buildSummary_totals [OF F(4)]
    by (intro conjI exI [of _ rows] exI [of _ "sa_csv sa"] exI [of _ csv'] exI [of _ d]) simp_all
qed

section \<open>Runs succeed\<close>

text \<open>A destination that never fails.\<close>

definition reliable :: "csvWriter \<Rightarrow> bool" where
  "reliable c \<longleftrightarrow> cv_err c = None \<and> (\<exists>b. cv_w c = Some b \<and> bw_err b = None \<and> d_plan (bw_dst b) = [])"

lemma reliable_Flush:
  "bw_err b = None \<Longrightarrow> d_plan (bw_dst b) = [] \<Longrightarrow>
   \<exists>b'. bufio_Flush b = (None, b') \<and> bw_err b' = None \<and> d_plan (bw_dst b') = []"
  by (simp add: bufio_Flush_def dst_Write_def)

lemma reliable_WriteString:
  "bw_err b = None \<Longrightarrow> d_plan (bw_dst b) = [] \<Longrightarrow>
   \<exists>b'. bufio_Write s b = (None, b') \<and> bw_err b' = None \<and> d_plan (bw_dst b') = []"
proof (induction s b rule: bufio_Write.induct)
  case (1 s b)
  let ?k = "bufSize - length (bw_buf b)"
  show ?case
  proof (cases "length s > ?k \<and> bw_buf b \<noteq> []")
    case True
    obtain b' where "bufio_Flush (b\<lparr>bw_buf := bw_buf b @ take ?k s\<rparr>) = (None, b')" "bw_err b' = None" "d_plan (bw_dst b') = []"
      using reliable_Flush [of "b\<lparr>bw_buf := bw_buf b @ take ?k s\<rparr>"] 1(2,3) by auto
    with 1 True show ?thesis by (subst bufio_Write.simps) (auto simp: Let_def)
  next
    case False
    with 1(2,3) show ?thesis by (subst bufio_Write.simps) (auto simp: dst_Write_def)
  qed
qed

lemma reliableE:
  assumes "reliable c" obtains b where "cv_err c = None" "cv_w c = Some b" "bw_err b = None" "d_plan (bw_dst b) = []"
  using assms unfolding reliable_def by blast

lemma reliable_writeLine: "reliable c \<Longrightarrow> \<exists>c'. writeLine l c = Some (None, c') \<and> reliable c'"
proof (erule reliableE)
  fix b assume b: "cv_err c = None" "cv_w c = Some b" "bw_err b = None" "d_plan (bw_dst b) = []"
  from reliable_WriteString [OF b(3,4), of l] b(1,2) show ?thesis by (auto simp: writeLine_def reliable_def)
qed

lemma reliable_writeInterval: "reliable c \<Longrightarrow> \<exists>c'. writeInterval zone r c = Some (None, c') \<and> reliable c'"
  using reliable_writeLine [of c "csvLine (csvRow zone r)"] by (auto simp: writeInterval_def reliable_def)

lemma reliable_flush: "reliable c \<Longrightarrow> \<exists>c'. csv_flush c = Some (None, c') \<and> reliable c'"
proof (erule reliableE)
  fix b assume b: "cv_err c = None" "cv_w c = Some b" "bw_err b = None" "d_plan (bw_dst b) = []"
  from reliable_Flush [OF b(3,4)] b(1,2) show ?thesis by (auto simp: csv_flush_def reliable_def)
qed

lemma reliable_new: "\<exists>c. newCSVWriter \<lparr>d_out = [], d_plan = []\<rparr> = Some (Inr c) \<and> reliable c"
proof -
  let ?c0 = "\<lparr>cv_w = Some \<lparr>bw_buf = [], bw_err = None, bw_dst = \<lparr>d_out = [], d_plan = []\<rparr>\<rparr>, cv_n = 0, cv_err = None\<rparr>"
  have "reliable ?c0" by (simp add: reliable_def)
  then obtain c1 where 1: "writeHeader ?c0 = Some (None, c1)" "reliable c1" using reliable_writeLine unfolding writeHeader_def by blast
  obtain c2 where "csv_flush c1 = Some (None, c2)" "reliable c2" using reliable_flush [OF 1(2)] by blast
  with 1 show ?thesis by (simp add: newCSVWriter_def)
qed

lemma reliable_close: "reliable c \<Longrightarrow> fst (csv_close c) = None"
proof (erule reliableE)
  fix b assume b: "cv_err c = None" "cv_w c = Some b" "bw_err b = None" "d_plan (bw_dst b) = []"
  from reliable_Flush [OF b(3,4)] b(1,2) show ?thesis by (auto simp: csv_close_def)
qed

lemma writeWindow_total:
  assumes "roles_present st" "reliable (sa_csv sa)"
  shows "\<exists>rows sa' st'. writeWindow zone now sa st = Some (rows, sa', st') \<and> reliable (sa_csv sa') \<and> same_shape st st'"
proof (cases "sa_running sa")
  case True
  obtain rec st1 where s: "sampleWindow (sa_windowStart sa) now st = Some (rec, st1)" using sampleWindow_total [OF assms(1)] by blast
  obtain c1 where 1: "writeInterval zone rec (sa_csv sa) = Some (None, c1)" "reliable c1" using reliable_writeInterval [OF assms(2)] by blast
  obtain c2 where "csv_flush c1 = Some (None, c2)" "reliable c2" using reliable_flush [OF 1(2)] by blast
  with 1 s True show ?thesis using sampleWindow_shape [OF s] by (simp add: writeWindow_def)
qed (use assms in \<open>simp add: writeWindow_def same_shape_def\<close>)

lemma lastWindow_total:
  assumes "roles_present st" "reliable (sa_csv sa)"
  shows "\<exists>rows sa' st'. lastWindow zone now sa st = Some (rows, sa', st') \<and> reliable (sa_csv sa') \<and> same_shape st st'"
proof (cases "sa_running sa")
  case True
  obtain rec st1 where s: "sampleWindow (sa_windowStart sa) now st = Some (rec, st1)" using sampleWindow_total [OF assms(1)] by blast
  obtain c1 where 1: "writeInterval zone rec (sa_csv sa) = Some (None, c1)" "reliable c1" using reliable_writeInterval [OF assms(2)] by blast
  obtain c2 where "csv_flush c1 = Some (None, c2)" "reliable c2" using reliable_flush [OF 1(2)] by blast
  with 1 s True show ?thesis using sampleWindow_shape [OF s] by (simp add: lastWindow_def)
qed (use assms in \<open>simp add: lastWindow_def same_shape_def\<close>)

text \<open>Counters made for a topology, and events on its channels.\<close>

definition stats_fit :: "Topology \<Rightarrow> stats \<Rightarrow> bool" where
  "stats_fit t st \<longleftrightarrow> roles_present st \<and> (\<forall>sl \<in> set (t_slots t). slot_ok st sl) \<and> length (t_publishCapable t) = length (st_perPubCh st)"

definition events_fit :: "Topology \<Rightarrow> event list \<Rightarrow> bool" where
  "events_fit t es \<longleftrightarrow> (\<forall>e \<in> set es. set (eventSlots e) \<subseteq> set (t_slots t))"

lemma stats_fit_shape: "stats_fit t st \<Longrightarrow> same_shape st st' \<Longrightarrow> stats_fit t st'"
  by (simp add: stats_fit_def same_shape_roles same_shape_slot) (simp add: same_shape_def)

lemma runEvents_shape: "runEvents es st = Some (st', recs) \<Longrightarrow> same_shape st st'"
proof (induction es arbitrary: st recs)
  case (Cons e es)
  from Cons.prems obtain st1 r1 r2 where 1: "stepEvent e st = Some (st1, r1)" "runEvents es st1 = Some (st', r2)"
    by (auto split: option.splits)
  from stepEvent_shape [OF 1(1)] Cons.IH [OF 1(2)] show ?case by (simp add: same_shape_def)
qed (simp add: same_shape_def)

lemma runEvents_fit:
  assumes "stats_fit t st" "events_fit t es" shows "\<exists>st' recs. runEvents es st = Some (st', recs) \<and> stats_fit t st'"
proof -
  have "\<exists>st' recs. runEvents es st = Some (st', recs)"
    using assms by (intro runEvents_total) (auto simp: stats_fit_def events_fit_def)
  then show ?thesis using runEvents_shape stats_fit_shape [OF assms(1)] by blast
qed

lemma ticks_fit:
  "stats_fit t st \<Longrightarrow> events_fit t (concat (map fst segs)) \<Longrightarrow> reliable (sa_csv sa) \<Longrightarrow>
   \<exists>rows sa' st'. ticks zone segs sa st = Some (rows, sa', st') \<and> reliable (sa_csv sa') \<and> stats_fit t st'"
proof (induction zone segs sa st rule: ticks.induct)
  case (2 zone es now segs sa st)
  have ev: "events_fit t es" "events_fit t (concat (map fst segs))" using "2.prems"(2) by (auto simp: events_fit_def)
  obtain st1 r1 where 1: "runEvents es st = Some (st1, r1)" "stats_fit t st1" using runEvents_fit [OF "2.prems"(1) ev(1)] by blast
  then have rp: "roles_present st1" by (simp add: stats_fit_def)
  obtain rows1 sa1 st2 where 2: "writeWindow zone now sa st1 = Some (rows1, sa1, st2)" "reliable (sa_csv sa1)" "same_shape st1 st2"
    using writeWindow_total [OF rp "2.prems"(3)] by blast
  obtain rows2 sa2 st3 where "ticks zone segs sa1 st2 = Some (rows2, sa2, st3)" "reliable (sa_csv sa2)" "stats_fit t st3"
    using "2.IH" [OF 1(1) refl 2(1) refl refl stats_fit_shape [OF 1(2) 2(3)] ev(2) 2(2)] by blast
  with 1 2 show ?case by simp
qed simp

lemma stats_fit_new: "Build c = Inr t \<Longrightarrow> stats_fit t (newStats t n)"
proof -
  assume B: "Build c = Inr t"
  have eq: "snd (beginMeasured 0 (newStats t n)) = newStats t n"
    by (simp add: beginMeasured_def resetAll_def newStats_def newLatencySet_setOf map_replicate comp_def)
  show ?thesis
    using Build_slot_ok [OF B, of _ 0 n] roles_present_new [of 0 t n] unfolding eq
    by (simp add: stats_fit_def newStats_def)
qed

lemma stats_fit_drops: "stats_fit t (storeDrops i st) = stats_fit t st"
  by (simp add: storeDrops_def stats_fit_def roles_present_def slot_ok_def)

definition phase_fit :: "Topology \<Rightarrow> phase \<Rightarrow> bool" where
  "phase_fit t ph \<longleftrightarrow>
     events_fit t (concat (map fst (ph_segs ph @ ph_drainSegs ph @ ph_stopSegs ph)) @
       ph_pubEvents ph @ ph_drainEvents ph @ ph_lastEvents ph)"

lemma drainLoop_ends: "\<exists>p \<in> set polls. po_late p \<Longrightarrow> \<exists>r. drainLoop ack polls = Some r"
  by (induction polls) auto

lemma measuredPhase_fit:
  assumes "stats_fit t st" "phase_fit t ph" "reliable (sa_csv sa)" "\<exists>p \<in> set (ph_polls ph). po_late p"
  shows "\<exists>rows sa' st'. measuredPhase c zone ph sa st = Some (rows, sa', st') \<and> reliable (sa_csv sa') \<and> stats_fit t st'"
proof -
  have E: "events_fit t (concat (map fst (ph_segs ph)))" "events_fit t (concat (map fst (ph_drainSegs ph)))"
    "events_fit t (concat (map fst (ph_stopSegs ph)))" "events_fit t (ph_pubEvents ph)" "events_fit t (ph_drainEvents ph)"
    "events_fit t (ph_lastEvents ph)" using assms(2) by (auto simp: phase_fit_def events_fit_def)
  obtain rows1 sa1 st1 where 1: "ticks zone (ph_segs ph) sa st = Some (rows1, sa1, st1)" "reliable (sa_csv sa1)" "stats_fit t st1"
    using ticks_fit [OF assms(1) E(1) assms(3)] by blast
  obtain st2 r2 where 2: "runEvents (ph_pubEvents ph) st1 = Some (st2, r2)" "stats_fit t st2" using runEvents_fit [OF 1(3) E(4)] by blast
  have "\<exists>i. drainPhase c (ph_ctxDone ph) (ph_polls ph) st2 = Some i"
    using drainLoop_ends [OF assms(4), of "cf_Ack c"] by (auto simp: drainPhase_def)
  then obtain i where i: "drainPhase c (ph_ctxDone ph) (ph_polls ph) st2 = Some i" ..
  obtain rows2 sa2 st3 where 3: "ticks zone (ph_drainSegs ph) sa1 st2 = Some (rows2, sa2, st3)" "reliable (sa_csv sa2)" "stats_fit t st3"
    using ticks_fit [OF 2(2) E(2) 1(2)] by blast
  obtain st4 r4 where 4: "runEvents (ph_drainEvents ph) st3 = Some (st4, r4)" "stats_fit t st4" using runEvents_fit [OF 3(3) E(5)] by blast
  obtain rows3 sa3 st5 where 5: "ticks zone (ph_stopSegs ph) sa2 (storeDrops i st4) = Some (rows3, sa3, st5)" "reliable (sa_csv sa3)" "stats_fit t st5"
    using ticks_fit [of t "storeDrops i st4", OF _ E(3) 3(2)] 4(2) stats_fit_drops by blast
  obtain st6 r6 where 6: "runEvents (ph_lastEvents ph) st5 = Some (st6, r6)" "stats_fit t st6" using runEvents_fit [OF 5(3) E(6)] by blast
  then have rp: "roles_present st6" by (simp add: stats_fit_def)
  obtain rows4 sa4 st7 where 7: "lastWindow zone (ph_end ph) sa3 st6 = Some (rows4, sa4, st7)" "reliable (sa_csv sa4)" "same_shape st6 st7"
    using lastWindow_total [OF rp 5(2)] by blast
  show ?thesis using 1 2 i 3 4 5 6 7 stats_fit_shape [OF 6(2) 7(3)] by (simp add: measuredPhase_def)
qed

lemma those_Some: "(\<And>x. x \<in> set xs \<Longrightarrow> f x \<noteq> None) \<Longrightarrow> \<exists>ys. those (map f xs) = Some ys"
  by (induction xs) (auto split: option.splits)

lemma buildSummary_total:
  assumes "stats_fit t st" shows "\<exists>sm. buildSummary runid c t st el = Some sm"
proof -
  have "\<exists>ys. those (map (roleRow st) roleKeys) = Some ys"
    using assms by (intro those_Some) (auto simp: roleRow_def stats_fit_def roles_present_def)
  moreover have "\<exists>ys. those (map (byPubChRow (Seconds el) t st) (enumerate 0 (t_publishCapable t))) = Some ys"
    using assms by (intro those_Some) (auto simp: byPubChRow_def stats_fit_def in_set_enumerate_eq split: prod.splits)
  ultimately show ?thesis by (auto simp: buildSummary_def totals_def Let_def)
qed

text \<open>An SDK that answers every call, with a disk that takes every byte.\<close>

definition sdk_answers :: "sdk \<Rightarrow> bool" where
  "sdk_answers k \<longleftrightarrow>
     (\<forall>i. sdk_Connect k i = None) \<and> (\<forall>i j. sdk_OpenChannel k i j = None) \<and> sdk_DeclareExchange k = None \<and>
     sdk_DeclareQueue k = None \<and> sdk_BindQueue k = None \<and> (\<forall>i j. sdk_Consume k i j = None)"

definition healthy :: "runEnv \<Rightarrow> bool" where
  "healthy env \<longleftrightarrow>
     sdk_answers (re_sdk env) \<and> (\<forall>p. re_create env p = None) \<and> re_plan env = [] \<and> re_fileClose env = None \<and>
     \<not> re_ctxErr env \<and> re_workerErrs env = [] \<and> (\<exists>p \<in> set (ph_polls (re_phase env)). po_late p)"

lemma firstErr_None: "\<forall>x \<in> set xs. x = None \<Longrightarrow> firstErr xs = None"
  by (induction xs rule: firstErr.induct) auto

lemma openClients_answers: "sdk_answers k \<Longrightarrow> \<exists>cs acts. openClients k i cps clients = (None, cs, acts)"
proof (induction k i cps clients rule: openClients.induct)
  case (2 k i cp cps clients)
  then have "sdk_Connect k (Suc i) = None"
    "firstErr (map (sdk_OpenChannel k (Suc i)) [0..<length (cp_Channels cp)]) = None"
    by (auto simp: sdk_answers_def intro!: firstErr_None)
  with 2 show ?case by (auto simp: Let_def)
qed simp

lemma healthy_run:
  assumes "Build c = Inr t" "0 \<le> wrap64 (cf_Publishers c * cf_Msgs c)" "cf_Warmup c = 0" "healthy env" "phase_fit t (re_phase env)"
  shows "\<exists>res acts. Run c env = (Some (Inr res), acts)"
proof -
  let ?runid = "fst (newRunID (re_nonce env) (re_now env) (re_runIDSeq env))"
  let ?st = "newStats t (wrap64 (cf_Publishers c * cf_Msgs c))"
  have V: "Validate c = None" using assms(1) by (auto simp: Build_def split: option.splits)
  have h: "sdk_answers (re_sdk env)" "\<And>p. re_create env p = None" "re_plan env = []" using assms(4) by (simp_all add: healthy_def)
  obtain acts where s: "setupFixture (re_sdk env) ?runid = (None, acts)" using h(1) by (simp add: setupFixture_def sdk_answers_def)
  obtain cs acts' where o: "openClients (re_sdk env) 0 (t_Conns t) [] = (None, cs, acts')" using openClients_answers [OF h(1)] by blast
  have "\<exists>path isFile. openCSV (re_create env) c ?runid = Inr (path, isFile)" by (auto simp: openCSV_def Let_def h(2))
  then obtain path isFile where f: "openCSV (re_create env) c ?runid = Inr (path, isFile)" by blast
  obtain csv where n: "newCSVWriter \<lparr>d_out = [], d_plan = re_plan env\<rparr> = Some (Inr csv)" "reliable csv" using reliable_new h(3) by auto
  have k: "startConsumers (re_sdk env) t = None"
    unfolding startConsumers_def using h(1) by (intro firstErr_None) (auto simp: sdk_answers_def Let_def)
  have w: "warmup c env ?st = Some (Inr ?st)" using assms(3) by (simp add: warmup_def Let_def)
  have late: "\<exists>p \<in> set (ph_polls (re_phase env)). po_late p" using assms(4) by (simp add: healthy_def)
  let ?sa = "\<lparr>sa_windowStart = re_phaseStart env, sa_csv = csv, sa_running = True\<rparr>"
  have "\<exists>rows sa st'. measuredPhase c (re_zone env) (re_phase env) ?sa ?st = Some (rows, sa, st') \<and> reliable (sa_csv sa) \<and> stats_fit t st'"
    by (rule measuredPhase_fit [OF stats_fit_new [OF assms(1)] assms(5)]) (use n(2) late in simp_all)
  then obtain rows sa st' where m: "measuredPhase c (re_zone env) (re_phase env) ?sa ?st = Some (rows, sa, st')"
    "reliable (sa_csv sa)" "stats_fit t st'" by blast
  obtain sm where b: "buildSummary ?runid c t st' (re_elapsed env) = Some sm" using buildSummary_total [OF m(3)] by blast
  have "\<exists>res. finishRun c env ?runid (path, isFile) t (sa_csv sa) st' = Some (Inr res)"
    using assms(4) reliable_close [OF m(2)] b by (auto simp: finishRun_def Let_def healthy_def split: prod.splits)
  then show ?thesis
    using V assms(1,2) s o f n(1) k w m(1) by (auto simp: Run_def runWithClients_def Let_def)
qed

definition smallSdk :: sdk where
  "smallSdk = \<lparr>sdk_Connect = (\<lambda>_. None), sdk_OpenChannel = (\<lambda>_ _. None), sdk_DeclareExchange = None, sdk_DeclareQueue = None,
     sdk_BindQueue = None, sdk_Consume = (\<lambda>_ _. None)\<rparr>"

text \<open>A message published in the first window, and delivered while the workers are stopped.\<close>

definition smallPhase :: "channelSlot \<Rightarrow> phase" where
  "smallPhase sl = \<lparr>ph_segs = [([Published sl 1 5], 1000000)], ph_pubEvents = [], ph_ctxDone = False,
     ph_polls = [\<lparr>po_stats = newStats smallTopology 1, po_late = True, po_ctxDone = False\<rparr>],
     ph_drainSegs = [], ph_drainEvents = [], ph_stopSegs = [], ph_lastEvents = [Delivered sl 1 7 False], ph_end = 2000000\<rparr>"

definition smallEnv :: "channelSlot \<Rightarrow> runEnv" where
  "smallEnv sl = \<lparr>re_nonce = ''ab'', re_now = 7, re_runIDSeq = 0, re_zone = 0, re_sdk = smallSdk, re_create = (\<lambda>_. None), re_plan = [],
     re_fileClose = None, re_warm = WarmElapsed, re_warmEvents = [], re_cutoff = 0, re_phaseStart = 0, re_phase = smallPhase sl,
     re_ctxErr = False, re_workerErrs = [], re_elapsed = 2000000\<rparr>"

lemma small_healthy: "healthy (smallEnv sl)" "phase_ok (re_phase (smallEnv sl))"
  "sl \<in> set (t_slots t) \<Longrightarrow> phase_fit t (re_phase (smallEnv sl))"
  by (simp_all add: healthy_def sdk_answers_def smallEnv_def smallSdk_def smallPhase_def phase_ok_def phase_fit_def events_fit_def)

lemma small_build: "\<exists>t. Build DefaultConfig = Inr t \<and> t_slots t ! 0 \<in> set (t_slots t)"
proof -
  have v: "map_sum id (\<lambda>t. length (t_slots t)) (Build DefaultConfig) = Inr 1" by code_simp
  then obtain t where t: "Build DefaultConfig = Inr t" by (cases "Build DefaultConfig") simp_all
  with v show ?thesis by (auto intro!: nth_mem)
qed

lemma small_budget: "0 \<le> wrap64 (cf_Publishers DefaultConfig * cf_Msgs DefaultConfig)" "cf_Warmup DefaultConfig = 0"
  by (simp_all add: DefaultConfig_def wrap64_def)

lemma small_run: "\<exists>sl res acts. Run DefaultConfig (smallEnv sl) = (Some (Inr res), acts)"
proof -
  obtain t where t: "Build DefaultConfig = Inr t" "t_slots t ! 0 \<in> set (t_slots t)" using small_build by blast
  show ?thesis using healthy_run [OF t(1) small_budget small_healthy(1) small_healthy(3) [OF t(2)]] by blast
qed

theorem run_closes_everything_witness: "\<exists>sl r acts. Run DefaultConfig (smallEnv sl) = (Some r, acts) \<and> balanced acts"
  using small_run run_closes_everything by blast

theorem run_report_totals_witness:
  "\<exists>sl res acts. Run DefaultConfig (smallEnv sl) = (Some (Inr res), acts) \<and>
     (\<exists>rows :: intervalRecord list. sum_list (map ir_Published rows) = sm_Published (rs_Summary res) \<and> map ir_TsStart rows = [0, 1000000])"
proof -
  obtain sl res acts where r: "Run DefaultConfig (smallEnv sl) = (Some (Inr res), acts)" using small_run by blast
  from run_report_totals [OF r small_healthy(2)] obtain rows :: "intervalRecord list" where
    "sum_list (map ir_Published rows) = sm_Published (rs_Summary res)"
    "map ir_TsStart rows = re_phaseStart (smallEnv sl) # map snd (ph_segs (re_phase (smallEnv sl)) @
       ph_drainSegs (re_phase (smallEnv sl)) @ ph_stopSegs (re_phase (smallEnv sl)))"
    by (elim conjE exE) (rule that; assumption)
  then have "sum_list (map ir_Published rows) = sm_Published (rs_Summary res) \<and> map ir_TsStart rows = [0, 1000000]"
    by (simp add: smallEnv_def smallPhase_def)
  with r show ?thesis by (intro exI [of _ sl] exI [of _ res] exI [of _ acts] conjI exI [of _ rows]) simp_all
qed



end
