(* ===== verification/BenchMain.thy ===== *)
theory BenchMain
  imports Engine GoFlag
begin

text \<open>
  The benchmark command: \<^verbatim>\<open>cmd/benchmark/main.go\<close>. The flags are parsed as the package \<^verbatim>\<open>flag\<close> does it
  (\<open>GoFlag\<close>), the configuration is validated, a run is made (\<open>Engine\<close>) and its summary goes to one of the two output
  streams. The property is that the configuration a summary records is enough to repeat the run: written as a command line
  it parses to the same configuration, durations included.
\<close>

section \<open>Durations read back\<close>

lemma decimal_zeros: "decimal a (replicate k CHR ''0'') = a * 10 ^ k"
  by (induction k arbitrary: a) (simp_all add: digit_val_def mult.commute mult.left_commute)

lemma length_formatUint: "n < 10 ^ p \<Longrightarrow> 0 < p \<Longrightarrow> length (formatUint 10 n) \<le> p"
proof (induction p arbitrary: n)
  case (Suc p)
  show ?case
  proof (cases "n < 10")
    case True
    then show ?thesis by (subst formatUint.simps) simp
  next
    case False
    then have "0 < p" using Suc.prems by (cases p) auto
    moreover have "n div 10 < 10 ^ p" using Suc.prems(1) by (simp add: div_less_iff_less_mult mult.commute)
    ultimately have "length (formatUint 10 (n div 10)) \<le> p" by (rule Suc.IH [rotated])
    with False show ?thesis by (subst formatUint.simps) simp
  qed
qed simp

text \<open>The digits after the point: what they stand for and that no more than needed are written.\<close>

lemma fmtFrac_digits:
  assumes "0 < p"
  obtains ds where "fmtFrac p v = (if ds = [] then [] else CHR ''.'' # ds)" "list_all is_digit ds" "length ds \<le> p"
    "decimal 0 ds * 10 ^ (p - length ds) = v mod 10 ^ p"
proof -
  define s where "s = padLeft p (formatUint 10 (v mod 10 ^ p))"
  define ds where "ds = rev (dropWhile (\<lambda>c. c = CHR ''0'') (rev s))"
  define zs where "zs = rev (takeWhile (\<lambda>c. c = CHR ''0'') (rev s))"
  have len: "length s = p" using length_formatUint [of "v mod 10 ^ p" p] assms by (simp add: s_def padLeft_def)
  have dig: "list_all is_digit s" using formatUint_digits [of "v mod 10 ^ p"] by (auto simp: s_def padLeft_def list_all_iff is_digit_def)
  have split: "s = ds @ zs" unfolding ds_def zs_def rev_append [symmetric] takeWhile_dropWhile_id by simp
  have "replicate (length zs) CHR ''0'' = zs"
    by (rule replicate_length_same) (auto simp: zs_def dest: set_takeWhileD)
  moreover have "length zs = p - length ds" using len split by simp
  ultimately have zs: "zs = replicate (p - length ds) CHR ''0''" by simp
  have "decimal 0 s = v mod 10 ^ p" by (simp add: s_def padLeft_def decimal_zeros decimal_formatUint)
  then have "decimal 0 ds * 10 ^ (p - length ds) = v mod 10 ^ p" unfolding split zs by (simp add: decimal_zeros)
  moreover have "list_all is_digit ds" "length ds \<le> p" using dig len by (simp_all add: split)
  moreover have "fmtFrac p v = (if ds = [] then [] else CHR ''.'' # ds)" by (simp add: fmtFrac_def Let_def ds_def s_def)
  ultimately show ?thesis by (intro that [of ds]) auto
qed

text \<open>One term: an integer, a fraction and a unit.\<close>

definition unitText :: "string \<Rightarrow> bool" where
  "unitText u \<longleftrightarrow> u \<noteq> [] \<and> (\<forall>c \<in> set u. c \<noteq> CHR ''.'' \<and> \<not> is_digit c)"

lemma takeWhile_unit:
  assumes "unitText u" "rest = [] \<or> is_digit (hd rest)"
  shows "takeWhile (\<lambda>c. c \<noteq> CHR ''.'' \<and> \<not> is_digit c) (u @ rest) = u"
  using assms by (cases rest) (auto simp: unitText_def takeWhile_eq_all_conv takeWhile_append2)

lemma durationTerm_plain:
  assumes u: "unitText u" "unitOf u = Some U" and r: "rest = [] \<or> is_digit (hd rest)" and n: "n \<le> 2 ^ 63 div U"
  shows "durationTerm (formatUint 10 n @ u @ rest) = Some (n * U, rest)"
proof -
  have hd_u: "u \<noteq> []" "\<not> is_digit (hd u)" "hd u \<noteq> CHR ''.''" using u(1) by (cases u; auto simp: unitText_def)+
  have "n \<le> 2 ^ 63" using n by (meson div_le_dividend le_trans)
  then have L: "leadingInt 0 (formatUint 10 n @ u @ rest) = Some (n, u @ rest)"
    using leadingInt_digits [OF formatUint_digits, of 0 n "u @ rest"] hd_u by (simp add: decimal_formatUint)
  show ?thesis using n u(2) hd_u by (simp add: durationTerm_def L Let_def takeWhile_unit [OF u(1) r] not_less)
qed

lemma decimal_bound: "list_all is_digit s \<Longrightarrow> decimal a s < (a + 1) * 10 ^ length s"
proof (induction s arbitrary: a)
  case (Cons c s)
  then have "digit_val c < 10" using digitOf_digit by auto
  then have "10 * a + digit_val c + 1 \<le> (a + 1) * 10" by simp
  then have "(10 * a + digit_val c + 1) * 10 ^ length s \<le> (a + 1) * 10 * 10 ^ length s" by (rule mult_le_mono1)
  moreover have "decimal (10 * a + digit_val c) s < (10 * a + digit_val c + 1) * 10 ^ length s" using Cons by simp
  ultimately have "decimal (10 * a + digit_val c) s < (a + 1) * 10 * 10 ^ length s" by linarith
  then show ?case by (simp add: algebra_simps)
qed simp

text \<open>The double arithmetic of the fraction is exact: every product stays below \<open>2 ^ 53\<close>.\<close>

lemma fraction_exact:
  assumes "k \<le> p" "p \<le> 9" "f < 10 ^ k"
  shows "nat \<lfloor>fl (fl (of_nat f) * fl (of_nat (10 ^ p) / 10 ^ k))\<rfloor> = f * 10 ^ (p - k)"
proof -
  have k9: "(10::nat) ^ k \<le> 10 ^ 9" "(10::nat) ^ p \<le> 10 ^ 9" using assms by (intro power_increasing; simp)+
  have "f < 2 ^ 53" using assms(3) k9(1) by simp
  then have f: "fl (of_nat f) = of_nat f" by (rule fl_of_nat)
  have "of_nat (10 ^ p) / (10::rat) ^ k = 10 ^ (p - k)" using assms(1) by (simp add: power_diff)
  then have u: "fl (of_nat (10 ^ p) / 10 ^ k) = 10 ^ (p - k)" using pow10_exact [of "p - k"] assms(2) by simp
  have "f * 10 ^ (p - k) < 10 ^ k * 10 ^ (p - k)" using assms(3) by simp
  also have "\<dots> = 10 ^ p" using assms(1) by (simp flip: power_add)
  finally have "f * 10 ^ (p - k) < 2 ^ 53" using k9(2) by simp
  from fl_of_nat [OF this] have "fl (of_nat f * 10 ^ (p - k)) = of_nat (f * 10 ^ (p - k))" by simp
  then show ?thesis unfolding f u by (simp only: floor_of_nat nat_int)
qed

lemma durationTerm_frac:
  assumes u: "unitText u" "unitOf u = Some (10 ^ p)" "p \<le> 9" and r: "rest = [] \<or> is_digit (hd rest)"
    and ds: "list_all is_digit ds" "ds \<noteq> []" "length ds \<le> p" and n: "n * 10 ^ p + decimal 0 ds * 10 ^ (p - length ds) \<le> 2 ^ 63"
  shows "durationTerm (formatUint 10 n @ CHR ''.'' # ds @ u @ rest) = Some (n * 10 ^ p + decimal 0 ds * 10 ^ (p - length ds), rest)"
proof -
  have hd_u: "u @ rest = [] \<or> \<not> is_digit (hd (u @ rest))" using u(1) by (cases u; auto simp: unitText_def)
  have np: "n * 10 ^ p \<le> 2 ^ 63" using n by linarith
  have "n * 1 \<le> n * 10 ^ p" by (rule mult_le_mono2) simp
  then have "n \<le> 2 ^ 63" using np by linarith
  then have L: "leadingInt 0 (formatUint 10 n @ CHR ''.'' # ds @ u @ rest) = Some (n, CHR ''.'' # ds @ u @ rest)"
    using leadingInt_digits [OF formatUint_digits, of 0 n "CHR ''.'' # ds @ u @ rest"] by (simp add: decimal_formatUint is_digit_def)
  have f: "decimal 0 ds < 10 ^ length ds" using decimal_bound [OF ds(1), of 0] by simp
  moreover have "(10::nat) ^ length ds \<le> 10 ^ 9" using ds(3) u(3) by (intro power_increasing) auto
  ultimately have "decimal 0 ds < 10 ^ 15" by simp
  then have F: "leadingFraction 0 1 False (ds @ u @ rest) = (decimal 0 ds, 10 ^ length ds, u @ rest)"
    using leadingFraction_digits [OF ds(1), of 0 0 "u @ rest"] ds(3) u(3) hd_u by simp
  have E: "nat \<lfloor>fl (fl (of_nat (decimal 0 ds)) * fl (of_nat (10 ^ p) / 10 ^ length ds))\<rfloor> = decimal 0 ds * 10 ^ (p - length ds)"
    by (rule fraction_exact [OF ds(3) u(3) f])
  have le: "\<not> n > 2 ^ 63 div 10 ^ p" using np by (simp add: less_eq_div_iff_mult_less_eq not_less)
  show ?thesis unfolding durationTerm_def L
    using n ds(2) le by (simp add: F Let_def takeWhile_unit [OF u(1) r] u(2) E del: of_nat_power)
qed

lemma durationTerm_fmtFrac:
  assumes "unitText u" "unitOf u = Some (10 ^ p)" "0 < p" "p \<le> 9" "rest = [] \<or> is_digit (hd rest)" "n * 10 ^ p + v mod 10 ^ p \<le> 2 ^ 63"
  shows "durationTerm (formatUint 10 n @ fmtFrac p v @ u @ rest) = Some (n * 10 ^ p + v mod 10 ^ p, rest)"
proof -
  from fmtFrac_digits [OF assms(3), of v] obtain ds where ds: "list_all is_digit ds" "length ds \<le> p"
    "decimal 0 ds * 10 ^ (p - length ds) = v mod 10 ^ p" "fmtFrac p v = (if ds = [] then [] else CHR ''.'' # ds)" by metis
  show ?thesis
  proof (cases "ds = []")
    case True
    then have 0: "v mod 10 ^ p = 0" using ds(3) by simp
    then have "n \<le> 2 ^ 63 div 10 ^ p" using assms(6) by (simp add: less_eq_div_iff_mult_less_eq)
    from durationTerm_plain [OF assms(1,2,5) this] True 0 ds(4) show ?thesis by simp
  next
    case False
    with durationTerm_frac [OF assms(1,2,4,5) ds(1) False ds(2), of n] assms(6) ds show ?thesis by simp
  qed
qed

lemma formatUint_starts: "formatUint 10 n @ t \<noteq> [] \<and> is_digit (hd (formatUint 10 n @ t))"
  using formatUint_digits [of n] by (cases "formatUint 10 n") auto

lemma durationSum_step:
  "durationTerm (formatUint 10 n @ t) = Some (v, rest) \<Longrightarrow> d + v \<le> 2 ^ 63 \<Longrightarrow>
   durationSum (formatUint 10 n @ t) d = durationSum rest (d + v)"
  using formatUint_starts [of n t] by (subst durationSum.simps) (simp add: Let_def)

lemma durationSum_Nil [simp]: "durationSum [] d = Some d"
  by (simp add: durationSum.simps)

lemma unit_texts:
  "unitText ''ns'' \<and> unitText (microSign @ ''s'') \<and> unitText ''ms'' \<and> unitText ''s'' \<and> unitText ''m'' \<and> unitText ''h''"
  "unitOf (microSign @ ''s'') = Some (10 ^ 3)" "unitOf ''ms'' = Some (10 ^ 6)" "unitOf ''s'' = Some (10 ^ 9)"
  by (simp_all add: unitText_def unitOf_def microSign_def is_digit_def)

text \<open>The texts of \<^verbatim>\<open>Duration.String\<close>: below a second with one unit, otherwise hours, minutes and seconds.\<close>

lemma durationSum_frac:
  assumes "unitText x" "unitOf x = Some (10 ^ p)" "0 < p" "p \<le> 9" "d + (n * 10 ^ p + v mod 10 ^ p) \<le> 2 ^ 63"
  shows "durationSum (formatUint 10 n @ fmtFrac p v @ x) d = Some (d + (n * 10 ^ p + v mod 10 ^ p))"
proof -
  have le: "n * 10 ^ p + v mod 10 ^ p \<le> 2 ^ 63" using assms(5) by (rule add_leD2)
  have "durationTerm (formatUint 10 n @ fmtFrac p v @ x) = Some (n * 10 ^ p + v mod 10 ^ p, [])"
    using durationTerm_fmtFrac [OF assms(1-4) _ le, of "[]"] by simp
  from durationSum_step [OF this assms(5)] show ?thesis by simp
qed

lemma durationSum_whole:
  assumes "unitText x" "unitOf x = Some U" "0 < U" "rest = [] \<or> is_digit (hd rest)" "d + n * U \<le> 2 ^ 63"
  shows "durationSum (formatUint 10 n @ x @ rest) d = durationSum rest (d + n * U)"
proof -
  have "n * U \<le> 2 ^ 63" using assms(5) by (rule add_leD2)
  then have "n \<le> 2 ^ 63 div U" using assms(3) by (simp add: less_eq_div_iff_mult_less_eq)
  from durationSum_step [OF durationTerm_plain [OF assms(1,2,4) this] assms(5)] show ?thesis .
qed

lemma durationSum_hms:
  assumes r: "v mod 10 ^ 9 = r" and le: "H * 3600000000000 + (M * 60000000000 + (X * 1000000000 + r)) \<le> 2 ^ 63"
    and z: "\<not> hours \<Longrightarrow> H = 0" "\<not> minutes \<Longrightarrow> M = 0"
  shows "durationSum ((if hours then formatUint 10 H @ ''h'' else []) @ (if minutes then formatUint 10 M @ ''m'' else []) @
           formatUint 10 X @ fmtFrac 9 v @ ''s'') 0 = Some (H * 3600000000000 + (M * 60000000000 + (X * 1000000000 + r)))"
proof -
  let ?S = "formatUint 10 X @ fmtFrac 9 v @ ''s''"
  let ?M = "(if minutes then formatUint 10 M @ ''m'' else []) @ ?S"
  have 1: "durationSum ?S d = Some (d + (X * 1000000000 + r))" if "d + (X * 1000000000 + r) \<le> 2 ^ 63" for d
    using durationSum_frac [of "''s''" 9 d X v] that unit_texts by (simp add: r [simplified])
  have 2: "durationSum ?M d = Some (d + (M * 60000000000 + (X * 1000000000 + r)))"
    if "d + (M * 60000000000 + (X * 1000000000 + r)) \<le> 2 ^ 63" for d
  proof (cases minutes)
    case True
    with that durationSum_whole [of "''m''" 60000000000 ?S d M] formatUint_starts 1 [of "d + M * 60000000000"] unit_texts(1) show ?thesis
      by (simp add: unitOf_def)
  qed (use 1 [of d] that z(2) in simp)
  show ?thesis
  proof (cases hours)
    case True
    have starts: "is_digit (hd ?M)" using formatUint_starts by simp
    have "durationSum (formatUint 10 H @ ''h'' @ ?M) 0 = durationSum ?M (0 + H * 3600000000000)"
      using starts unit_texts(1) le by (intro durationSum_whole) (simp_all add: unitOf_def)
    with 2 [of "H * 3600000000000"] le True show ?thesis by simp
  qed (use 2 [of 0] le z(1) in simp)
qed

lemma hms_value:
  "(s::nat) div 3600 * 3600000000000 + (s div 60 mod 60 * 60000000000 + (s mod 60 * 1000000000 + r)) = s * 1000000000 + r"
proof -
  have "s mod 3600 = s div 60 mod 60 * 60 + s mod 60" using mod_mult2_eq [of s 60 60] by simp
  then have "s = s div 3600 * 3600 + (s div 60 mod 60 * 60 + s mod 60)" by (metis div_mult_mod_eq)
  then have "s * 1000000000 = (s div 3600 * 3600 + (s div 60 mod 60 * 60 + s mod 60)) * 1000000000" by (rule arg_cong)
  then show ?thesis by (simp only: distrib_right mult.assoc)
qed

lemma durationSum_durText: "0 < u \<Longrightarrow> u \<le> 2 ^ 63 \<Longrightarrow> durationSum (durText u) 0 = Some u"
proof -
  assume u: "0 < u" "u \<le> 2 ^ 63"
  consider "u < 1000" | "1000 \<le> u" "u < 1000000" | "1000000 \<le> u" "u < 1000000000" | "1000000000 \<le> u" by linarith
  then show ?thesis
  proof cases
    case 1
    then show ?thesis using durationSum_whole [of "''ns''" 1 "[]" 0 u] unit_texts(1) by (simp add: durText_def unitOf_def)
  next
    case 2
    then show ?thesis using durationSum_frac [of "microSign @ ''s''" 3 0 "u div 1000" u] unit_texts u by (simp add: durText_def)
  next
    case 3
    then show ?thesis using durationSum_frac [of "''ms''" 6 0 "u div 1000000" u] unit_texts u by (simp add: durText_def)
  next
    case 4
    let ?s = "u div 1000000000"
    have v: "?s div 3600 * 3600000000000 + (?s div 60 mod 60 * 60000000000 + (?s mod 60 * 1000000000 + u mod 1000000000)) = u"
      unfolding hms_value by (rule div_mult_mod_eq)
    have z: "\<not> ?s \<ge> 3600 \<Longrightarrow> ?s div 3600 = 0" "\<not> ?s \<ge> 60 \<Longrightarrow> ?s div 60 mod 60 = 0" by (simp_all only: not_le div_less mod_0)
    have r: "u mod 10 ^ 9 = u mod 1000000000" by simp
    have t: "durText u = (if ?s \<ge> 3600 then formatUint 10 (?s div 3600) @ ''h'' else []) @
      (if ?s \<ge> 60 then formatUint 10 (?s div 60 mod 60) @ ''m'' else []) @ formatUint 10 (?s mod 60) @ fmtFrac 9 u @ ''s''"
      unfolding durText_def Let_def by (rule trans [OF if_not_P], use 4 in linarith)+ (rule refl)
    show ?thesis unfolding t by (subst durationSum_hms [OF r _ z]) (simp_all only: v u(2) not_False_eq_True)
  qed
qed

lemma durText_shape: "is_digit (hd (durText u)) \<and> durText u \<noteq> [] \<and> last (durText u) = CHR ''s''"
  using formatUint_starts by (auto simp: durText_def Let_def)

lemma parseDuration_sign:
  assumes "durationSum t 0 = Some u" "is_digit (hd t)" "t \<noteq> []" "t \<noteq> ''0''"
  shows "parseDuration (CHR ''-'' # t) = Some (- int u)" "u < 2 ^ 63 \<Longrightarrow> parseDuration t = Some (int u)"
  using assms digit_not_sign [OF assms(2)] by (simp_all add: parseDuration_def)

lemma parseDuration_String:
  assumes "- (2 ^ 63) \<le> d" "d < 2 ^ 63"
  shows "parseDuration (Duration_String d) = Some d"
proof (cases "d = 0")
  case True
  have "durationSum (formatUint 10 0 @ ''s'' @ []) 0 = durationSum [] (0 + 0 * 10 ^ 9)"
    using unit_texts by (intro durationSum_whole) simp_all
  then have "durationSum ''0s'' 0 = Some 0" by (simp add: formatUint_0)
  from parseDuration_sign(2) [OF this] True show ?thesis by (simp add: Duration_String_def is_digit_def)
next
  case False
  have "\<bar>d\<bar> \<le> 2 ^ 63" using assms by linarith
  then have "nat \<bar>d\<bar> \<le> 2 ^ 63" "0 < nat \<bar>d\<bar>" using False by (simp_all add: nat_le_iff)
  then have s: "durationSum (durText (nat \<bar>d\<bar>)) 0 = Some (nat \<bar>d\<bar>)" by (rule durationSum_durText [rotated])
  have sh: "is_digit (hd (durText (nat \<bar>d\<bar>)))" "durText (nat \<bar>d\<bar>) \<noteq> []" "durText (nat \<bar>d\<bar>) \<noteq> ''0''"
    using durText_shape [of "nat \<bar>d\<bar>"] by auto
  show ?thesis
  proof (cases "d < 0")
    case True
    with parseDuration_sign(1) [OF s sh] show ?thesis by (simp add: Duration_String_def)
  next
    case nonneg: False
    then have "nat \<bar>d\<bar> < 2 ^ 63" using assms(2) by (simp add: nat_less_iff)
    from parseDuration_sign(2) [OF s sh this] False nonneg show ?thesis by (simp add: Duration_String_def)
  qed
qed

section \<open>The command line\<close>

text \<open>
  The kinds of flag variables: what \<^verbatim>\<open>StringVar\<close>, \<^verbatim>\<open>IntVar\<close>, \<^verbatim>\<open>BoolVar\<close> and \<^verbatim>\<open>DurationVar\<close> store with, and the two
  order-sensitive values of the configuration. The table is in the order of the code.
\<close>

datatype flagVar =
    StringVar "string \<Rightarrow> Config \<Rightarrow> Config"
  | IntVar "int \<Rightarrow> Config \<Rightarrow> Config"
  | BoolVar "bool \<Rightarrow> Config \<Rightarrow> Config"
  | DurationVar "int \<Rightarrow> Config \<Rightarrow> Config"
  | AxisVar axis
  | DistributionVar

definition flagTable :: "(string \<times> flagVar) list" where
  "flagTable =
     [(''addr'', StringVar (\<lambda>v c. c\<lparr>cf_Addr := v\<rparr>)),
      (''conns'', AxisVar AxisConns),
      (''pub-conns'', IntVar (\<lambda>v c. c\<lparr>cf_PubConns := v\<rparr>)),
      (''cons-conns'', IntVar (\<lambda>v c. c\<lparr>cf_ConsConns := v\<rparr>)),
      (''channels'', AxisVar AxisChannels),
      (''pub-channels'', AxisVar AxisPubChannels),
      (''cons-channels'', IntVar (\<lambda>v c. c\<lparr>cf_ConsChannels := v\<rparr>)),
      (''distribution'', DistributionVar),
      (''max-channels-per-conn'', IntVar (\<lambda>v c. c\<lparr>cf_MaxChannelsPerConn := v\<rparr>)),
      (''max-consumers-per-channel'', IntVar (\<lambda>v c. c\<lparr>cf_MaxConsumersPerChannel := v\<rparr>)),
      (''max-publishers-per-channel'', IntVar (\<lambda>v c. c\<lparr>cf_MaxPublishersPerChannel := v\<rparr>)),
      (''publishers'', IntVar (\<lambda>v c. c\<lparr>cf_Publishers := v\<rparr>)),
      (''consumers'', IntVar (\<lambda>v c. c\<lparr>cf_Consumers := v\<rparr>)),
      (''msgs'', IntVar (\<lambda>v c. c\<lparr>cf_Msgs := v\<rparr>)),
      (''size'', IntVar (\<lambda>v c. c\<lparr>cf_Size := v\<rparr>)),
      (''ack'', BoolVar (\<lambda>v c. c\<lparr>cf_Ack := v\<rparr>)),
      (''prefetch'', IntVar (\<lambda>v c. c\<lparr>cf_Prefetch := v\<rparr>)),
      (''duration'', DurationVar (\<lambda>v c. c\<lparr>cf_Duration := v\<rparr>)),
      (''warmup'', DurationVar (\<lambda>v c. c\<lparr>cf_Warmup := v\<rparr>)),
      (''report'', DurationVar (\<lambda>v c. c\<lparr>cf_Report := v\<rparr>)),
      (''drain-timeout'', DurationVar (\<lambda>v c. c\<lparr>cf_DrainTimeout := v\<rparr>)),
      (''output'', StringVar (\<lambda>v c. c\<lparr>cf_Output := v\<rparr>)),
      (''quiet'', BoolVar (\<lambda>v c. c\<lparr>cf_Quiet := v\<rparr>))]"

fun isBoolVar :: "flagVar \<Rightarrow> bool" where
  "isBoolVar (BoolVar _) \<longleftrightarrow> True"
| "isBoolVar _ \<longleftrightarrow> False"

definition okOf :: "'e + 'a \<Rightarrow> 'a option" where
  "okOf r = (case r of Inl _ \<Rightarrow> None | Inr a \<Rightarrow> Some a)"

fun setVar :: "flagVar \<Rightarrow> string \<Rightarrow> Config \<times> AxisCursor \<Rightarrow> (Config \<times> AxisCursor) option" where
  "setVar (StringVar put) v st = Some (put v (fst st), snd st)"
| "setVar (IntVar put) v st = map_option (\<lambda>n. (put n (fst st), snd st)) (parseInt0 v)"
| "setVar (BoolVar put) v st = map_option (\<lambda>b. (put b (fst st), snd st)) (parseBool v)"
| "setVar (DurationVar put) v st = map_option (\<lambda>d. (put d (fst st), snd st)) (parseDuration v)"
| "setVar (AxisVar ax) v st = okOf (intAxisFlag_Set ax v st)"
| "setVar DistributionVar v st = okOf (distributionFlag_Set v st)"

definition flagKind :: "string \<Rightarrow> bool option" where
  "flagKind n = map_option isBoolVar (map_of flagTable n)"

definition flagSet :: "string \<Rightarrow> string \<Rightarrow> Config \<times> AxisCursor \<Rightarrow> (Config \<times> AxisCursor) option" where
  "flagSet n v st = (case map_of flagTable n of None \<Rightarrow> None | Some fv \<Rightarrow> setVar fv v st)"

definition benchParse :: "string list \<Rightarrow> flagError + (Config \<times> AxisCursor) \<times> string list" where
  "benchParse args = parseFlags flagKind flagSet args (DefaultConfig, None)"

text \<open>
  What the command prints, by stream. The package prints the error and the usage before it returns; the command prints
  both again. Every number of a summary is finite, so \<^verbatim>\<open>json.Marshal\<close> has no error to return.
\<close>

datatype fdesc = Stdout | Stderr

datatype mainLine =
    FlagFailed flagError
  | Usage
  | UnexpectedArgs "string list"
  | ConfigProblem config_error
  | WarningLine warning
  | RunProblem run_error
  | CompleteLine Result
  | SummaryJSON Summary

text \<open>The exit code; \<open>None\<close> is a panic of the run.\<close>

definition benchMain :: "runEnv \<Rightarrow> string list \<Rightarrow> int option \<times> (fdesc \<times> mainLine) list" where
  "benchMain env args =
     (case benchParse args of
        Inl FlagHelp \<Rightarrow> (Some 0, [(Stderr, Usage)])
      | Inl e \<Rightarrow> (Some 2, [(Stderr, FlagFailed e), (Stderr, Usage), (Stderr, FlagFailed e), (Stderr, Usage)])
      | Inr ((c, cur), rest) \<Rightarrow>
          if rest \<noteq> [] then (Some 2, [(Stderr, UnexpectedArgs rest), (Stderr, Usage)])
          else case Validate c of
                 Some e \<Rightarrow> (Some 1, [(Stderr, ConfigProblem e), (Stderr, Usage)])
               | None \<Rightarrow>
                   (let warned = map (\<lambda>w. (Stderr, WarningLine w)) (Warnings c) in
                    case fst (Run c env) of
                      None \<Rightarrow> (None, warned)
                    | Some (Inl e) \<Rightarrow> (Some 1, warned @ [(Stderr, RunProblem e)])
                    | Some (Inr res) \<Rightarrow>
                        (Some 0, warned @ (if \<not> cf_Quiet c then [(Stderr, CompleteLine res)] else []) @
                           [(if cf_Output c = ''-'' then Stderr else Stdout, SummaryJSON (rs_Summary res))])))"

section \<open>Every parsed configuration can be written down\<close>

definition isInt64 :: "int \<Rightarrow> bool" where
  "isInt64 n \<longleftrightarrow> - (2 ^ 63) \<le> n \<and> n < 2 ^ 63"

definition config_ok :: "Config \<Rightarrow> bool" where
  "config_ok c \<longleftrightarrow>
     list_all isInt64 [cf_Conns c, cf_PubConns c, cf_ConsConns c, cf_Channels c, cf_PubChannels c, cf_ConsChannels c,
       cf_MaxChannelsPerConn c, cf_MaxConsumersPerChannel c, cf_MaxPublishersPerChannel c, cf_Publishers c, cf_Consumers c,
       cf_Msgs c, cf_Size c, cf_Prefetch c, cf_Duration c, cf_Warmup c, cf_Report c, cf_DrainTimeout c] \<and>
     list_all (\<lambda>d. d = DistEven \<or> d = DistUneven) [cf_ConnsDist c, cf_ChannelsDist c, cf_PubChannelsDist c]"

lemma parseInt0_int64: "parseInt0 s = Some n \<Longrightarrow> isInt64 n"
  by (auto simp: parseInt0_def isInt64_def Let_def split: list.splits option.splits if_splits)

lemma atoi_int64: "atoi s = Some n \<Longrightarrow> isInt64 n"
  by (auto simp: atoi_def isInt64_def parseUintMax_def split: list.splits if_splits)

lemma durationSum_le: "durationSum s d = Some u \<Longrightarrow> d \<le> 2 ^ 63 \<Longrightarrow> u \<le> 2 ^ 63"
proof (induction s d rule: durationSum.induct)
  case (1 s d)
  show ?case
  proof (cases "s = []")
    case False
    with "1.prems"(1) obtain v t where t: "hd s = CHR ''.'' \<or> is_digit (hd s)" "durationTerm s = Some (v, t)"
      "\<not> (d + v) mod 2 ^ 64 > 2 ^ 63" "durationSum t ((d + v) mod 2 ^ 64) = Some u"
      by (subst (asm) durationSum.simps) (auto simp: Let_def split: if_splits option.splits)
    from "1.IH" [OF False _ t(2) refl refl t(3,4)] t(1,3) show ?thesis by (simp add: not_less)
  qed (use "1.prems" in simp)
qed

lemma parseDuration_int64: "parseDuration s = Some d \<Longrightarrow> isInt64 d"
  by (auto simp: parseDuration_def isInt64_def Let_def split: option.splits if_splits dest!: durationSum_le)

fun keeps_ok :: "flagVar \<Rightarrow> bool" where
  "keeps_ok (StringVar put) \<longleftrightarrow> (\<forall>v c. config_ok c \<longrightarrow> config_ok (put v c))"
| "keeps_ok (IntVar put) \<longleftrightarrow> (\<forall>v c. isInt64 v \<longrightarrow> config_ok c \<longrightarrow> config_ok (put v c))"
| "keeps_ok (BoolVar put) \<longleftrightarrow> (\<forall>v c. config_ok c \<longrightarrow> config_ok (put v c))"
| "keeps_ok (DurationVar put) \<longleftrightarrow> (\<forall>v c. isInt64 v \<longrightarrow> config_ok c \<longrightarrow> config_ok (put v c))"
| "keeps_ok (AxisVar ax) \<longleftrightarrow> (\<forall>v c. isInt64 v \<longrightarrow> config_ok c \<longrightarrow> config_ok (setAxis ax v c))"
| "keeps_ok DistributionVar \<longleftrightarrow> (\<forall>ax d c. d = DistEven \<or> d = DistUneven \<longrightarrow> config_ok c \<longrightarrow> config_ok (setDist ax d c))"

lemma setDist_ok: "d = DistEven \<or> d = DistUneven \<Longrightarrow> config_ok c \<Longrightarrow> config_ok (setDist ax d c)"
  by (cases ax) (simp_all add: config_ok_def)

lemma flagTable_keeps: "list_all (\<lambda>nf. keeps_ok (snd nf)) flagTable"
  unfolding flagTable_def by (simp add: setDist_ok) (simp add: config_ok_def)

lemma setVar_ok:
  assumes "keeps_ok fv" "setVar fv v (c, cur) = Some (c', cur')" "config_ok c"
  shows "config_ok c'"
proof (cases fv)
  case (IntVar put)
  with assms parseInt0_int64 [of v] show ?thesis by (cases "parseInt0 v") auto
next
  case (DurationVar put)
  with assms parseDuration_int64 [of v] show ?thesis by (cases "parseDuration v") auto
next
  case (AxisVar ax)
  with assms atoi_int64 [of v] show ?thesis by (cases "atoi v") (auto simp: okOf_def intAxisFlag_Set_def)
next
  case DistributionVar
  with assms show ?thesis by (auto simp: okOf_def distributionFlag_Set_def Let_def setDist_ok split: if_splits option.splits)
qed (use assms in auto)

lemma parseFlags_step:
  "parseFlags kind setf (a # args) s = Inr (s', rest) \<Longrightarrow>
   s' = s \<or> (\<exists>n v s1 args'. setf n v s = Some s1 \<and> length args' \<le> length args \<and> parseFlags kind setf args' s1 = Inr (s', rest))"
  by (auto simp: Let_def split: if_splits option.splits list.splits)

lemma parseFlags_inv:
  assumes "\<And>n v s s'. setf n v s = Some s' \<Longrightarrow> P s \<Longrightarrow> P s'"
  shows "parseFlags kind setf args s = Inr (s', rest) \<Longrightarrow> P s \<Longrightarrow> P s'"
proof (induction "length args" arbitrary: args s rule: less_induct)
  case less
  show ?case
  proof (cases args)
    case (Cons a args')
    from parseFlags_step [OF less.prems(1) [unfolded Cons]] consider "s' = s"
      | n v s1 args'' where "setf n v s = Some s1" "length args'' \<le> length args'" "parseFlags kind setf args'' s1 = Inr (s', rest)"
      by blast
    then show ?thesis
    proof cases
      case 2
      then show ?thesis using less.hyps [of args'' s1] Cons assms less.prems(2) by simp
    qed (use less.prems in simp)
  qed (use less.prems in simp)
qed

lemma benchParse_ok: "benchParse args = Inr ((c, cur), rest) \<Longrightarrow> config_ok c"
proof -
  have step: "(\<lambda>st. config_ok (fst st)) st'" if "flagSet n v st = Some st'" "(\<lambda>st. config_ok (fst st)) st" for n v st st'
    using that flagTable_keeps by (cases st; cases st') (auto simp: flagSet_def list_all_iff split: option.splits dest!: map_of_SomeD intro: setVar_ok)
  have "config_ok DefaultConfig" by code_simp
  moreover assume "benchParse args = Inr ((c, cur), rest)"
  ultimately show ?thesis using parseFlags_inv [of flagSet "\<lambda>st. config_ok (fst st)", OF step] unfolding benchParse_def by fastforce
qed

section \<open>A summary repeats its run\<close>

fun cfgText :: "cfgValue \<Rightarrow> string" where
  "cfgText (CfgString s) = s"
| "cfgText (CfgInt n) = itoa n"
| "cfgText (CfgBool b) = boolText b"

text \<open>The flags of a command line with the keys of the summary that hold their values; a mode follows its axis.\<close>

definition replayKeys :: "(string \<times> string) list" where
  "replayKeys =
     map (\<lambda>k. (k, k)) [''addr'', ''pub-conns'', ''cons-conns'', ''cons-channels'', ''max-channels-per-conn'',
       ''max-consumers-per-channel'', ''max-publishers-per-channel'', ''publishers'', ''consumers'', ''msgs'', ''size'', ''ack'',
       ''prefetch'', ''duration'', ''warmup'', ''report'', ''drain-timeout'', ''output'', ''quiet''] @
     [(''conns'', ''conns''), (''distribution'', ''conns-distribution''),
      (''channels'', ''channels''), (''distribution'', ''channels-distribution''),
      (''pub-channels'', ''pub-channels''), (''distribution'', ''pub-channels-distribution'')]"

definition replayFlags :: "(string, cfgValue) gomap \<Rightarrow> (string \<times> string) list" where
  "replayFlags m = List.map_filter (\<lambda>(f, k). map_option (\<lambda>x. (f, cfgText x)) (gm_get m k)) replayKeys"

definition replayArgs :: "(string, cfgValue) gomap \<Rightarrow> string list" where
  "replayArgs m = map flagArg (replayFlags m)"

lemma parseBool_text [simp]: "parseBool (boolText b) = Some b"
  by (simp add: parseBool_def boolText_def)

lemma lower_modes [simp]: "map ascii_lower DistEven = DistEven" "map ascii_lower DistUneven = DistUneven"
  by code_simp+

lemma dist_set: "d = DistEven \<or> d = DistUneven \<Longrightarrow> distributionFlag_Set d (c, Some ax) = Inr (setDist ax d c, Some ax)"
  by (auto simp: distributionFlag_Set_def)

lemma replayFlags_config:
  "replayFlags (summaryConfig c) =
     [(''addr'', cf_Addr c), (''pub-conns'', itoa (cf_PubConns c)), (''cons-conns'', itoa (cf_ConsConns c)),
      (''cons-channels'', itoa (cf_ConsChannels c)), (''max-channels-per-conn'', itoa (cf_MaxChannelsPerConn c)),
      (''max-consumers-per-channel'', itoa (cf_MaxConsumersPerChannel c)),
      (''max-publishers-per-channel'', itoa (cf_MaxPublishersPerChannel c)), (''publishers'', itoa (cf_Publishers c)),
      (''consumers'', itoa (cf_Consumers c)), (''msgs'', itoa (cf_Msgs c)), (''size'', itoa (cf_Size c)),
      (''ack'', boolText (cf_Ack c)), (''prefetch'', itoa (cf_Prefetch c)), (''duration'', Duration_String (cf_Duration c)),
      (''warmup'', Duration_String (cf_Warmup c)), (''report'', Duration_String (cf_Report c)),
      (''drain-timeout'', Duration_String (cf_DrainTimeout c)), (''output'', cf_Output c), (''quiet'', boolText (cf_Quiet c)),
      (''conns'', itoa (cf_Conns c)), (''distribution'', cf_ConnsDist c), (''channels'', itoa (cf_Channels c)),
      (''distribution'', cf_ChannelsDist c), (''pub-channels'', itoa (cf_PubChannels c)), (''distribution'', cf_PubChannelsDist c)]"
  by (simp add: replayFlags_def replayKeys_def summaryConfig_def map_filter_simps)

text \<open>The flags by name.\<close>

lemma flags_by_name:
  "map_of flagTable ''addr'' = Some (StringVar (\<lambda>v c. c\<lparr>cf_Addr := v\<rparr>))"
  "map_of flagTable ''conns'' = Some (AxisVar AxisConns)"
  "map_of flagTable ''pub-conns'' = Some (IntVar (\<lambda>v c. c\<lparr>cf_PubConns := v\<rparr>))"
  "map_of flagTable ''cons-conns'' = Some (IntVar (\<lambda>v c. c\<lparr>cf_ConsConns := v\<rparr>))"
  "map_of flagTable ''channels'' = Some (AxisVar AxisChannels)"
  "map_of flagTable ''pub-channels'' = Some (AxisVar AxisPubChannels)"
  "map_of flagTable ''cons-channels'' = Some (IntVar (\<lambda>v c. c\<lparr>cf_ConsChannels := v\<rparr>))"
  "map_of flagTable ''distribution'' = Some DistributionVar"
  "map_of flagTable ''max-channels-per-conn'' = Some (IntVar (\<lambda>v c. c\<lparr>cf_MaxChannelsPerConn := v\<rparr>))"
  "map_of flagTable ''max-consumers-per-channel'' = Some (IntVar (\<lambda>v c. c\<lparr>cf_MaxConsumersPerChannel := v\<rparr>))"
  "map_of flagTable ''max-publishers-per-channel'' = Some (IntVar (\<lambda>v c. c\<lparr>cf_MaxPublishersPerChannel := v\<rparr>))"
  "map_of flagTable ''publishers'' = Some (IntVar (\<lambda>v c. c\<lparr>cf_Publishers := v\<rparr>))"
  "map_of flagTable ''consumers'' = Some (IntVar (\<lambda>v c. c\<lparr>cf_Consumers := v\<rparr>))"
  "map_of flagTable ''msgs'' = Some (IntVar (\<lambda>v c. c\<lparr>cf_Msgs := v\<rparr>))"
  "map_of flagTable ''size'' = Some (IntVar (\<lambda>v c. c\<lparr>cf_Size := v\<rparr>))"
  "map_of flagTable ''ack'' = Some (BoolVar (\<lambda>v c. c\<lparr>cf_Ack := v\<rparr>))"
  "map_of flagTable ''prefetch'' = Some (IntVar (\<lambda>v c. c\<lparr>cf_Prefetch := v\<rparr>))"
  "map_of flagTable ''duration'' = Some (DurationVar (\<lambda>v c. c\<lparr>cf_Duration := v\<rparr>))"
  "map_of flagTable ''warmup'' = Some (DurationVar (\<lambda>v c. c\<lparr>cf_Warmup := v\<rparr>))"
  "map_of flagTable ''report'' = Some (DurationVar (\<lambda>v c. c\<lparr>cf_Report := v\<rparr>))"
  "map_of flagTable ''drain-timeout'' = Some (DurationVar (\<lambda>v c. c\<lparr>cf_DrainTimeout := v\<rparr>))"
  "map_of flagTable ''output'' = Some (StringVar (\<lambda>v c. c\<lparr>cf_Output := v\<rparr>))"
  "map_of flagTable ''quiet'' = Some (BoolVar (\<lambda>v c. c\<lparr>cf_Quiet := v\<rparr>))"
  by (simp_all add: flagTable_def)

lemma parse_int64:
  "isInt64 n \<Longrightarrow> parseInt0 (itoa n) = Some n" "isInt64 n \<Longrightarrow> atoi (itoa n) = Some n"
  "isInt64 n \<Longrightarrow> parseDuration (Duration_String n) = Some n"
  by (simp_all add: isInt64_def parseInt0_itoa atoi_itoa parseDuration_String)

lemmas replay_simps =
  setAll.simps flagSet_def flags_by_name option.case setVar.simps fst_conv snd_conv option.map intAxisFlag_Set_def okOf_def
  sum.case setAxis.simps setDist.simps parse_int64 parseBool_text dist_set Config.update_convs

lemma replay_config:
  assumes "config_ok c"
  shows "benchParse (replayArgs (summaryConfig c)) = Inr ((c, Some AxisPubChannels), [])"
proof -
  have names: "\<forall>(n, v) \<in> set (replayFlags (summaryConfig c)). flagName n \<and> flagKind n \<noteq> None"
    unfolding replayFlags_config by (simp add: flagName_def flagKind_def flags_by_name)
  let ?c = "\<lparr>cf_Addr = cf_Addr c, cf_Conns = cf_Conns c, cf_PubConns = cf_PubConns c, cf_ConsConns = cf_ConsConns c,
     cf_Channels = cf_Channels c, cf_PubChannels = cf_PubChannels c, cf_ConsChannels = cf_ConsChannels c,
     cf_ConnsDist = cf_ConnsDist c, cf_ChannelsDist = cf_ChannelsDist c, cf_PubChannelsDist = cf_PubChannelsDist c,
     cf_MaxChannelsPerConn = cf_MaxChannelsPerConn c, cf_MaxConsumersPerChannel = cf_MaxConsumersPerChannel c,
     cf_MaxPublishersPerChannel = cf_MaxPublishersPerChannel c, cf_Publishers = cf_Publishers c, cf_Consumers = cf_Consumers c,
     cf_Msgs = cf_Msgs c, cf_Size = cf_Size c, cf_Ack = cf_Ack c, cf_Prefetch = cf_Prefetch c, cf_Duration = cf_Duration c,
     cf_Warmup = cf_Warmup c, cf_Report = cf_Report c, cf_DrainTimeout = cf_DrainTimeout c, cf_Output = cf_Output c,
     cf_Quiet = cf_Quiet c\<rparr>"
  have "setAll flagSet (replayFlags (summaryConfig c)) (DefaultConfig, None) = Some (?c, Some AxisPubChannels)"
    using assms unfolding replayFlags_config config_ok_def DefaultConfig_def list.pred_inject
    by (elim conjE) (simp only: replay_simps)
  also have "?c = c" by simp
  finally show ?thesis using parseFlags_flagArgs [OF names] by (simp add: benchParse_def replayArgs_def)
qed

lemma buildSummary_config: "buildSummary runid c t st el = Some sm \<Longrightarrow> sm_Config sm = summaryConfig c"
  by (auto simp: buildSummary_def Let_def split: option.splits prod.splits)

lemma finishRun_config: "finishRun c env runid file t csv st = Some (Inr res) \<Longrightarrow> sm_Config (rs_Summary res) = summaryConfig c"
  by (auto simp: finishRun_def Let_def split: if_splits option.splits dest: buildSummary_config)

lemma runWithClients_config:
  "runWithClients c env runid t clients = (Some (Inr res), acts) \<Longrightarrow> sm_Config (rs_Summary res) = summaryConfig c"
  by (auto simp: runWithClients_def Let_def split: sum.splits prod.splits option.splits if_split_asm dest: finishRun_config)

lemma Run_config: "Run c env = (Some (Inr res), acts) \<Longrightarrow> sm_Config (rs_Summary res) = summaryConfig c"
  by (auto simp: Run_def Let_def split: option.splits sum.splits prod.splits dest: runWithClients_config)

text \<open>What a command that prints a summary has done.\<close>

lemma benchMain_summary:
  assumes "benchMain env args = (code, out)" "(fd, SummaryJSON sm) \<in> set out"
  obtains c cur res where "benchParse args = Inr ((c, cur), [])" "Validate c = None" "fst (Run c env) = Some (Inr res)"
    "sm = rs_Summary res" "fd = (if cf_Output c = ''-'' then Stderr else Stdout)"
proof (cases "benchParse args")
  case (Inl e)
  with assms show ?thesis by (cases e) (auto simp: benchMain_def)
next
  case (Inr b)
  obtain c cur rest where b: "b = ((c, cur), rest)" by (metis prod.exhaust)
  have "rest = [] \<and> Validate c = None \<and> (\<exists>res. fst (Run c env) = Some (Inr res) \<and> sm = rs_Summary res) \<and>
      fd = (if cf_Output c = ''-'' then Stderr else Stdout)"
    using assms unfolding benchMain_def Inr b sum.case prod.case Let_def
    by (auto split: if_split_asm option.splits sum.splits)
  with Inr b that show ?thesis by blast
qed

lemma benchMain_parse:
  "benchParse args = Inr ((c, cur), []) \<Longrightarrow> benchParse args' = Inr ((c, cur'), []) \<Longrightarrow> benchMain env args = benchMain env args'"
  by (simp add: benchMain_def)

text \<open>
  C39. The configuration of a summary is enough to repeat the run: the command line written from it (each mode after its
  axis, durations and numbers as the summary has them) is accepted, and in the same environment the command has the same
  exit code and prints the same lines, whatever command line the first run was given.
\<close>

theorem summary_repeats_run:
  assumes "benchMain env args = (code, out)" "(fd, SummaryJSON sm) \<in> set out"
  shows "benchMain env (replayArgs (sm_Config sm)) = (code, out)"
proof -
  from assms obtain c cur res where r: "benchParse args = Inr ((c, cur), [])" "fst (Run c env) = Some (Inr res)" "sm = rs_Summary res"
    by (rule benchMain_summary)
  have "sm_Config sm = summaryConfig c" using Run_config [of c env res "snd (Run c env)"] r(2,3) by (metis prod.collapse)
  then have "benchParse (replayArgs (sm_Config sm)) = Inr ((c, Some AxisPubChannels), [])"
    using replay_config [OF benchParse_ok [OF r(1)]] by simp
  from benchMain_parse [OF r(1) this] assms(1) show ?thesis by simp
qed

text \<open>A run with a flag of each form: the report goes to the standard output, the summary to the other stream.\<close>

definition quietArgs :: "string list" where
  "quietArgs = [''-quiet'', ''-output'', ''-'', ''-report=1m30s'']"

definition quietConfig :: Config where
  "quietConfig = DefaultConfig\<lparr>cf_Quiet := True, cf_Output := ''-'', cf_Report := 90000000000\<rparr>"

lemma quiet_parse: "benchParse quietArgs = Inr ((quietConfig, None), [])"
proof -
  have "formatUint 10 1 = ''1''" "formatUint 10 30 = ''30''" by code_simp+
  moreover have "padLeft 9 ''0'' = ''000000000''" by code_simp
  ultimately have "Duration_String 90000000000 = ''1m30s''" by (simp add: Duration_String_def durText_def fmtFrac_def formatUint_0)
  then have "parseDuration ''1m30s'' = Some 90000000000" using parseDuration_String [of 90000000000] by simp
  then show ?thesis
    by (simp add: benchParse_def quietArgs_def quietConfig_def flagKind_def flagSet_def flags_by_name parseBool_def Let_def)
qed

lemma quiet_build: "\<exists>t. Build quietConfig = Inr t \<and> t_slots t ! 0 \<in> set (t_slots t)"
proof -
  have v: "map_sum id (\<lambda>t. length (t_slots t)) (Build quietConfig) = Inr 1" by code_simp
  then obtain t where t: "Build quietConfig = Inr t" by (cases "Build quietConfig") simp_all
  with v show ?thesis by (auto intro!: nth_mem)
qed

lemma quiet_main: "\<exists>sl sm. benchMain (smallEnv sl) quietArgs = (Some 0, [(Stderr, SummaryJSON sm)])"
proof -
  obtain t where t: "Build quietConfig = Inr t" "t_slots t ! 0 \<in> set (t_slots t)" using quiet_build by blast
  have V: "Validate quietConfig = None" using t(1) by (auto simp: Build_def split: option.splits)
  have b: "0 \<le> wrap64 (cf_Publishers quietConfig * cf_Msgs quietConfig)" "cf_Warmup quietConfig = 0"
    by (simp_all add: quietConfig_def DefaultConfig_def wrap64_def)
  obtain res acts where R: "Run quietConfig (smallEnv (t_slots t ! 0)) = (Some (Inr res), acts)"
    using healthy_run [OF t(1) b small_healthy(1) small_healthy(3) [OF t(2)]] by blast
  have w: "Warnings quietConfig = []" by code_simp
  have o: "cf_Quiet quietConfig" "cf_Output quietConfig = ''-''" by (simp_all add: quietConfig_def)
  show ?thesis by (intro exI [of _ "t_slots t ! 0"] exI [of _ "rs_Summary res"]) (simp add: benchMain_def quiet_parse V R w o)
qed

theorem summary_repeats_run_witness:
  "\<exists>sl sm. benchMain (smallEnv sl) quietArgs = (Some 0, [(Stderr, SummaryJSON sm)]) \<and>
     benchMain (smallEnv sl) (replayArgs (sm_Config sm)) = (Some 0, [(Stderr, SummaryJSON sm)])"
proof -
  obtain sl sm where m: "benchMain (smallEnv sl) quietArgs = (Some 0, [(Stderr, SummaryJSON sm)])" using quiet_main by blast
  with summary_repeats_run [OF m, of Stderr sm] show ?thesis by (intro exI [of _ sl] exI [of _ sm]) simp
qed

text \<open>
  What a caller can rely on: the exit code is 0, 1 or 2 unless the run panics; what the command prints itself goes to the
  standard error, except the summary of a run that succeeded and did not send its report to the standard output, which is
  then the only line there.
\<close>

lemma main_streams:
  assumes "benchMain env args = (code, out)"
  shows "code \<in> {None, Some 0, Some 1, Some 2} \<and>
    (filter (\<lambda>l. fst l = Stdout) out = [] \<or>
     (\<exists>c cur sm. filter (\<lambda>l. fst l = Stdout) out = [(Stdout, SummaryJSON sm)] \<and> code = Some 0 \<and>
        benchParse args = Inr ((c, cur), []) \<and> cf_Output c \<noteq> ''-''))"
proof (cases "benchParse args")
  case (Inl e)
  with assms show ?thesis by (cases e) (auto simp: benchMain_def)
next
  case (Inr b)
  obtain c cur rest where b: "b = ((c, cur), rest)" by (metis prod.exhaust)
  show ?thesis using assms unfolding benchMain_def Inr b sum.case prod.case Let_def
    by (auto split: if_split_asm option.splits sum.splits)
qed

end
