(* ===== verification/Spec2Isabelle.thy ===== *)
theory Spec2Isabelle
  imports ExampleClients QueueConcurrency LockOrder Exposition Deviations Wire Framing BrokerMain BenchMain
begin

text \<open>
  A verification development for golangMQ, an in-memory message broker in Go that speaks a JSON line
  protocol over TCP, and for the benchmark harness that ships with it.

  \<^bold>\<open>The program.\<close> A server (\<^verbatim>\<open>broker/server.go\<close>) accepts connections. A connection
  (\<^verbatim>\<open>broker/connection.go\<close>) runs a handshake, then reads envelopes and routes them to its channels; its
  answers and deliveries go through one write pump. A channel (\<^verbatim>\<open>broker/channel.go\<close>) decodes a request and
  calls the broker (\<^verbatim>\<open>broker/broker.go\<close>), which keeps exchanges (\<^verbatim>\<open>broker/exchange.go\<close>) and queues
  (\<^verbatim>\<open>broker/queue.go\<close>). Every queue has a dispatch goroutine that hands its messages to consumers
  (\<^verbatim>\<open>broker/consumer.go\<close>) within their prefetch limit. Counters and gauges are in
  \<^verbatim>\<open>broker/metrics.go\<close>, the messages on the wire in \<^verbatim>\<open>protocol/\<close>. The benchmark
  (\<^verbatim>\<open>internal/bench/\<close>, \<^verbatim>\<open>cmd/benchmark/\<close>) turns flags into a plan of connections, channels and
  workers, drives the broker through the client SDK and reports counts and latencies. Two example programs
  (\<^verbatim>\<open>exampleClients/\<close>) publish and consume through the same SDK; \<^verbatim>\<open>cmd/broker/\<close> starts a server.

  \<^bold>\<open>The broker.\<close> From the bottom:
  \<^item> \<open>GoPrelude\<close>: Go maps as association lists, numerals, reachability of transition systems.
  \<^item> \<open>JSON\<close>, \<open>Protocol\<close>: JSON values, decoding into structs as \<^verbatim>\<open>encoding/json\<close> does it, every message of
    \<^verbatim>\<open>protocol/\<close>, and the reading functions of \<^verbatim>\<open>coder-decoder.go\<close>. Each message interprets the locale \<open>codec\<close>.
  \<^item> \<open>BrokerState\<close>, \<open>BrokerInv\<close>: the structs as records, the memory of a server as the record \<open>world\<close> (a store per
    struct type, addresses as numbers), and the invariant: well-formed links and the accounts of every queue.
  \<^item> \<open>QueueOps\<close>, \<open>QueueProps\<close>, \<open>ExchangeOps\<close>, \<open>BrokerOps\<close>, \<open>ChannelOps\<close>, \<open>ConnOps\<close>, \<open>ServerOps\<close>: the operations file by
    file under their Go names, each with the lemma that it keeps the invariant. \<open>dispatchOnce\<close> is one turn of
    \<^verbatim>\<open>dispatchLoop\<close>. \<open>server_step\<close> interleaves requests of all connections, dispatch turns, failing sockets and
    disconnects; each handler is one step. The order in which Go ranges over a map is an argument (\<open>orders\<close>).
  \<^item> \<open>Scenarios\<close>, \<open>BrokerProperties\<close>: concrete runs, and the behaviour of publishing, dispatching, acks and nacks,
    dead-lettering, bindings, consumers, disconnects and the handshake.
  \<^item> \<open>QueueConcurrency\<close>: one queue cut into the critical sections of its mutexes, with the condition variable. It shows
    for which interleavings the atomic view of the other theories is right, and two races where it is not.
  \<^item> \<open>LockOrder\<close>: every function as the sequence of its mutex operations and waits, for any number of connections,
    dispatchers and scrapes, interleaved operation by operation. A rank per mutex shows that they do not deadlock.
  \<^item> \<open>Exposition\<close>: the descriptors of counters and gauges, and the series of a scrape.
  \<^item> \<open>Deviations\<close>: reachable runs on which the server does not do what its answers or counters say.
  \<^item> \<open>Bufio\<close>, \<open>WritePump\<close>, \<open>Framing\<close>: \<^verbatim>\<open>bufio.Writer\<close> over a failing destination, \<^verbatim>\<open>send\<close> and \<^verbatim>\<open>writePump\<close> as
    goroutines around the buffered channel of 64 requests, and the writing functions of \<^verbatim>\<open>coder-decoder.go\<close>.
  \<^item> \<open>Utf8\<close>, \<open>JsonText\<close>, \<open>Wire\<close>: the bytes under the lines. UTF-8 and the text syntax of JSON as \<^verbatim>\<open>encoding/json\<close> writes
    and reads it (escapes, surrogates, replacement of bad bytes, numbers, nesting up to 10000), and lines cut out of a
    stream of bytes. A value that fits in text reads back, so that the other theories may see values instead of bytes.
  \<^item> \<open>ExampleClients\<close>: \<^verbatim>\<open>exampleClients/publisher\<close> and \<^verbatim>\<open>exampleClients/consumer\<close> as sequences of calls of an SDK
    that is a parameter, and what they make the broker do when the SDK sends what it is asked to (\<open>speaks\<close>).
  \<^item> \<open>BrokerMain\<close>: \<^verbatim>\<open>cmd/broker/main.go\<close>, whose server is a start of the transition system, and the accept loop of
    \<^verbatim>\<open>server.go\<close> over a listener whose answers are an argument.

  \<^bold>\<open>The benchmark.\<close>
  \<^item> \<open>BenchConfig\<close> (\<^verbatim>\<open>config.go\<close>): defaults, validation on 64-bit integers (\<open>wrap64\<close>), order-sensitive flags.
  \<^item> \<open>Topology\<close> (\<^verbatim>\<open>topology.go\<close>): the plan \<open>Build\<close> makes; the locale \<open>placement\<close> carries the counting.
  \<^item> \<open>Float64\<close>, \<open>BenchStats\<close> (\<^verbatim>\<open>metrics.go\<close>): counters, windows and latency summaries; doubles are rationals with
    the rounding of IEEE 754 (\<open>fl\<close>). The locales \<open>counter\<close> and \<open>sampleLog\<close> carry the counting.
  \<^item> \<open>Worker\<close> (\<^verbatim>\<open>worker.go\<close>): publishers as interleaved state machines, consumers delivery by delivery.
  \<^item> \<open>Csv\<close> (\<^verbatim>\<open>csv.go\<close>): the interval report through a buffered, failing file.
  \<^item> \<open>Engine\<close> (\<^verbatim>\<open>engine.go\<close>): a run from setting up to the summary. What the SDK, the clock and the disk answer is
    the record \<open>runEnv\<close>.
  \<^item> \<open>GoFlag\<close>, \<open>BenchMain\<close> (\<^verbatim>\<open>cmd/benchmark/main.go\<close>): the packages \<^verbatim>\<open>flag\<close>, \<^verbatim>\<open>strconv\<close> and \<^verbatim>\<open>time\<close> as far as command
    lines need them, the table of flags, the exit codes and the output streams.

  \<^bold>\<open>What is shown.\<close> In every reachable state of the server no message is lost or duplicated, prefetch limits hold and
  memory is well linked (this theory); the operations do what the protocol promises (\<open>BrokerProperties\<close>); the locking
  keeps this except for the races named there, and the dispatcher does not sleep on work (\<open>QueueConcurrency\<close>); mutexes do
  not deadlock and are never held over a wait (\<open>LockOrder\<close>); what the peer reads is whole lines (\<open>WritePump\<close>), which are the
  values that were sent (\<open>Wire\<close>); messages decode as they were encoded (\<open>Protocol\<close>); scrapes succeed while the tags on
  each queue differ (\<open>Exposition\<close>); the example programs dead-letter every
  third message (\<open>ExampleClients\<close>). For the benchmark: plans place every channel and worker once and within the caps,
  counters and reports add up, percentiles are exact, sequence numbers never collide, publishers leave their loop, a run
  closes what it opened and returns a summary that agrees with its report, and that summary is enough to repeat the run
  (\<open>BenchMain\<close>).

  \<^bold>\<open>Bounds.\<close> Delivery tags are 16-bit words and wrap as in Go; statements that need distinct tags are for the first
  65536 messages of a queue. Go's \<^verbatim>\<open>int\<close> is an integer with \<open>wrap64\<close> where the code adds or multiplies unchecked
  input. The loop of a connection recurses on its unread input; the drain loop of a run gets as many polls as its
  environment lists, and \<open>run_succeeds\<close> shows that a run returns.

  \<^bold>\<open>Not modelled.\<close> TCP, the Prometheus library and its HTTP handler (so \<^verbatim>\<open>MetricsHandler\<close>, which only calls it),
  the client SDK (an argument where the code calls it), log output of the broker and the usage text of the
  commands, shell scripts, container and
  dashboard configuration, and the repository's tests. Nothing is assumed about the order of goroutines except the atomicity
  stated above.
\<close>

section \<open>Every reachable state\<close>





text \<open>
  C3. The links between queues, consumers, channels and connections are consistent in every
  reachable state: names and queues correspond one to one, a registered consumer belongs to its
  queue, a consumer that is not registered holds nothing, and what a channel or a connection lists
  points back to it.
\<close>

theorem reachable_links:
  assumes "server_reachable w"
  shows "(\<forall>n q. gm_get (w_queues w) n = Some q \<longleftrightarrow> q < w_nq w \<and> q_name (w_q w q) = n) \<and>
    (\<forall>q < w_nq w. \<forall>c. gm_has c (q_consumers (w_q w q)) \<longrightarrow> c < w_nc w \<and> c_queue (w_c w c) = q) \<and>
    (\<forall>c < w_nc w. \<not> gm_has c (q_consumers (w_q w (c_queue (w_c w c)))) \<longrightarrow> c_pendingMessages (w_c w c) = []) \<and>
    (\<forall>ch < w_nch w. \<forall>t c. gm_get (ch_consumers (w_ch w ch)) t = Some c \<longrightarrow>
       c < w_nc w \<and> c_tag (w_c w c) = t \<and> c_channel (w_c w c) = ch) \<and>
    (\<forall>cn < w_ncn w. \<forall>i ch. gm_get (cn_channels (w_cn w cn)) i = Some ch \<longrightarrow>
       ch < w_nch w \<and> ch_id (w_ch w ch) = i \<and> ch_conn (w_ch w ch) = cn)"
proof -
  note wf = broker_invD(1) [OF server.inv_reachable [OF assms]]
  have "\<forall>n q. gm_get (w_queues w) n = Some q \<longleftrightarrow> q < w_nq w \<and> q_name (w_q w q) = n"
    using wf_queue_lookup [OF wf] wf_queue_by_name [OF wf] by blast
  moreover have "\<forall>q < w_nq w. \<forall>c. gm_has c (q_consumers (w_q w q)) \<longrightarrow> c < w_nc w \<and> c_queue (w_c w c) = q"
    using wf_worldD(3) [OF wf] unfolding regs_ok_def by blast
  moreover have "\<forall>c < w_nc w. \<not> gm_has c (q_consumers (w_q w (c_queue (w_c w c)))) \<longrightarrow> c_pendingMessages (w_c w c) = []"
    using wf_consumer(5) [OF wf] by blast
  moreover have "\<forall>ch < w_nch w. \<forall>t c. gm_get (ch_consumers (w_ch w ch)) t = Some c \<longrightarrow>
       c < w_nc w \<and> c_tag (w_c w c) = t \<and> c_channel (w_c w c) = ch"
    using wf_worldD(5) [OF wf] unfolding chans_ok_def by blast
  moreover have "\<forall>cn < w_ncn w. \<forall>i ch. gm_get (cn_channels (w_cn w cn)) i = Some ch \<longrightarrow>
       ch < w_nch w \<and> ch_id (w_ch w ch) = i \<and> ch_conn (w_ch w ch) = cn"
    using wf_worldD(6) [OF wf] unfolding conns_ok_def by blast
  ultimately show ?thesis by (intro conjI)
qed

theorem reachable_links_witness:
  "gm_get (w_queues (demoWaiting [])) ''q'' = Some 0 \<and> c_queue (w_c (demoWaiting []) 0) = 0"
proof -
  have "0 < w_nq (demoWaiting [])" "q_name (w_q (demoWaiting []) 0) = ''q''"
    "gm_has 0 (q_consumers (w_q (demoWaiting []) 0))"
    by (simp_all add: demoWaiting_eq demoWorld_def gm_has_def)
  note w = this and all = reachable_links [OF reachable_demo(1) [of "[]"]]
  have "gm_get (w_queues (demoWaiting [])) ''q'' = Some 0" using all [THEN conjunct1] w(1,2) by blast
  moreover have "c_queue (w_c (demoWaiting []) 0) = 0" using all [THEN conjunct2, THEN conjunct1] w(1,3) by blast
  ultimately show ?thesis ..
qed

end
